(* ===== verification/Prelude.thy ===== *)
theory Prelude
  imports Main "HOL-Library.Word"
begin

text \<open>
  What every component shares: the names of the machine types, the faults a C++ operation can
  end in and the result type that carries them, and the generic lemmas on words and lists that
  the component proofs rest on.

  A value of type \<open>'a res\<close> is \<open>Inr x\<close> when the code returns \<open>x\<close> and \<open>Inl f\<close> when it stops:
  a failed \<^verbatim>\<open>VERIFY\<close> or \<^verbatim>\<open>assert\<close> is \<open>Abort\<close>, a dereferenced null pointer \<open>NullDeref\<close>, an access
  outside an object (or through an end iterator) \<open>OutOfBounds\<close>, a signed overflow
  \<open>SignedOverflow\<close>, an uncaught \<^verbatim>\<open>std::out_of_range\<close> \<open>OutOfRange\<close>, the use of a deleted object
  \<open>UseAfterFree\<close>, an allocation of a negative size \<open>BadAlloc\<close>, and a thread waiting for a lock it
  holds itself \<open>Deadlock\<close>.
\<close>

unbundle bit_operations_syntax

section \<open>Machine types\<close>

type_synonym byte = "8 word"
type_synonym u32 = "32 word"
type_synonym u64 = "64 word"

text \<open>A C \<^verbatim>\<open>int\<close> and an \<^verbatim>\<open>unsigned int\<close> are the same 32 bits; \<^const>\<open>sint\<close> reads the former and
  \<^const>\<open>unat\<close> the latter.\<close>

section \<open>Faults and results\<close>

datatype fault = Abort | NullDeref | OutOfBounds | SignedOverflow | OutOfRange | UseAfterFree | BadAlloc | Deadlock

type_synonym 'a res = "fault + 'a"

definition rbind :: "'a res \<Rightarrow> ('a \<Rightarrow> 'b res) \<Rightarrow> 'b res" where
  "rbind r k = (case r of Inl f \<Rightarrow> Inl f | Inr x \<Rightarrow> k x)"

text \<open>\<^verbatim>\<open>VERIFY(p)\<close> and \<^verbatim>\<open>assert(p)\<close>: the program stops unless the condition holds.\<close>

definition verify :: "bool \<Rightarrow> unit res" where
  "verify p = (if p then Inr () else Inl Abort)"

definition INT_MAX :: nat where
  "INT_MAX = 2 ^ 31 - 1"

fun rfold :: "('s \<Rightarrow> 'a \<Rightarrow> 's res) \<Rightarrow> 's \<Rightarrow> 'a list \<Rightarrow> 's res" where
  "rfold f s [] = Inr s"
| "rfold f s (x # xs) = rbind (f s x) (\<lambda>s'. rfold f s' xs)"

lemma rbind_simps [simp]:
  "rbind (Inl f) k = Inl f"
  "rbind (Inr x) k = k x"
  by (simp_all add: rbind_def)

lemma rbind_eq_Inr:
  "rbind r k = Inr y \<longleftrightarrow> (\<exists>x. r = Inr x \<and> k x = Inr y)"
  by (cases r) simp_all

lemma rbind_assoc: "rbind (rbind r k) h = rbind r (\<lambda>x. rbind (k x) h)"
  by (cases r) simp_all

lemma verify_simps [simp]:
  "verify True = Inr ()"
  "verify False = Inl Abort"
  by (simp_all add: verify_def)

lemma verify_eq_Inr [simp]: "verify p = Inr u \<longleftrightarrow> p"
  by (simp add: verify_def)

section \<open>Words and their bytes\<close>

lemma sint_u32_small:
  assumes "unat (w :: u32) < 2 ^ 31"
  shows "sint w = int (unat w)"
proof -
  have "int (unat w) < int (2 ^ 31)" using assms by (simp only: of_nat_less_iff)
  then have "uint w < 2 ^ 31" by simp
  moreover have "- (2 ^ 31) \<le> uint w" by (rule order.trans [of _ 0]) simp_all
  ultimately have "signed_take_bit 31 (uint w) = uint w" by (intro signed_take_bit_int_eq_self)
  then show ?thesis by (simp add: sint_uint)
qed

lemma and_255: "(w :: 32 word) AND 255 = take_bit 8 w"
proof -
  have "(255 :: 32 word) = mask 8" by (simp add: mask_eq_exp_minus_1)
  then show ?thesis by (simp only: take_bit_eq_mask)
qed

lemma scast_and_255: "scast (b :: byte) AND (255 :: u32) = ucast b"
proof (rule bit_word_eqI)
  fix n
  have "bit b n \<Longrightarrow> n < 8" using bit_imp_le_length [of b n] by simp
  then show "bit (scast b AND 255 :: u32) n = bit (ucast b :: u32) n" if "n < LENGTH(32)"
    using that unfolding and_255 by (cases "n < 7"; cases "n = 7") (auto simp: bit_simps min_def)
qed

lemma byte_and_255:
  "ucast ((x :: u32) AND 255) = (ucast x :: byte)"
  unfolding and_255 by (rule bit_word_eqI) (auto simp: bit_simps)

lemma byte_signed_shift:
  "ucast (signed_drop_bit 24 (x :: u32) AND 255) = (ucast (drop_bit 24 x) :: byte)"
  "ucast (signed_drop_bit 16 (x :: u32) AND 255) = (ucast (drop_bit 16 x) :: byte)"
  "ucast (signed_drop_bit 8 (x :: u32) AND 255) = (ucast (drop_bit 8 x) :: byte)"
  unfolding and_255 by (rule bit_word_eqI; auto simp: bit_simps)+

lemma u32_of_bytes:
  "push_bit 24 (ucast (ucast (drop_bit 24 x) :: byte)) OR
   push_bit 16 (ucast (ucast (drop_bit 16 x) :: byte)) OR
   push_bit 8 (ucast (ucast (drop_bit 8 x) :: byte)) OR
   ucast (ucast x :: byte) = (x :: u32)" (is "?l = x")
proof (rule bit_word_eqI)
  fix n assume "n < LENGTH(32)"
  then consider "n < 8" | "8 \<le> n" "n < 16" | "16 \<le> n" "n < 24" | "24 \<le> n" "n < 32"
    by fastforce
  then show "bit ?l n = bit x n"
    by cases (auto simp: bit_simps)
qed

lemma u64_of_halves:
  "ucast (ucast x :: u32) OR push_bit 32 (ucast (ucast (drop_bit 32 x) :: u32)) = (x :: u64)"
  (is "?l = x")
proof (rule bit_word_eqI)
  fix n assume "n < LENGTH(64)"
  then consider "n < 32" | "32 \<le> n" "n < 64" by fastforce
  then show "bit ?l n = bit x n"
    by cases (auto simp: bit_simps)
qed

lemma u16_of_bytes:
  "push_bit 8 (ucast (ucast (drop_bit 8 x) :: byte)) OR ucast (ucast x :: byte) = (x :: 16 word)"
  (is "?l = x")
proof (rule bit_word_eqI)
  fix n assume "n < LENGTH(16)"
  then consider "n < 8" | "8 \<le> n" "n < 16" by fastforce
  then show "bit ?l n = bit x n"
    by cases (auto simp: bit_simps)
qed

lemma unat_of_nat_u32: "n \<le> INT_MAX \<Longrightarrow> unat (of_nat n :: u32) = n"
  by (simp add: unsigned_of_nat take_bit_nat_eq_self INT_MAX_def)

section \<open>Lists\<close>

lemma take_Suc_update:
  "i < length xs \<Longrightarrow> take (Suc i) (xs[i := x]) = take i xs @ [x]"
  by (simp add: take_Suc_conv_app_nth)

lemma drop_eq_Cons_nth:
  "drop i xs = y # ys \<Longrightarrow> i < length xs \<and> xs ! i = y \<and> drop (Suc i) xs = ys"
  by (metis drop_all drop_Suc list.distinct(1) list.sel(1,3) hd_drop_conv_nth not_le tl_drop)

section \<open>Strings and their bytes\<close>

definition bytes :: "string \<Rightarrow> byte list" where
  "bytes s = map (\<lambda>c. word_of_nat (of_char c)) s"

definition chars :: "byte list \<Rightarrow> string" where
  "chars b = map (\<lambda>w. char_of (unat w)) b"

lemma chars_bytes [simp]: "chars (bytes s) = s"
proof -
  have "char_of (unat (word_of_nat (of_char c) :: byte)) = c" for c :: char
    by (simp add: unat_of_nat take_bit_nat_eq_self)
  then show ?thesis by (simp add: chars_def bytes_def comp_def)
qed

lemma length_bytes [simp]: "length (bytes s) = length s"
  by (simp add: bytes_def)

end
