(* ===== verification/Lock_Server.thy ===== *)
theory Lock_Server
  imports Prelude
begin

text \<open>
  The lock service contract and the plain lock server of \<^verbatim>\<open>lock_server.cc\<close>.

  The locale \<open>exclusive_lock\<close> is what a client of a lock server relies on: a request is granted
  only while nobody holds the lock, a granted request makes the client the holder, a refused one
  leaves the holder alone, and a release frees the lock. From this it follows that in every
  history grants and releases of a lock alternate. The plain server and the caching server both
  keep the contract.
\<close>

section \<open>Protocol\<close>

type_synonym lockid = u64

text \<open>\<^verbatim>\<open>lock_protocol::xxstatus\<close> and \<^verbatim>\<open>rlock_protocol::xxstatus\<close>\<close>

datatype lock_status = OK | RETRY | RPCERR | NOENT | IOERR

section \<open>The plain server\<close>

text \<open>A \<^verbatim>\<open>Lock\<close> is the number of the client that holds it; its condition variable is implicit in
  the blocking of \<open>acquire\<close>, whose result \<open>None\<close> means that the caller waits and tries again.\<close>

record lock_server =
  ls_nacquire :: int
  ls_locks :: "lockid \<rightharpoonup> int"

definition lock_server_new :: lock_server where
  "lock_server_new = \<lparr>ls_nacquire = 0, ls_locks = Map.empty\<rparr>"

definition stat :: "lock_server \<Rightarrow> int \<Rightarrow> lockid \<Rightarrow> lock_status \<times> int" where
  "stat s clt lid = (OK, ls_nacquire s)"

definition acquire :: "lock_server \<Rightarrow> int \<Rightarrow> lockid \<Rightarrow> (lock_status \<times> lock_server) option" where
  "acquire s clt lid =
     (case ls_locks s lid of
        None \<Rightarrow> Some (OK, s\<lparr>ls_locks := (ls_locks s)(lid \<mapsto> clt)\<rparr>)
      | Some client \<Rightarrow>
          if client > 0 then None else Some (OK, s\<lparr>ls_locks := (ls_locks s)(lid \<mapsto> clt)\<rparr>))"

definition release :: "lock_server \<Rightarrow> int \<Rightarrow> lockid \<Rightarrow> lock_status \<times> lock_server" where
  "release s clt lid =
     (case ls_locks s lid of
        None \<Rightarrow> (OK, s)
      | Some client \<Rightarrow> (OK, s\<lparr>ls_locks := (ls_locks s)(lid \<mapsto> -1)\<rparr>))"

text \<open>The client that keeps others out.\<close>

definition ls_holder :: "lock_server \<Rightarrow> lockid \<Rightarrow> int option" where
  "ls_holder s lid =
     (case ls_locks s lid of None \<Rightarrow> None | Some client \<Rightarrow> if client > 0 then Some client else None)"

definition ls_try :: "lock_server \<Rightarrow> lockid \<Rightarrow> int \<Rightarrow> bool \<times> lock_server" where
  "ls_try s lid clt = (case acquire s clt lid of None \<Rightarrow> (False, s) | Some (_, s') \<Rightarrow> (True, s'))"

definition ls_release :: "lock_server \<Rightarrow> lockid \<Rightarrow> int \<Rightarrow> lock_server" where
  "ls_release s lid clt = snd (release s clt lid)"

section \<open>Histories\<close>

datatype ('l, 'c) lock_op = Acquire 'l 'c | Release 'l 'c

datatype ('l, 'c) lock_event = Grant 'l 'c | Refuse 'l 'c | Freed 'l 'c

fun lock_run ::
  "('s \<Rightarrow> 'l \<Rightarrow> 'c \<Rightarrow> bool \<times> 's) \<Rightarrow> ('s \<Rightarrow> 'l \<Rightarrow> 'c \<Rightarrow> 's) \<Rightarrow> 's \<Rightarrow> ('l, 'c) lock_op list \<Rightarrow>
   ('l, 'c) lock_event list \<times> 's" where
  "lock_run acq rel s [] = ([], s)"
| "lock_run acq rel s (Acquire l c # ops) =
     (case acq s l c of (g, s1) \<Rightarrow>
        (case lock_run acq rel s1 ops of (evs, s2) \<Rightarrow> ((if g then Grant l c else Refuse l c) # evs, s2)))"
| "lock_run acq rel s (Release l c # ops) =
     (case lock_run acq rel (rel s l c) ops of (evs, s2) \<Rightarrow> (Freed l c # evs, s2))"

text \<open>Who holds a lock according to a history, and that it is only granted while free.\<close>

fun exclusive_from :: "('l \<Rightarrow> 'c option) \<Rightarrow> ('l, 'c) lock_event list \<Rightarrow> bool" where
  "exclusive_from h [] = True"
| "exclusive_from h (Grant l c # evs) = (h l = None \<and> exclusive_from (h(l \<mapsto> c)) evs)"
| "exclusive_from h (Refuse l c # evs) = exclusive_from h evs"
| "exclusive_from h (Freed l c # evs) = exclusive_from (h(l := None)) evs"

section \<open>The contract\<close>

locale exclusive_lock =
  fixes holder :: "'s \<Rightarrow> 'l \<Rightarrow> 'c option"
    and acq :: "'s \<Rightarrow> 'l \<Rightarrow> 'c \<Rightarrow> bool \<times> 's"
    and rel :: "'s \<Rightarrow> 'l \<Rightarrow> 'c \<Rightarrow> 's"
    and valid :: "'c \<Rightarrow> bool"
    and inv :: "'s \<Rightarrow> bool"
  assumes acq_inv: "inv s \<Longrightarrow> inv (snd (acq s l c))"
    and rel_inv: "inv s \<Longrightarrow> inv (rel s l c)"
    and acq_granted: "inv s \<Longrightarrow> valid c \<Longrightarrow> acq s l c = (True, s') \<Longrightarrow>
      holder s l = None \<and> holder s' = (holder s)(l \<mapsto> c)"
    and acq_refused: "inv s \<Longrightarrow> acq s l c = (False, s') \<Longrightarrow> holder s' = holder s"
    and rel_frees: "inv s \<Longrightarrow> holder (rel s l c) = (holder s)(l := None)"
begin

lemma grants_exclusive:
  assumes "inv s" "\<forall>op \<in> set ops. case op of Acquire l c \<Rightarrow> valid c | Release _ _ \<Rightarrow> True"
  shows "exclusive_from (holder s) (fst (lock_run acq rel s ops))"
  using assms
proof (induction ops arbitrary: s)
  case (Cons op ops)
  show ?case
  proof (cases op)
    case (Acquire l c)
    obtain g s1 where a: "acq s l c = (g, s1)" by fastforce
    have i: "inv s1" using acq_inv [OF Cons.prems(1), of l c] a by simp
    from Cons.IH [OF i] Cons.prems(2) have ih: "exclusive_from (holder s1) (fst (lock_run acq rel s1 ops))"
      by simp
    show ?thesis
    proof (cases g)
      case True
      with acq_granted [OF Cons.prems(1), of c l s1] a Acquire Cons.prems(2) ih show ?thesis
        by (simp add: case_prod_beta)
    next
      case False
      with acq_refused [OF Cons.prems(1), of l c s1] a Acquire ih show ?thesis
        by (simp add: case_prod_beta)
    qed
  next
    case (Release l c)
    have "exclusive_from (holder (rel s l c)) (fst (lock_run acq rel (rel s l c) ops))"
      using Cons.IH [OF rel_inv [OF Cons.prems(1)], of l c] Cons.prems(2) by simp
    then show ?thesis
      unfolding rel_frees [OF Cons.prems(1)] Release by (simp add: case_prod_beta)
  qed
qed simp

end

section \<open>The plain server keeps the contract for positive client numbers\<close>

interpretation plain: exclusive_lock ls_holder ls_try ls_release "\<lambda>c. 0 < c" "\<lambda>_. True"
  by unfold_locales
    (auto simp: ls_holder_def ls_try_def ls_release_def acquire_def release_def fun_eq_iff
      split: option.splits if_splits prod.splits)

text \<open>The plain lock server excludes: in every history of acquires and releases by clients with
  positive numbers, a lock is granted again only after it has been released.\<close>

theorem plain_server_excludes:
  assumes "\<forall>op \<in> set ops. case op of Acquire l c \<Rightarrow> 0 < c | Release _ _ \<Rightarrow> True"
  shows "exclusive_from (\<lambda>_. None) (fst (lock_run ls_try ls_release lock_server_new ops))"
proof -
  have "ls_holder lock_server_new = (\<lambda>_. None)" by (simp add: ls_holder_def lock_server_new_def fun_eq_iff)
  with plain.grants_exclusive [OF _ assms, of lock_server_new] show ?thesis by simp
qed

lemma plain_server_excludes_witness:
  "fst (lock_run ls_try ls_release lock_server_new [Acquire 7 1, Acquire 7 2, Release 7 1, Acquire 7 2]) =
     [Grant 7 1, Refuse 7 2, Freed 7 1, Grant 7 2] \<and>
   exclusive_from (\<lambda>_. None) [Grant 7 1, Refuse 7 2, Freed 7 1, Grant (7 :: lockid) (2 :: int)]"
proof -
  have "fst (lock_run ls_try ls_release lock_server_new [Acquire 7 1, Acquire 7 2, Release 7 1, Acquire 7 2]) =
     [Grant 7 1, Refuse 7 2, Freed 7 1, Grant 7 2]"
    by (simp add: lock_server_new_def ls_try_def acquire_def ls_release_def release_def)
  with plain_server_excludes [of "[Acquire 7 1, Acquire 7 2, Release 7 1, Acquire 7 2]"] show ?thesis by simp
qed

text \<open>A client whose number is zero does not exclude anybody: the server takes a number that is
  not positive for a free lock, so the next acquire succeeds at once.\<close>

theorem client_zero_not_excluded:
  assumes "clt \<le> 0" "acquire s clt lid = Some (r, s1)"
  shows "acquire s1 clt' lid = Some (OK, s1\<lparr>ls_locks := (ls_locks s1)(lid \<mapsto> clt')\<rparr>)"
  using assms by (auto simp: acquire_def split: option.splits if_splits)

lemma client_zero_not_excluded_witness:
  "\<exists>s1. acquire lock_server_new 0 7 = Some (OK, s1) \<and> acquire s1 5 7 \<noteq> None"
proof -
  have "acquire lock_server_new 0 7 = Some (OK, lock_server_new\<lparr>ls_locks := [7 \<mapsto> 0]\<rparr>)"
    by (simp add: acquire_def lock_server_new_def)
  with client_zero_not_excluded [OF _ this, of 5] show ?thesis by auto
qed

text \<open>The server's statistics never count: no acquire changes the number that \<^verbatim>\<open>stat\<close> reports.\<close>

theorem stat_never_counts:
  "snd (stat (snd (lock_run ls_try ls_release lock_server_new ops)) clt lid) = 0"
proof -
  have "ls_nacquire (snd (lock_run ls_try ls_release s ops)) = ls_nacquire s" for s
  proof (induction ops arbitrary: s)
    case (Cons op ops)
    show ?case
    proof (cases op)
      case (Acquire l c)
      have "ls_nacquire (snd (ls_try s l c)) = ls_nacquire s"
        by (auto simp: ls_try_def acquire_def split: option.splits)
      with Acquire Cons.IH [of "snd (ls_try s l c)"] show ?thesis by (simp add: case_prod_beta)
    next
      case (Release l c)
      have "ls_nacquire (ls_release s l c) = ls_nacquire s"
        by (auto simp: ls_release_def release_def split: option.splits)
      with Release Cons.IH [of "ls_release s l c"] show ?thesis by (simp add: case_prod_beta)
    qed
  qed simp
  then show ?thesis by (simp add: stat_def lock_server_new_def)
qed

end
