(* ===== verification/Lock_Server_Cache.thy ===== *)
theory Lock_Server_Cache
  imports Lock_Server "HOL-Library.Char_ord" "HOL-Library.List_Lexorder"
begin

text \<open>
  The caching lock server of \<^verbatim>\<open>lock_server_cache.h\<close> and \<^verbatim>\<open>lock_server_cache.cc\<close>. Each operation's
  critical section is one function; the revoke or retry call it makes afterwards, without holding
  the mutex, is part of the result. A \<^verbatim>\<open>std::set<std::string>\<close> is the strictly increasing list of
  its elements in the order of \<^verbatim>\<open>std::string\<close>, so that \<^verbatim>\<open>*queue.begin()\<close> is the head.
\<close>

section \<open>State\<close>

datatype lstate = FREE | LOCKED | LOCKED_AND_WAIT | ORDERED

record cache_lock =
  lk_client :: string
  lk_state :: lstate
  lk_queue :: "string list"

type_synonym server_locks = "lockid \<rightharpoonup> cache_lock"

definition free_lock :: cache_lock where
  "free_lock = \<lparr>lk_client = '''', lk_state = FREE, lk_queue = []\<rparr>"

text \<open>\<^verbatim>\<open>nacquire\<close> is not initialised by the constructor and never written.\<close>

record lock_server_cache =
  lc_nacquire :: "int option"
  lc_locks :: server_locks

definition lock_server_cache_new :: lock_server_cache where
  "lock_server_cache_new = \<lparr>lc_nacquire = None, lc_locks = Map.empty\<rparr>"

section \<open>Operations\<close>

text \<open>\<^verbatim>\<open>locks[lid]\<close>, created free if it is missing.\<close>

definition lock_at :: "server_locks \<Rightarrow> lockid \<Rightarrow> cache_lock" where
  "lock_at s lid = (case s lid of None \<Rightarrow> free_lock | Some l \<Rightarrow> l)"

text \<open>The \<^verbatim>\<open>switch\<close> of \<^verbatim>\<open>acquire\<close>: the status, the client a revoke is sent to, and the lock.\<close>

definition acquire_lock :: "cache_lock \<Rightarrow> string \<Rightarrow> lock_status \<times> string option \<times> cache_lock" where
  "acquire_lock l me =
     (case lk_state l of
        FREE \<Rightarrow> (OK, None, l\<lparr>lk_state := LOCKED, lk_client := me\<rparr>)
      | LOCKED \<Rightarrow>
          (RETRY, Some (lk_client l), l\<lparr>lk_state := LOCKED_AND_WAIT, lk_queue := insort_insert me (lk_queue l)\<rparr>)
      | LOCKED_AND_WAIT \<Rightarrow> (RETRY, None, l\<lparr>lk_queue := insort_insert me (lk_queue l)\<rparr>)
      | ORDERED \<Rightarrow>
          if me \<in> set (lk_queue l)
          then let q = remove1 me (lk_queue l) in
               if q \<noteq> [] then (OK, Some me, l\<lparr>lk_client := me, lk_queue := q, lk_state := LOCKED_AND_WAIT\<rparr>)
               else (OK, None, l\<lparr>lk_client := me, lk_queue := q, lk_state := LOCKED\<rparr>)
          else (RETRY, None, l\<lparr>lk_queue := insort_insert me (lk_queue l)\<rparr>))"

definition lsc_acquire :: "server_locks \<Rightarrow> lockid \<Rightarrow> string \<Rightarrow> lock_status \<times> string option \<times> server_locks" where
  "lsc_acquire s lid me =
     (case acquire_lock (lock_at s lid) me of (ret, revoke, l) \<Rightarrow> (ret, revoke, s(lid \<mapsto> l)))"

text \<open>The \<^verbatim>\<open>switch\<close> of \<^verbatim>\<open>release\<close>: the client a retry is sent to, and the lock.\<close>

definition release_lock :: "cache_lock \<Rightarrow> (string option \<times> cache_lock) res" where
  "release_lock l =
     (case lk_state l of
        FREE \<Rightarrow> Inr (None, l)
      | LOCKED \<Rightarrow> Inr (None, l\<lparr>lk_state := FREE, lk_client := ''''\<rparr>)
      | LOCKED_AND_WAIT \<Rightarrow>
          (case lk_queue l of
             [] \<Rightarrow> Inl OutOfBounds
           | addr # _ \<Rightarrow> Inr (Some addr, l\<lparr>lk_state := ORDERED, lk_client := ''''\<rparr>))
      | ORDERED \<Rightarrow> Inr (None, l))"

definition lsc_release :: "server_locks \<Rightarrow> lockid \<Rightarrow> string \<Rightarrow> (lock_status \<times> string option \<times> server_locks) res" where
  "lsc_release s lid me =
     (case s lid of
        None \<Rightarrow> Inr (OK, None, s)
      | Some l \<Rightarrow> rbind (release_lock l) (\<lambda>(retry, l'). Inr (OK, retry, s(lid \<mapsto> l'))))"

text \<open>\<^verbatim>\<open>stat\<close> reads the uninitialised member.\<close>

definition lsc_stat :: "lock_server_cache \<Rightarrow> lockid \<Rightarrow> lock_status \<times> int option" where
  "lsc_stat s lid = (OK, lc_nacquire s)"

section \<open>Invariant and abstraction\<close>

definition lock_ok :: "cache_lock \<Rightarrow> bool" where
  "lock_ok l \<longleftrightarrow>
     sorted (lk_queue l) \<and> distinct (lk_queue l) \<and>
     (case lk_state l of
        FREE \<Rightarrow> lk_client l = '''' \<and> lk_queue l = []
      | LOCKED \<Rightarrow> lk_queue l = []
      | LOCKED_AND_WAIT \<Rightarrow> lk_queue l \<noteq> []
      | ORDERED \<Rightarrow> lk_client l = '''' \<and> lk_queue l \<noteq> [])"

definition locks_ok :: "server_locks \<Rightarrow> bool" where
  "locks_ok s \<longleftrightarrow> (\<forall>lid l. s lid = Some l \<longrightarrow> lock_ok l)"

text \<open>The abstract lock: who holds it and who waits for it.\<close>

definition abs_holder :: "cache_lock \<Rightarrow> string option" where
  "abs_holder l = (if lk_state l = LOCKED \<or> lk_state l = LOCKED_AND_WAIT then Some (lk_client l) else None)"

definition abs_lock :: "cache_lock \<Rightarrow> string option \<times> string set" where
  "abs_lock l = (abs_holder l, set (lk_queue l))"

definition spec_acquire :: "string option \<times> string set \<Rightarrow> string \<Rightarrow> bool \<times> string option \<times> string set" where
  "spec_acquire hw me =
     (case hw of (h, W) \<Rightarrow>
        if h = None \<and> (W = {} \<or> me \<in> W) then (True, Some me, W - {me}) else (False, h, insert me W))"

definition spec_release :: "string option \<times> string set \<Rightarrow> string option \<times> string set" where
  "spec_release hw = (None, snd hw)"

definition sc_holder :: "server_locks \<Rightarrow> lockid \<Rightarrow> string option" where
  "sc_holder s lid = abs_holder (lock_at s lid)"

definition sc_try :: "server_locks \<Rightarrow> lockid \<Rightarrow> string \<Rightarrow> bool \<times> server_locks" where
  "sc_try s lid me = (case lsc_acquire s lid me of (ret, _, s') \<Rightarrow> (ret = OK, s'))"

definition sc_release :: "server_locks \<Rightarrow> lockid \<Rightarrow> string \<Rightarrow> server_locks" where
  "sc_release s lid me = (case lsc_release s lid me of Inl _ \<Rightarrow> s | Inr (_, _, s') \<Rightarrow> s')"

section \<open>Each operation keeps the invariant and implements the abstract lock\<close>

named_theorems lock_simps \<open>the operations and the abstraction of a cached lock\<close>

declare acquire_lock_def [lock_simps] release_lock_def [lock_simps] lock_ok_def [lock_simps]
  abs_lock_def [lock_simps] abs_holder_def [lock_simps] spec_acquire_def [lock_simps]
  spec_release_def [lock_simps] free_lock_def [lock_simps]

lemma free_lock_ok [simp]: "lock_ok free_lock"
  by (simp add: lock_simps)

lemma lock_at_ok: "locks_ok s \<Longrightarrow> lock_ok (lock_at s lid)"
  by (auto simp: locks_ok_def lock_at_def split: option.splits)

lemma insort_insert_nonempty [simp]: "insort_insert x xs \<noteq> []"
  by (metis empty_iff insertI1 list.set(1) set_insort_insert)

lemma acquire_lock_ok: "lock_ok l \<Longrightarrow> acquire_lock l me = (ret, rv, l') \<Longrightarrow> lock_ok l'"
  by (auto simp: lock_simps Let_def sorted_insort_insert distinct_insort_insert sorted_remove1
      split: lstate.splits if_splits)

lemma release_lock_ok:
  assumes "lock_ok l"
  shows "case release_lock l of
      Inl _ \<Rightarrow> False
    | Inr (rt, l') \<Rightarrow> lock_ok l' \<and> abs_lock l' = spec_release (abs_lock l) \<and>
        rt = (if abs_holder l \<noteq> None \<and> lk_queue l \<noteq> [] then Some (hd (lk_queue l)) else None)"
  using assms by (cases "lk_queue l") (auto simp: lock_simps split: lstate.splits)

lemma remove1_Nil: "distinct q \<Longrightarrow> remove1 x q = [] \<Longrightarrow> y \<in> set q \<Longrightarrow> y = x"
  using set_remove1_eq [of q x] by auto

lemma acquire_lock_refines:
  assumes "lock_ok l" "acquire_lock l me = (ret, rv, l')"
  shows "spec_acquire (abs_lock l) me = (ret = OK, abs_lock l')" "ret = OK \<or> ret = RETRY"
    "rv = (if lk_state l' = LOCKED_AND_WAIT \<and> lk_state l \<noteq> LOCKED_AND_WAIT then abs_holder l' else None)"
  using assms
  by (auto simp: lock_simps Let_def set_insort_insert split: lstate.splits if_splits dest: remove1_Nil)

lemma lock_at_upd [simp]: "lock_at (s(lid \<mapsto> l)) lid' = (if lid' = lid then l else lock_at s lid')"
  by (simp add: lock_at_def)

lemma locks_ok_upd: "locks_ok s \<Longrightarrow> lock_ok l \<Longrightarrow> locks_ok (s(lid \<mapsto> l))"
  by (auto simp: locks_ok_def)

lemma locks_ok_empty [simp]: "locks_ok Map.empty"
  by (simp add: locks_ok_def)

lemma lsc_acquire_ok:
  assumes "locks_ok s" "lsc_acquire s lid me = (ret, rv, s')"
  shows "locks_ok s'" "spec_acquire (abs_lock (lock_at s lid)) me = (ret = OK, abs_lock (lock_at s' lid))"
    "\<And>lid'. lid' \<noteq> lid \<Longrightarrow> lock_at s' lid' = lock_at s lid'"
    "rv = (if lk_state (lock_at s' lid) = LOCKED_AND_WAIT \<and> lk_state (lock_at s lid) \<noteq> LOCKED_AND_WAIT
           then sc_holder s' lid else None)" "ret = OK \<or> ret = RETRY"
proof -
  obtain l where a: "acquire_lock (lock_at s lid) me = (ret, rv, l)" "s' = s(lid \<mapsto> l)"
    using assms(2) by (auto simp: lsc_acquire_def split: prod.splits)
  note l = lock_at_ok [OF assms(1), of lid]
  show "locks_ok s'" using locks_ok_upd [OF assms(1) acquire_lock_ok [OF l a(1)]] a(2) by simp
  show "spec_acquire (abs_lock (lock_at s lid)) me = (ret = OK, abs_lock (lock_at s' lid))"
    "rv = (if lk_state (lock_at s' lid) = LOCKED_AND_WAIT \<and> lk_state (lock_at s lid) \<noteq> LOCKED_AND_WAIT
           then sc_holder s' lid else None)" "ret = OK \<or> ret = RETRY"
    using acquire_lock_refines [OF l a(1)] a(2) by (simp_all add: sc_holder_def)
  show "lid' \<noteq> lid \<Longrightarrow> lock_at s' lid' = lock_at s lid'" for lid' using a(2) by simp
qed

lemma lsc_release_ok:
  assumes "locks_ok s"
  shows "\<exists>rt s'. lsc_release s lid me = Inr (OK, rt, s') \<and> locks_ok s' \<and>
    abs_lock (lock_at s' lid) = spec_release (abs_lock (lock_at s lid)) \<and>
    (\<forall>lid'. lid' \<noteq> lid \<longrightarrow> lock_at s' lid' = lock_at s lid') \<and>
    rt = (if sc_holder s lid \<noteq> None \<and> lk_queue (lock_at s lid) \<noteq> [] then Some (hd (lk_queue (lock_at s lid))) else None)"
proof (cases "s lid")
  case None
  then show ?thesis using assms by (auto simp: lsc_release_def sc_holder_def lock_at_def lock_simps)
next
  case (Some l)
  then have l: "lock_ok l" using assms by (simp add: locks_ok_def)
  from release_lock_ok [OF l] obtain rt l' where r: "release_lock l = Inr (rt, l')" "lock_ok l'"
    "abs_lock l' = spec_release (abs_lock l)"
    "rt = (if abs_holder l \<noteq> None \<and> lk_queue l \<noteq> [] then Some (hd (lk_queue l)) else None)"
    by (auto split: sum.splits)
  with Some locks_ok_upd [OF assms r(2)] show ?thesis
    by (auto simp: lsc_release_def sc_holder_def lock_at_def)
qed

interpretation caching: exclusive_lock sc_holder sc_try sc_release "\<lambda>_. True" locks_ok
proof
  fix s l c assume s: "locks_ok s"
  obtain ret rv s1 where a: "lsc_acquire s l c = (ret, rv, s1)" by (cases "lsc_acquire s l c") auto
  note ok = lsc_acquire_ok [OF s a]
  show "locks_ok (snd (sc_try s l c))" using ok(1) a by (simp add: sc_try_def)
  have h: "sc_holder s' x = fst (abs_lock (lock_at s' x))" for s' x by (simp add: sc_holder_def abs_lock_def)
  show "sc_holder s l = None \<and> sc_holder s' = (sc_holder s)(l \<mapsto> c)" if "True" "sc_try s l c = (True, s')" for s'
  proof -
    have s': "ret = OK" "s' = s1" using that a by (simp_all add: sc_try_def)
    from ok(2,3) s'(1) show ?thesis
      unfolding s'(2) h fun_eq_iff by (cases "abs_lock (lock_at s1 l)") (auto simp: spec_acquire_def split: prod.splits if_splits)
  qed
  show "sc_holder s' = sc_holder s" if "sc_try s l c = (False, s')" for s'
  proof -
    have s': "ret \<noteq> OK" "s' = s1" using that a by (simp_all add: sc_try_def)
    have "fst (abs_lock (lock_at s1 x)) = fst (abs_lock (lock_at s x))" for x
      using ok(2,3) s'(1) by (cases "x = l"; cases "abs_lock (lock_at s1 l)")
        (auto simp: spec_acquire_def split: prod.splits if_splits)
    then show ?thesis unfolding s'(2) h fun_eq_iff by simp
  qed
  from lsc_release_ok [OF s, of l c] obtain rt s2 where r: "lsc_release s l c = Inr (OK, rt, s2)" "locks_ok s2"
    "abs_lock (lock_at s2 l) = spec_release (abs_lock (lock_at s l))"
    "\<forall>lid'. lid' \<noteq> l \<longrightarrow> lock_at s2 lid' = lock_at s lid'" by blast
  show "locks_ok (sc_release s l c)" using r(1,2) by (simp add: sc_release_def)
  show "sc_holder (sc_release s l c) = (sc_holder s)(l := None)"
    using r by (auto simp: h sc_release_def spec_release_def fun_eq_iff)
qed

section \<open>Properties\<close>

text \<open>(C22) \<^verbatim>\<open>lock_server_cache::acquire\<close> implements the abstract lock: it grants exactly when nobody
  holds the lock and nobody waits or the caller is among those waiting; otherwise the caller
  joins the waiting set; no other lock changes; the invariant of the four states is kept; and a
  revoke goes out, to the holder, exactly when the lock becomes held with others waiting.\<close>

theorem cache_acquire_refines:
  assumes "locks_ok s" "lsc_acquire s lid me = (ret, rv, s')"
  shows "locks_ok s' \<and> spec_acquire (abs_lock (lock_at s lid)) me = (ret = OK, abs_lock (lock_at s' lid)) \<and>
    (\<forall>lid'. lid' \<noteq> lid \<longrightarrow> lock_at s' lid' = lock_at s lid') \<and>
    rv = (if lk_state (lock_at s' lid) = LOCKED_AND_WAIT \<and> lk_state (lock_at s lid) \<noteq> LOCKED_AND_WAIT
          then sc_holder s' lid else None)"
  using lsc_acquire_ok [OF assms] by blast

lemma cache_acquire_refines_witness:
  "\<exists>s'. lsc_acquire [7 \<mapsto> \<lparr>lk_client = [], lk_state = ORDERED, lk_queue = [''a'', ''b'']\<rparr>] 7 ''b'' =
      (OK, Some ''b'', s') \<and> abs_lock (lock_at s' 7) = (Some ''b'', {''a''})"
proof -
  let ?s = "[7 \<mapsto> \<lparr>lk_client = [], lk_state = ORDERED, lk_queue = [''a'', ''b'']\<rparr>]"
  have ok: "locks_ok ?s" by (simp add: locks_ok_def lock_ok_def)
  obtain s' where a: "lsc_acquire ?s 7 ''b'' = (OK, Some ''b'', s')"
    by (simp add: lsc_acquire_def acquire_lock_def lock_at_def)
  from cache_acquire_refines [OF ok a] a show ?thesis
    by (auto simp: spec_acquire_def abs_lock_def abs_holder_def lock_at_def)
qed

text \<open>(C23) \<^verbatim>\<open>lock_server_cache::release\<close> frees the lock and never dereferences the begin of an empty
  queue: it always returns \<^verbatim>\<open>OK\<close>, the lock has no holder afterwards and the same clients waiting,
  and the first of them is told to retry, if the lock was held.\<close>

theorem cache_release_refines:
  assumes "locks_ok s"
  shows "\<exists>rt s'. lsc_release s lid me = Inr (OK, rt, s') \<and> locks_ok s' \<and>
    abs_lock (lock_at s' lid) = spec_release (abs_lock (lock_at s lid)) \<and>
    (\<forall>lid'. lid' \<noteq> lid \<longrightarrow> lock_at s' lid' = lock_at s lid') \<and>
    rt = (if sc_holder s lid \<noteq> None \<and> lk_queue (lock_at s lid) \<noteq> [] then Some (hd (lk_queue (lock_at s lid))) else None)"
  using lsc_release_ok [OF assms] .

lemma cache_release_refines_witness:
  "\<exists>rt s'. lsc_release [7 \<mapsto> \<lparr>lk_client = ''c'', lk_state = LOCKED_AND_WAIT, lk_queue = [''a'', ''b'']\<rparr>] 7 ''c'' =
      Inr (OK, rt, s') \<and> rt = Some ''a''"
proof -
  let ?s = "[7 \<mapsto> \<lparr>lk_client = ''c'', lk_state = LOCKED_AND_WAIT, lk_queue = [''a'', ''b'']\<rparr>]"
  have ok: "locks_ok ?s" by (simp add: locks_ok_def lock_ok_def)
  from cache_release_refines [OF ok, of 7 "''c''"] show ?thesis
    by (auto simp: sc_holder_def abs_holder_def lock_at_def)
qed

text \<open>The caching lock server excludes: in every history of acquires and releases, by any clients
  in any order, a lock is granted again only after it has been released.\<close>

theorem cache_server_excludes:
  "exclusive_from (\<lambda>_. None) (fst (lock_run sc_try sc_release Map.empty ops))"
proof -
  have "sc_holder Map.empty = (\<lambda>_. None)" by (simp add: sc_holder_def lock_at_def lock_simps fun_eq_iff)
  with caching.grants_exclusive [OF locks_ok_empty, of ops] show ?thesis
    by (simp split: lock_op.splits)
qed

end
