(* ===== verification/Lock_Client_Cache.thy ===== *)
theory Lock_Client_Cache
  imports Lock_Server_Cache
begin

text \<open>
  The caching lock client of \<^verbatim>\<open>lock_client_cache.h\<close> and \<^verbatim>\<open>lock_client_cache.cc\<close>. A thread in
  \<^verbatim>\<open>acquire\<close>, \<^verbatim>\<open>release\<close> or one of the two handlers gives up the client's mutex where it waits on a
  condition variable and where it makes a call to the server; each function below is what it does
  between two such points. Waiting threads are woken spuriously at any time: a test that fails
  leaves the thread where it is.
\<close>

section \<open>State\<close>

text \<open>\<^verbatim>\<open>revoke\<close> is an \<^verbatim>\<open>int\<close> that counts revokes; that it passes \<open>2 ^ 31\<close> is not considered.\<close>

datatype cstate = NONE | CFREE | CLOCKED | ACQUIRING | RELEASING

record client_lock =
  cc_state :: cstate
  cc_owner :: u64
  cc_revoke :: int
  cc_retry :: bool

type_synonym client_locks = "lockid \<rightharpoonup> client_lock"

definition client_lock_new :: client_lock where
  "client_lock_new = \<lparr>cc_state = NONE, cc_owner = -1, cc_revoke = 0, cc_retry = False\<rparr>"

definition ccl_at :: "client_locks \<Rightarrow> lockid \<Rightarrow> client_lock" where
  "ccl_at s lid = (case s lid of None \<Rightarrow> client_lock_new | Some l \<Rightarrow> l)"

section \<open>acquire\<close>

datatype acq_next = CallServer | Got | WaitLock | WaitRelease

text \<open>The \<^verbatim>\<open>switch\<close> in the loop of the first critical section.\<close>

definition acq_switch :: "u64 \<Rightarrow> client_lock \<Rightarrow> acq_next \<times> client_lock" where
  "acq_switch self l =
     (case cc_state l of
        NONE \<Rightarrow> (CallServer, l\<lparr>cc_state := ACQUIRING\<rparr>)
      | CFREE \<Rightarrow> (Got, l\<lparr>cc_state := CLOCKED, cc_owner := self\<rparr>)
      | ACQUIRING \<Rightarrow> (WaitLock, l)
      | CLOCKED \<Rightarrow> (WaitLock, l)
      | RELEASING \<Rightarrow> (WaitRelease, l))"

text \<open>The critical section after the server's answer, up to the wait for a retry.\<close>

definition acq_answer :: "u64 \<Rightarrow> lock_status \<Rightarrow> client_lock \<Rightarrow> bool \<times> client_lock" where
  "acq_answer self ret l =
     (if ret = OK then (True, l\<lparr>cc_state := CLOCKED, cc_owner := self\<rparr>) else (False, l))"

text \<open>The test of the waiting loop: whether the thread goes on to call the server again.\<close>

definition acq_retry :: "client_lock \<Rightarrow> bool \<times> client_lock" where
  "acq_retry l = (if cc_retry l then (True, l\<lparr>cc_retry := False\<rparr>) else (False, l))"

section \<open>release\<close>

text \<open>The first critical section: whether the lock goes back to the server; \<open>None\<close> is the early
  return for an unknown lock.\<close>

definition rel_switch :: "client_lock \<Rightarrow> bool \<times> client_lock" where
  "rel_switch l =
     (if cc_revoke l \<noteq> 0 then (True, l\<lparr>cc_revoke := cc_revoke l - 1\<rparr>)
      else case cc_state l of
        NONE \<Rightarrow> (False, l)
      | CFREE \<Rightarrow> (False, l)
      | CLOCKED \<Rightarrow> (False, l\<lparr>cc_state := CFREE\<rparr>)
      | ACQUIRING \<Rightarrow> (False, l)
      | RELEASING \<Rightarrow> (True, l))"

definition rel_begin :: "client_locks \<Rightarrow> lockid \<Rightarrow> (bool \<times> client_locks) option" where
  "rel_begin s lid =
     (case s lid of
        None \<Rightarrow> None
      | Some l \<Rightarrow> (case rel_switch l of (flag, l') \<Rightarrow> Some (flag, s(lid \<mapsto> l'))))"

text \<open>The last critical section, shared by \<^verbatim>\<open>release\<close> and the revoke handler.\<close>

definition rel_end :: "client_lock \<Rightarrow> client_lock" where
  "rel_end l = l\<lparr>cc_state := NONE\<rparr>"

section \<open>The handlers\<close>

definition revoke_switch :: "client_lock \<Rightarrow> bool \<times> client_lock" where
  "revoke_switch l =
     (case cc_state l of
        NONE \<Rightarrow> (False, l\<lparr>cc_revoke := cc_revoke l + 1\<rparr>)
      | CFREE \<Rightarrow> (True, l\<lparr>cc_state := RELEASING\<rparr>)
      | CLOCKED \<Rightarrow> (False, l\<lparr>cc_state := RELEASING\<rparr>)
      | ACQUIRING \<Rightarrow> (False, l\<lparr>cc_revoke := cc_revoke l + 1\<rparr>)
      | RELEASING \<Rightarrow> (False, l\<lparr>cc_revoke := cc_revoke l + 1\<rparr>))"

definition revoke_handler :: "client_locks \<Rightarrow> lockid \<Rightarrow> (bool \<times> client_locks) option" where
  "revoke_handler s lid =
     (case s lid of
        None \<Rightarrow> None
      | Some l \<Rightarrow> (case revoke_switch l of (flag, l') \<Rightarrow> Some (flag, s(lid \<mapsto> l'))))"

definition retry_handler :: "client_locks \<Rightarrow> lockid \<Rightarrow> client_locks" where
  "retry_handler s lid =
     (case s lid of None \<Rightarrow> s | Some l \<Rightarrow> s(lid \<mapsto> l\<lparr>cc_retry := True\<rparr>))"

end
