(* ===== verification/Lock_System.thy ===== *)
theory Lock_System
  imports Lock_Client_Cache
begin

text \<open>
  The lock service as a whole: one caching lock server, any number of caching lock clients, each
  with any number of threads. A state holds the server's locks, the clients' locks and where each
  thread is; a step is one critical section of a client, one critical section of the server on
  behalf of the thread that called it, or the flush a client does before it gives a lock back.

  Revoke and retry handlers may run at any client at any time, whether or not the server sent
  anything, so everything shown here holds however these messages are delayed, lost or repeated.
  Threads call \<^verbatim>\<open>release\<close> only for locks they acquired; calls to the server do not time out.
\<close>

section \<open>Threads\<close>

datatype pc =
    Idle
  | AcqLoop lockid
  | AcqCall lockid
  | AcqRet lockid lock_status
  | AcqWait lockid
  | Crit lockid
  | RelFlush lockid
  | RelCall lockid
  | RelRet lockid
  | RevFlush lockid
  | RevCall lockid
  | RevRet lockid

record lsys =
  y_srv :: server_locks
  y_cli :: "string \<Rightarrow> client_locks"
  y_pc :: "string \<Rightarrow> nat \<Rightarrow> pc"

definition lsys_init :: lsys where
  "lsys_init = \<lparr>y_srv = Map.empty, y_cli = (\<lambda>_. Map.empty), y_pc = (\<lambda>_ _. Idle)\<rparr>"

definition set_cli :: "lsys \<Rightarrow> string \<Rightarrow> client_locks \<Rightarrow> lsys" where
  "set_cli s c m = s\<lparr>y_cli := (y_cli s)(c := m)\<rparr>"

definition goto :: "lsys \<Rightarrow> string \<Rightarrow> nat \<Rightarrow> pc \<Rightarrow> lsys" where
  "goto s c t p = s\<lparr>y_pc := (y_pc s)(c := (y_pc s c)(t := p))\<rparr>"

definition acq_goto :: "lockid \<Rightarrow> acq_next \<Rightarrow> pc" where
  "acq_goto lid n =
     (case n of CallServer \<Rightarrow> AcqCall lid | Got \<Rightarrow> Crit lid | WaitLock \<Rightarrow> AcqLoop lid | WaitRelease \<Rightarrow> AcqLoop lid)"

section \<open>Steps\<close>

inductive lstep :: "lsys \<Rightarrow> lsys \<Rightarrow> bool" where
  begin_acquire: "y_pc s c t = Idle \<Longrightarrow> lstep s (goto s c t (AcqLoop lid))"
| acquire_loop: "y_pc s c t = AcqLoop lid \<Longrightarrow> acq_switch (of_nat t) (ccl_at (y_cli s c) lid) = (n, l) \<Longrightarrow>
    lstep s (goto (set_cli s c ((y_cli s c)(lid \<mapsto> l))) c t (acq_goto lid n))"
| server_acquire: "y_pc s c t = AcqCall lid \<Longrightarrow> lsc_acquire (y_srv s) lid c = (ret, rv, srv) \<Longrightarrow>
    lstep s (goto (s\<lparr>y_srv := srv\<rparr>) c t (AcqRet lid ret))"
| acquire_answer: "y_pc s c t = AcqRet lid ret \<Longrightarrow> acq_answer (of_nat t) ret (ccl_at (y_cli s c) lid) = (got, l) \<Longrightarrow>
    lstep s (goto (set_cli s c ((y_cli s c)(lid \<mapsto> l))) c t (if got then Crit lid else AcqWait lid))"
| acquire_retry: "y_pc s c t = AcqWait lid \<Longrightarrow> acq_retry (ccl_at (y_cli s c) lid) = (again, l) \<Longrightarrow>
    lstep s (goto (set_cli s c ((y_cli s c)(lid \<mapsto> l))) c t (if again then AcqCall lid else AcqWait lid))"
| begin_release: "y_pc s c t = Crit lid \<Longrightarrow> rel_begin (y_cli s c) lid = Some (flag, m) \<Longrightarrow>
    lstep s (goto (set_cli s c m) c t (if flag then RelFlush lid else Idle))"
| release_flush: "y_pc s c t = RelFlush lid \<Longrightarrow> lstep s (goto s c t (RelCall lid))"
| release_server: "y_pc s c t = RelCall lid \<Longrightarrow> lsc_release (y_srv s) lid c = Inr (ret, rt, srv) \<Longrightarrow>
    lstep s (goto (s\<lparr>y_srv := srv\<rparr>) c t (RelRet lid))"
| release_end: "y_pc s c t = RelRet lid \<Longrightarrow>
    lstep s (goto (set_cli s c ((y_cli s c)(lid \<mapsto> rel_end (ccl_at (y_cli s c) lid)))) c t Idle)"
| revoke: "y_pc s c t = Idle \<Longrightarrow> revoke_handler (y_cli s c) lid = Some (flag, m) \<Longrightarrow>
    lstep s (goto (set_cli s c m) c t (if flag then RevFlush lid else Idle))"
| revoke_flush: "y_pc s c t = RevFlush lid \<Longrightarrow> lstep s (goto s c t (RevCall lid))"
| revoke_server: "y_pc s c t = RevCall lid \<Longrightarrow> lsc_release (y_srv s) lid c = Inr (ret, rt, srv) \<Longrightarrow>
    lstep s (goto (s\<lparr>y_srv := srv\<rparr>) c t (RevRet lid))"
| revoke_end: "y_pc s c t = RevRet lid \<Longrightarrow>
    lstep s (goto (set_cli s c ((y_cli s c)(lid \<mapsto> rel_end (ccl_at (y_cli s c) lid)))) c t Idle)"
| retry: "y_pc s c t = Idle \<Longrightarrow> lstep s (goto (set_cli s c (retry_handler (y_cli s c) lid)) c t Idle)"

definition lreachable :: "lsys \<Rightarrow> bool" where
  "lreachable s \<longleftrightarrow> lstep\<^sup>*\<^sup>* lsys_init s"

section \<open>The invariant\<close>

text \<open>What a thread is doing with a lock.\<close>

fun acquirer :: "lockid \<Rightarrow> pc \<Rightarrow> bool" where
  "acquirer lid (AcqCall l) = (l = lid)"
| "acquirer lid (AcqRet l _) = (l = lid)"
| "acquirer lid (AcqWait l) = (l = lid)"
| "acquirer lid _ = False"

fun owner :: "lockid \<Rightarrow> pc \<Rightarrow> bool" where
  "owner lid (Crit l) = (l = lid)"
| "owner lid (RelFlush l) = (l = lid)"
| "owner lid (RelCall l) = (l = lid)"
| "owner lid (RelRet l) = (l = lid)"
| "owner lid _ = False"

fun revoker :: "lockid \<Rightarrow> pc \<Rightarrow> bool" where
  "revoker lid (RevFlush l) = (l = lid)"
| "revoker lid (RevCall l) = (l = lid)"
| "revoker lid (RevRet l) = (l = lid)"
| "revoker lid _ = False"

definition busy :: "lockid \<Rightarrow> pc \<Rightarrow> bool" where
  "busy lid p \<longleftrightarrow> acquirer lid p \<or> owner lid p \<or> revoker lid p"

text \<open>The thread has been granted the lock by the server, which does not know yet that it is back.\<close>

fun granted :: "lockid \<Rightarrow> pc \<Rightarrow> bool" where
  "granted lid (AcqRet l r) = (l = lid \<and> r = OK)"
| "granted lid (Crit l) = (l = lid)"
| "granted lid (RelFlush l) = (l = lid)"
| "granted lid (RelCall l) = (l = lid)"
| "granted lid (RevFlush l) = (l = lid)"
| "granted lid (RevCall l) = (l = lid)"
| "granted lid _ = False"

definition fits :: "lockid \<Rightarrow> cstate \<Rightarrow> pc \<Rightarrow> bool" where
  "fits lid st p \<longleftrightarrow>
     (acquirer lid p \<longrightarrow> st = ACQUIRING) \<and> (owner lid p \<longrightarrow> st = CLOCKED \<or> st = RELEASING) \<and>
     (revoker lid p \<longrightarrow> st = RELEASING)"

text \<open>At one client at most one thread is busy with a lock, what it does fits the state of the
  lock, and there is one unless the lock is absent or free.\<close>

definition cli_ok :: "lockid \<Rightarrow> cstate \<Rightarrow> (nat \<Rightarrow> pc) \<Rightarrow> bool" where
  "cli_ok lid st f \<longleftrightarrow>
     (\<forall>t u. busy lid (f t) \<and> busy lid (f u) \<longrightarrow> t = u) \<and>
     (\<forall>t. busy lid (f t) \<longrightarrow> fits lid st (f t)) \<and>
     (st \<noteq> NONE \<and> st \<noteq> CFREE \<longrightarrow> (\<exists>t. busy lid (f t)))"

definition token :: "lockid \<Rightarrow> cstate \<Rightarrow> (nat \<Rightarrow> pc) \<Rightarrow> bool" where
  "token lid st f \<longleftrightarrow> st = CFREE \<or> (\<exists>t. granted lid (f t))"

abbreviation st_at :: "lsys \<Rightarrow> string \<Rightarrow> lockid \<Rightarrow> cstate" where
  "st_at s c lid \<equiv> cc_state (ccl_at (y_cli s c) lid)"

definition linv :: "lsys \<Rightarrow> bool" where
  "linv s \<longleftrightarrow>
     locks_ok (y_srv s) \<and>
     (\<forall>c lid. cli_ok lid (st_at s c lid) (y_pc s c) \<and>
        (token lid (st_at s c lid) (y_pc s c) \<longleftrightarrow> sc_holder (y_srv s) lid = Some c))"

section \<open>Moves of one thread\<close>

lemma granted_busy: "granted lid p \<Longrightarrow> busy lid p"
  by (cases p) (auto simp: busy_def)

lemma cli_ok_upd: "st \<noteq> NONE \<and> st \<noteq> CFREE \<longleftrightarrow> busy lid p' \<Longrightarrow>
    cli_ok lid st0 f \<Longrightarrow> busy lid (f t) \<or> st0 = NONE \<or> st0 = CFREE \<Longrightarrow> fits lid st p' \<Longrightarrow>
    cli_ok lid st (f(t := p')) \<and> (token lid st (f(t := p')) \<longleftrightarrow> st = CFREE \<or> granted lid p')"
proof -
  assume a: "st \<noteq> NONE \<and> st \<noteq> CFREE \<longleftrightarrow> busy lid p'" "cli_ok lid st0 f"
    "busy lid (f t) \<or> st0 = NONE \<or> st0 = CFREE" "fits lid st p'"
  have n: "\<not> busy lid (f u)" if "u \<noteq> t" for u
    using a(2,3) that by (auto simp: cli_ok_def fits_def busy_def)
  have b: "busy lid ((f(t := p')) u) \<longleftrightarrow> u = t \<and> busy lid p'" for u using n by simp
  have g: "granted lid ((f(t := p')) u) \<longleftrightarrow> u = t \<and> granted lid p'" for u
    using n [of u] granted_busy [of lid "f u"] by (cases "u = t") auto
  show ?thesis unfolding cli_ok_def token_def b g using a(1,4) by simp
qed

lemma fits_busy: "busy lid p \<Longrightarrow> fits lid st p \<Longrightarrow> st \<noteq> NONE \<and> st \<noteq> CFREE"
  by (auto simp: busy_def fits_def)

lemma token_busy:
  assumes "cli_ok lid st f" "busy lid (f t)"
  shows "token lid st f \<longleftrightarrow> granted lid (f t)"
proof -
  have "st \<noteq> CFREE" using assms fits_busy by (auto simp: cli_ok_def)
  moreover have "u = t" if "granted lid (f u)" for u
    using assms granted_busy [OF that] by (simp add: cli_ok_def)
  ultimately show ?thesis unfolding token_def by blast
qed

lemma token_idle:
  assumes "cli_ok lid st f" "st = NONE \<or> st = CFREE"
  shows "token lid st f \<longleftrightarrow> st = CFREE"
proof -
  have "\<not> granted lid (f u)" for u
    using assms granted_busy [of lid "f u"] fits_busy [of lid "f u" st] by (auto simp: cli_ok_def)
  then show ?thesis by (simp add: token_def)
qed

lemma cli_ok_other:
  assumes "cli_ok lid st f" "\<not> busy lid (f t)" "\<not> busy lid p'" "st' = st \<or> st = CLOCKED \<and> st' = RELEASING"
  shows "cli_ok lid st' (f(t := p')) \<and> (token lid st' (f(t := p')) \<longleftrightarrow> token lid st f)"
proof -
  have "granted lid ((f(t := p')) u) \<longleftrightarrow> granted lid (f u)" "busy lid ((f(t := p')) u) \<longleftrightarrow> busy lid (f u)" for u
    using assms(2,3) granted_busy [of lid p'] granted_busy [of lid "f t"] by auto
  with assms(1,2,4) show ?thesis
    unfolding cli_ok_def token_def by (auto simp: fits_def)
qed

text \<open>A step of thread \<open>t\<close> of client \<open>c\<close> on lock \<open>lid\<close> keeps the invariant if it does so for that
  client and that lock.\<close>

lemma linv_move:
  assumes "linv s" "locks_ok srv" "\<forall>l. l \<noteq> lid \<longrightarrow> cc_state (ccl_at m l) = st_at s c l"
    and "\<forall>l. l \<noteq> lid \<longrightarrow> \<not> busy l (y_pc s c t) \<and> \<not> busy l p"
    and "\<forall>l. l \<noteq> lid \<longrightarrow> sc_holder srv l = sc_holder (y_srv s) l"
    and "\<forall>c'. c' \<noteq> c \<longrightarrow> (sc_holder srv lid = Some c' \<longleftrightarrow> sc_holder (y_srv s) lid = Some c')"
    and "cli_ok lid (cc_state (ccl_at m lid)) ((y_pc s c)(t := p))"
    and "token lid (cc_state (ccl_at m lid)) ((y_pc s c)(t := p)) \<longleftrightarrow> sc_holder srv lid = Some c"
  shows "linv (goto (set_cli (s\<lparr>y_srv := srv\<rparr>) c m) c t p)"
proof -
  let ?s = "goto (set_cli (s\<lparr>y_srv := srv\<rparr>) c m) c t p"
  have f: "y_srv ?s = srv" "y_cli ?s = (y_cli s)(c := m)" "y_pc ?s = (y_pc s)(c := (y_pc s c)(t := p))"
    by (simp_all add: goto_def set_cli_def)
  have "cli_ok l (st_at ?s c' l) (y_pc ?s c') \<and>
      (token l (st_at ?s c' l) (y_pc ?s c') \<longleftrightarrow> sc_holder srv l = Some c')" for c' l
  proof (cases "c' = c")
    case False
    then have "st_at ?s c' l = st_at s c' l" "y_pc ?s c' = y_pc s c'" by (simp_all add: f)
    moreover have "sc_holder srv l = Some c' \<longleftrightarrow> sc_holder (y_srv s) l = Some c'"
      using assms(5,6) False by (cases "l = lid") auto
    ultimately show ?thesis using assms(1) unfolding linv_def by metis
  next
    case c: True
    show ?thesis
    proof (cases "l = lid")
      case True
      with c assms(7,8) show ?thesis by (simp add: f)
    next
      case False
      have ok: "cli_ok l (st_at s c l) (y_pc s c)"
        "token l (st_at s c l) (y_pc s c) \<longleftrightarrow> sc_holder (y_srv s) l = Some c"
        using assms(1) unfolding linv_def by metis+
      from cli_ok_other [OF ok(1), of t p "st_at s c l"] assms(3-5) False ok(2) c show ?thesis
        by (simp add: f)
    qed
  qed
  then show ?thesis using assms(2) by (simp add: linv_def f(1))
qed

lemma busy_simps [simp]:
  "\<not> busy l Idle" "\<not> busy l (AcqLoop k)" "busy l (AcqCall k) \<longleftrightarrow> k = l" "busy l (AcqRet k r) \<longleftrightarrow> k = l"
  "busy l (AcqWait k) \<longleftrightarrow> k = l" "busy l (Crit k) \<longleftrightarrow> k = l" "busy l (RelFlush k) \<longleftrightarrow> k = l"
  "busy l (RelCall k) \<longleftrightarrow> k = l" "busy l (RelRet k) \<longleftrightarrow> k = l" "busy l (RevFlush k) \<longleftrightarrow> k = l"
  "busy l (RevCall k) \<longleftrightarrow> k = l" "busy l (RevRet k) \<longleftrightarrow> k = l"
  by (auto simp: busy_def)

lemma ccl_at_upd [simp]: "ccl_at (m(lid \<mapsto> l)) k = (if k = lid then l else ccl_at m k)"
  by (simp add: ccl_at_def)

lemma linv_at:
  assumes "linv s"
  shows "cli_ok lid (st_at s c lid) (y_pc s c)"
    "token lid (st_at s c lid) (y_pc s c) \<longleftrightarrow> sc_holder (y_srv s) lid = Some c" "locks_ok (y_srv s)"
  using assms unfolding linv_def by metis+

text \<open>A step that does not involve the server.\<close>

lemma linv_client_move:
  assumes "linv s" "\<forall>l. l \<noteq> lid \<longrightarrow> cc_state (ccl_at m l) = st_at s c l"
    and "\<forall>l. l \<noteq> lid \<longrightarrow> \<not> busy l (y_pc s c t) \<and> \<not> busy l p"
    and "cli_ok lid (cc_state (ccl_at m lid)) ((y_pc s c)(t := p)) \<and>
      (token lid (cc_state (ccl_at m lid)) ((y_pc s c)(t := p)) \<longleftrightarrow> token lid (st_at s c lid) (y_pc s c))"
  shows "linv (goto (set_cli s c m) c t p)"
proof -
  have "linv (goto (set_cli (s\<lparr>y_srv := y_srv s\<rparr>) c m) c t p)"
    using assms linv_at [OF assms(1)] by (intro linv_move [where lid = lid]) simp_all
  then show ?thesis by simp
qed

text \<open>A thread that is busy with the lock moves on, or starts to be, or stops.\<close>

lemma linv_busy_move:
  assumes "linv s" "\<forall>l. l \<noteq> lid \<longrightarrow> cc_state (ccl_at m l) = st_at s c l"
    and "\<forall>l. l \<noteq> lid \<longrightarrow> \<not> busy l (y_pc s c t) \<and> \<not> busy l p"
    and "busy lid (y_pc s c t) \<or> st_at s c lid = NONE \<or> st_at s c lid = CFREE"
    and "cc_state (ccl_at m lid) \<noteq> NONE \<and> cc_state (ccl_at m lid) \<noteq> CFREE \<longleftrightarrow> busy lid p"
    and "fits lid (cc_state (ccl_at m lid)) p"
    and "cc_state (ccl_at m lid) = CFREE \<or> granted lid p \<longleftrightarrow>
      (if busy lid (y_pc s c t) then granted lid (y_pc s c t) else st_at s c lid = CFREE)"
  shows "linv (goto (set_cli s c m) c t p)"
proof (rule linv_client_move [OF assms(1-3)])
  note ok = linv_at(1) [OF assms(1), of lid c]
  have "token lid (st_at s c lid) (y_pc s c) \<longleftrightarrow>
      (if busy lid (y_pc s c t) then granted lid (y_pc s c t) else st_at s c lid = CFREE)"
    using token_busy [OF ok, of t] token_idle [OF ok] assms(4) by auto
  with cli_ok_upd [OF assms(5) ok assms(4,6)] assms(7)
  show "cli_ok lid (cc_state (ccl_at m lid)) ((y_pc s c)(t := p)) \<and>
      (token lid (cc_state (ccl_at m lid)) ((y_pc s c)(t := p)) \<longleftrightarrow> token lid (st_at s c lid) (y_pc s c))"
    by simp
qed

text \<open>A thread that is not busy with the lock leaves the state of the lock alone, or marks a lock
  that is held as to be given back.\<close>

lemma linv_idle_move:
  assumes "linv s" "\<forall>l. l \<noteq> lid \<longrightarrow> cc_state (ccl_at m l) = st_at s c l"
    and "\<forall>l. \<not> busy l (y_pc s c t) \<and> \<not> busy l p"
    and "cc_state (ccl_at m lid) = st_at s c lid \<or> st_at s c lid = CLOCKED \<and> cc_state (ccl_at m lid) = RELEASING"
  shows "linv (goto (set_cli s c m) c t p)"
  using assms linv_at(1) [OF assms(1), of lid c]
  by (intro linv_client_move [where lid = lid]) (simp_all add: cli_ok_other)

lemma set_cli_same [simp]: "set_cli s c (y_cli s c) = s"
  by (simp add: set_cli_def)

text \<open>A thread goes on without touching any lock.\<close>

lemma linv_goto:
  assumes "linv s" "\<forall>l. busy l p \<longleftrightarrow> busy l (y_pc s c t)" "\<forall>l. granted l p \<longleftrightarrow> granted l (y_pc s c t)"
    and "\<forall>l st. fits l st (y_pc s c t) \<longrightarrow> fits l st p"
  shows "linv (goto s c t p)"
proof -
  have b: "busy l (((y_pc s c)(t := p)) u) \<longleftrightarrow> busy l (y_pc s c u)"
    "granted l (((y_pc s c)(t := p)) u) \<longleftrightarrow> granted l (y_pc s c u)"
    "fits l st (y_pc s c u) \<longrightarrow> fits l st (((y_pc s c)(t := p)) u)" for l u st
    using assms by simp_all
  have "cli_ok l st ((y_pc s c)(t := p))" if "cli_ok l st (y_pc s c)" for l st
    using that b(3) unfolding cli_ok_def b(1) by blast
  moreover have "token l st ((y_pc s c)(t := p)) \<longleftrightarrow> token l st (y_pc s c)" for l st
    unfolding token_def b(2) ..
  ultimately show ?thesis using assms(1) by (simp add: linv_def goto_def)
qed

section \<open>Every step keeps the invariant\<close>

lemma linv_init: "linv lsys_init"
  by (simp add: linv_def lsys_init_def cli_ok_def token_def ccl_at_def client_lock_new_def
      sc_holder_def lock_at_def free_lock_def abs_holder_def)

lemma linv_acquire_loop:
  assumes "linv s" "y_pc s c t = AcqLoop lid" "acq_switch (of_nat t) (ccl_at (y_cli s c) lid) = (n, l)"
  shows "linv (goto (set_cli s c ((y_cli s c)(lid \<mapsto> l))) c t (acq_goto lid n))"
proof (cases "st_at s c lid = NONE \<or> st_at s c lid = CFREE")
  case True
  then show ?thesis using assms
    by (intro linv_busy_move [where lid = lid]) (auto simp: acq_switch_def acq_goto_def fits_def)
next
  case False
  then show ?thesis using assms
    by (intro linv_idle_move [where lid = lid]) (auto simp: acq_switch_def acq_goto_def split: cstate.splits)
qed

lemma linv_fits:
  assumes "linv s" "busy lid (y_pc s c t)"
  shows "fits lid (st_at s c lid) (y_pc s c t)"
  using linv_at(1) [OF assms(1), of lid c] assms(2) unfolding cli_ok_def by blast

lemma linv_acquire_answer:
  assumes "linv s" "y_pc s c t = AcqRet lid ret" "acq_answer (of_nat t) ret (ccl_at (y_cli s c) lid) = (got, l)"
  shows "linv (goto (set_cli s c ((y_cli s c)(lid \<mapsto> l))) c t (if got then Crit lid else AcqWait lid))"
  using assms linv_fits [OF assms(1), of lid c t]
  by (intro linv_busy_move [where lid = lid]) (auto simp: acq_answer_def fits_def split: if_splits)

lemma linv_acquire_retry:
  assumes "linv s" "y_pc s c t = AcqWait lid" "acq_retry (ccl_at (y_cli s c) lid) = (again, l)"
  shows "linv (goto (set_cli s c ((y_cli s c)(lid \<mapsto> l))) c t (if again then AcqCall lid else AcqWait lid))"
  using assms linv_fits [OF assms(1), of lid c t]
  by (intro linv_busy_move [where lid = lid]) (auto simp: acq_retry_def fits_def split: if_splits)

lemma linv_begin_release:
  assumes "linv s" "y_pc s c t = Crit lid" "rel_begin (y_cli s c) lid = Some (flag, m)"
  shows "linv (goto (set_cli s c m) c t (if flag then RelFlush lid else Idle))"
  using assms linv_fits [OF assms(1), of lid c t]
  by (intro linv_busy_move [where lid = lid])
    (auto simp: rel_begin_def rel_switch_def fits_def ccl_at_def split: option.splits prod.splits if_splits cstate.splits)

lemma linv_rel_end:
  assumes "linv s" "y_pc s c t = RelRet lid \<or> y_pc s c t = RevRet lid"
  shows "linv (goto (set_cli s c ((y_cli s c)(lid \<mapsto> rel_end (ccl_at (y_cli s c) lid)))) c t Idle)"
  using assms linv_fits [OF assms(1), of lid c t]
  by (intro linv_busy_move [where lid = lid]) (auto simp: rel_end_def fits_def)

lemma linv_revoke:
  assumes "linv s" "y_pc s c t = Idle" "revoke_handler (y_cli s c) lid = Some (flag, m)"
  shows "linv (goto (set_cli s c m) c t (if flag then RevFlush lid else Idle))"
proof (cases "st_at s c lid = CFREE")
  case True
  then show ?thesis using assms
    by (intro linv_busy_move [where lid = lid])
      (auto simp: revoke_handler_def revoke_switch_def fits_def ccl_at_def split: option.splits)
next
  case False
  then show ?thesis using assms
    by (intro linv_idle_move [where lid = lid])
      (auto simp: revoke_handler_def revoke_switch_def ccl_at_def split: option.splits prod.splits cstate.splits)
qed

lemma linv_retry:
  assumes "linv s" "y_pc s c t = Idle"
  shows "linv (goto (set_cli s c (retry_handler (y_cli s c) lid)) c t Idle)"
  using assms by (intro linv_idle_move [where lid = lid]) (auto simp: retry_handler_def ccl_at_def split: option.splits)

lemma linv_server_acquire:
  assumes "linv s" "y_pc s c t = AcqCall lid" "lsc_acquire (y_srv s) lid c = (ret, rv, srv)"
  shows "linv (goto (s\<lparr>y_srv := srv\<rparr>) c t (AcqRet lid ret))"
proof -
  note ok = linv_at [OF assms(1)]
  have tr: "sc_try (y_srv s) lid c = (ret = OK, srv)" using assms(3) by (simp add: sc_try_def)
  have h: "sc_holder srv = (if ret = OK then (sc_holder (y_srv s))(lid \<mapsto> c) else sc_holder (y_srv s))"
    "ret = OK \<longrightarrow> sc_holder (y_srv s) lid = None"
    using caching.acq_granted [OF ok(3), of lid c srv] caching.acq_refused [OF ok(3), of lid c srv] tr by auto
  have b: "busy lid (y_pc s c t)" "\<not> granted lid (y_pc s c t)" using assms(2) by simp_all
  have f: "fits lid (st_at s c lid) (AcqRet lid ret)" "st_at s c lid = ACQUIRING"
    using linv_fits [OF assms(1) b(1)] assms(2) by (simp_all add: fits_def)
  have u: "cli_ok lid (st_at s c lid) ((y_pc s c)(t := AcqRet lid ret)) \<and>
      (token lid (st_at s c lid) ((y_pc s c)(t := AcqRet lid ret)) \<longleftrightarrow> ret = OK)"
    using cli_ok_upd [OF _ ok(1) _ f(1), where t = t] b(1) f(2) by simp
  have n: "sc_holder (y_srv s) lid \<noteq> Some c" using token_busy [OF ok(1) b(1)] b(2) ok(2) by simp
  have "linv (goto (set_cli (s\<lparr>y_srv := srv\<rparr>) c (y_cli s c)) c t (AcqRet lid ret))"
    by (rule linv_move [OF assms(1) lsc_acquire_ok(1) [OF ok(3) assms(3)], of lid])
      (use u n h assms(2) in auto)
  then show ?thesis by (simp add: set_cli_def)
qed

lemma linv_server_release:
  assumes "linv s" "granted lid (y_pc s c t)" "busy lid p" "\<not> granted lid p"
    and "lsc_release (y_srv s) lid c = Inr (ret, rt, srv)" "fits lid (st_at s c lid) p"
    and "\<forall>l. l \<noteq> lid \<longrightarrow> \<not> busy l (y_pc s c t) \<and> \<not> busy l p"
  shows "linv (goto (s\<lparr>y_srv := srv\<rparr>) c t p)"
proof -
  note ok = linv_at [OF assms(1)]
  note b = granted_busy [OF assms(2)]
  have r: "srv = sc_release (y_srv s) lid c" using assms(5) by (simp add: sc_release_def)
  have h: "sc_holder srv = (sc_holder (y_srv s))(lid := None)" "locks_ok srv"
    unfolding r using caching.rel_frees [OF ok(3)] caching.rel_inv [OF ok(3)] by auto
  have old: "sc_holder (y_srv s) lid = Some c" using token_busy [OF ok(1) b] assms(2) ok(2) by simp
  have st: "st_at s c lid \<noteq> NONE \<and> st_at s c lid \<noteq> CFREE" using fits_busy [OF assms(3,6)] .
  have u: "cli_ok lid (st_at s c lid) ((y_pc s c)(t := p)) \<and> \<not> token lid (st_at s c lid) ((y_pc s c)(t := p))"
    using cli_ok_upd [OF _ ok(1) _ assms(6), where t = t] b assms(3,4) st by simp
  have "linv (goto (set_cli (s\<lparr>y_srv := srv\<rparr>) c (y_cli s c)) c t p)"
    by (rule linv_move [OF assms(1) h(2), of lid]) (use u h(1) old assms(7) in auto)
  then show ?thesis by (simp add: set_cli_def)
qed

lemma linv_step: "lstep s s' \<Longrightarrow> linv s \<Longrightarrow> linv s'"
proof (induction rule: lstep.induct)
  case (begin_acquire s c t lid)
  then show ?case by (intro linv_goto) (simp_all add: fits_def)
next
  case (release_flush s c t lid)
  then show ?case by (intro linv_goto) (simp_all add: fits_def)
next
  case (revoke_flush s c t lid)
  then show ?case by (intro linv_goto) (simp_all add: fits_def)
next
  case (release_server s c t lid ret rt srv)
  then show ?case using linv_fits [of s lid c t]
    by (intro linv_server_release [of _ lid]) (simp_all add: fits_def)
next
  case (revoke_server s c t lid ret rt srv)
  then show ?case using linv_fits [of s lid c t]
    by (intro linv_server_release [of _ lid]) (simp_all add: fits_def)
qed (blast intro: linv_acquire_loop linv_server_acquire linv_acquire_answer linv_acquire_retry
    linv_begin_release linv_rel_end linv_revoke linv_retry)+

lemma linv_reachable: "lreachable s \<Longrightarrow> linv s"
  unfolding lreachable_def by (induction rule: rtranclp_induct) (auto intro: linv_init linv_step)

text \<open>The client the server holds responsible is the one whose thread was granted the lock.\<close>

lemma granted_holder:
  assumes "linv s" "granted lid (y_pc s c t)"
  shows "sc_holder (y_srv s) lid = Some c" "st_at s c lid \<noteq> CFREE"
proof -
  note ok = linv_at [OF assms(1)]
  note b = granted_busy [OF assms(2)]
  show "sc_holder (y_srv s) lid = Some c" using token_busy [OF ok(1) b] assms(2) ok(2) by simp
  show "st_at s c lid \<noteq> CFREE" using fits_busy [OF b linv_fits [OF assms(1) b]] by simp
qed

lemma cached_holder: "linv s \<Longrightarrow> st_at s c lid = CFREE \<Longrightarrow> sc_holder (y_srv s) lid = Some c"
  using linv_at(2) [of s lid c] by (simp add: token_def)

lemma goto_simps [simp]:
  "y_srv (goto s c t p) = y_srv s" "y_cli (goto s c t p) = y_cli s"
  "y_pc (goto s c t p) c' t' = (if c' = c \<and> t' = t then p else y_pc s c' t')"
  "y_srv (set_cli s c m) = y_srv s" "y_cli (set_cli s c m) = (y_cli s)(c := m)" "y_pc (set_cli s c m) = y_pc s"
  by (simp_all add: goto_def set_cli_def)

text \<open>One thread of client \<open>a\<close> takes a lock.\<close>

lemma crit_path_for:
  "\<exists>s2 s3 s4. lstep lsys_init (goto lsys_init ''a'' 0 (AcqLoop lid)) \<and> lstep (goto lsys_init ''a'' 0 (AcqLoop lid)) s2 \<and>
    lstep s2 s3 \<and> lstep s3 s4 \<and> y_pc s2 = y_pc (goto lsys_init ''a'' 0 (AcqCall lid)) \<and>
    y_pc s3 = y_pc (goto lsys_init ''a'' 0 (AcqRet lid OK)) \<and> y_pc s4 = y_pc (goto lsys_init ''a'' 0 (Crit lid))"
proof -
  let ?l1 = "client_lock_new\<lparr>cc_state := ACQUIRING\<rparr>"
  let ?l2 = "?l1\<lparr>cc_state := CLOCKED, cc_owner := 0\<rparr>"
  let ?s1 = "goto lsys_init ''a'' 0 (AcqLoop lid)"
  let ?s2 = "goto (set_cli ?s1 ''a'' [lid \<mapsto> ?l1]) ''a'' 0 (AcqCall lid)"
  let ?s3 = "goto (?s2\<lparr>y_srv := [lid \<mapsto> \<lparr>lk_client = ''a'', lk_state = LOCKED, lk_queue = []\<rparr>]\<rparr>) ''a'' 0 (AcqRet lid OK)"
  let ?s4 = "goto (set_cli ?s3 ''a'' [lid \<mapsto> ?l2]) ''a'' 0 (Crit lid)"
  have "lstep lsys_init ?s1" by (rule begin_acquire) (simp add: lsys_init_def)
  moreover have "lstep ?s1 ?s2"
    using acquire_loop [of ?s1 "''a''" 0 lid CallServer ?l1]
    by (simp add: lsys_init_def acq_switch_def acq_goto_def ccl_at_def client_lock_new_def)
  moreover have "lstep ?s2 ?s3"
    by (rule server_acquire [of _ _ _ _ _ None])
      (simp_all add: lsys_init_def lsc_acquire_def acquire_lock_def lock_at_def free_lock_def)
  moreover have "lstep ?s3 ?s4"
    using acquire_answer [of ?s3 "''a''" 0 lid OK True ?l2] by (simp add: acq_answer_def ccl_at_def)
  moreover have "y_pc ?s2 = y_pc (goto lsys_init ''a'' 0 (AcqCall lid))" "y_pc ?s3 = y_pc (goto lsys_init ''a'' 0 (AcqRet lid OK))"
    "y_pc ?s4 = y_pc (goto lsys_init ''a'' 0 (Crit lid))" by (simp_all add: goto_def set_cli_def)
  ultimately show ?thesis by blast
qed

lemma crit_path:
  "\<exists>s1 s2 s3 s4. lstep lsys_init s1 \<and> lstep s1 s2 \<and> lstep s2 s3 \<and> lstep s3 s4 \<and> y_pc s4 ''a'' 0 = Crit 7 \<and>
    (\<forall>s \<in> {lsys_init, s1, s2, s3}. \<forall>c t. y_pc s c t \<in> {Idle, AcqLoop 7, AcqCall 7, AcqRet 7 OK})"
proof -
  from crit_path_for [of 7] obtain s2 s3 s4 where "lstep lsys_init (goto lsys_init ''a'' 0 (AcqLoop 7))"
    "lstep (goto lsys_init ''a'' 0 (AcqLoop 7)) s2" "lstep s2 s3" "lstep s3 s4" "y_pc s2 = y_pc (goto lsys_init ''a'' 0 (AcqCall 7))"
    "y_pc s3 = y_pc (goto lsys_init ''a'' 0 (AcqRet 7 OK))" "y_pc s4 = y_pc (goto lsys_init ''a'' 0 (Crit 7))" by blast
  then show ?thesis
    by (intro exI [of _ "goto lsys_init ''a'' 0 (AcqLoop 7)"] exI [of _ s2] exI [of _ s3] exI [of _ s4]) (simp add: lsys_init_def goto_def)
qed

lemma crit_reachable: "\<exists>s. lreachable s \<and> y_pc s ''a'' 0 = Crit 7"
  using crit_path unfolding lreachable_def
  by (elim exE conjE) (intro exI conjI, erule (3) converse_rtranclp_into_rtranclp [OF _ converse_rtranclp_into_rtranclp
    [OF _ converse_rtranclp_into_rtranclp [OF _ r_into_rtranclp]]], assumption)

text \<open>A thread in its critical section can always give the lock back, on its own.\<close>

lemma release_server_path:
  assumes "linv s" "y_pc s c t = RelFlush lid"
  shows "\<exists>s'. lstep\<^sup>*\<^sup>* s s' \<and> y_pc s' c t = Idle \<and> st_at s' c lid = NONE \<and> sc_holder (y_srv s') lid = None"
proof -
  let ?s1 = "goto s c t (RelCall lid)"
  have s1: "lstep s ?s1" using assms(2) by (rule release_flush)
  from lsc_release_ok [OF linv_at(3) [OF assms(1)], of lid c] obtain rt srv where
    r: "lsc_release (y_srv s) lid c = Inr (OK, rt, srv)" by blast
  let ?s2 = "goto (?s1\<lparr>y_srv := srv\<rparr>) c t (RelRet lid)"
  have s2: "lstep ?s1 ?s2" by (rule release_server) (use r in simp_all)
  let ?s3 = "goto (set_cli ?s2 c ((y_cli ?s2 c)(lid \<mapsto> rel_end (ccl_at (y_cli ?s2 c) lid)))) c t Idle"
  have s3: "lstep ?s2 ?s3" by (rule release_end) simp
  have "sc_holder srv = (sc_holder (y_srv s))(lid := None)"
    using caching.rel_frees [OF linv_at(3) [OF assms(1)], of lid c] r by (simp add: sc_release_def)
  with s1 s2 s3 show ?thesis
    by (intro exI [of _ ?s3] conjI) (meson converse_rtranclp_into_rtranclp rtranclp.rtrancl_refl, simp_all add: rel_end_def)
qed

lemma release_path:
  assumes "linv s" "y_pc s c t = Crit lid"
  shows "\<exists>s'. lstep\<^sup>*\<^sup>* s s' \<and> y_pc s' c t = Idle \<and>
    (st_at s' c lid = CFREE \<and> sc_holder (y_srv s') lid = Some c \<or>
     st_at s' c lid = NONE \<and> sc_holder (y_srv s') lid = None)"
proof -
  have f: "st_at s c lid = CLOCKED \<or> st_at s c lid = RELEASING"
    using linv_fits [OF assms(1), of lid c t] assms(2) by (simp add: fits_def)
  then obtain l where l: "y_cli s c lid = Some l" by (auto simp: ccl_at_def client_lock_new_def split: option.splits)
  obtain flag l' where r: "rel_switch l = (flag, l')" by (cases "rel_switch l")
  let ?m = "(y_cli s c)(lid \<mapsto> l')"
  let ?s1 = "goto (set_cli s c ?m) c t (if flag then RelFlush lid else Idle)"
  have b: "rel_begin (y_cli s c) lid = Some (flag, ?m)" by (simp add: rel_begin_def l r)
  have st: "lstep s ?s1" using begin_release [OF assms(2) b] .
  note i = linv_begin_release [OF assms b]
  show ?thesis
  proof (cases flag)
    case True
    from release_server_path [OF i, of c t lid] True st show ?thesis
      by (auto intro: converse_rtranclp_into_rtranclp)
  next
    case False
    then have "st_at ?s1 c lid = CFREE" using f l r by (auto simp: rel_switch_def ccl_at_def split: if_splits)
    with cached_holder [OF i, of c lid] False st show ?thesis by (intro exI [of _ ?s1]) simp
  qed
qed

section \<open>Properties\<close>

text \<open>(C2) Mutual exclusion across the lock service. In every state the server, the clients and their
  threads can reach, whatever revoke and retry messages arrive and in whatever order, a lock is
  with one thread of one client: whoever is between being granted the lock and the server
  learning that it is back (in the critical section, flushing, or calling release) is the only
  such thread anywhere, no client caches the lock as free meanwhile, and the server has exactly
  that client on record.\<close>

theorem mutual_exclusion:
  assumes "lreachable s" "granted lid (y_pc s c t)"
  shows "sc_holder (y_srv s) lid = Some c \<and> cc_state (ccl_at (y_cli s c') lid) \<noteq> CFREE \<and>
    (granted lid (y_pc s c' t') \<longrightarrow> c' = c \<and> t' = t)"
proof (intro conjI impI)
  note i = linv_reachable [OF assms(1)]
  note h = granted_holder [OF i assms(2)]
  show "sc_holder (y_srv s) lid = Some c" by (rule h)
  show "cc_state (ccl_at (y_cli s c') lid) \<noteq> CFREE" using cached_holder [OF i, of c' lid] h by auto
  assume g: "granted lid (y_pc s c' t')"
  show c: "c' = c" using granted_holder(1) [OF i g] h by simp
  from linv_at(1) [OF i, of lid c] granted_busy [OF assms(2)] granted_busy [OF g] show "t' = t"
    unfolding cli_ok_def c by blast
qed

theorem mutual_exclusion_witness:
  "\<exists>s. lreachable s \<and> {(c, t). granted 7 (y_pc s c t)} = {(''a'', 0)} \<and> sc_holder (y_srv s) 7 = Some ''a''"
proof -
  from crit_reachable obtain s where s: "lreachable s" "y_pc s ''a'' 0 = Crit 7" by blast
  then have g: "granted 7 (y_pc s ''a'' 0)" by simp
  note m = mutual_exclusion [OF s(1) g]
  have "granted 7 (y_pc s c t) \<longleftrightarrow> (c, t) = (''a'', 0)" for c t
    using m [THEN conjunct2, THEN conjunct2, rule_format, of c t] g by auto
  then have "{(c, t). granted 7 (y_pc s c t)} = {(''a'', 0)}" by (simp only: prod.case_eq_if) simp
  with s(1) m show ?thesis by (intro exI [of _ s]) simp
qed

text \<open>(C28) A thread in its critical section can always complete its release without any other thread
  moving: the server never faults on it, and at the end the lock is either cached at the client as
  free with the server still holding the client responsible, or gone from the client and free at
  the server.\<close>

theorem release_completes:
  assumes "lreachable s" "y_pc s c t = Crit lid"
  shows "\<exists>s'. lstep\<^sup>*\<^sup>* s s' \<and> y_pc s' c t = Idle \<and>
    (cc_state (ccl_at (y_cli s' c) lid) = CFREE \<and> sc_holder (y_srv s') lid = Some c \<or>
     cc_state (ccl_at (y_cli s' c) lid) = NONE \<and> sc_holder (y_srv s') lid = None)"
  using release_path [OF linv_reachable [OF assms(1)] assms(2)] .

theorem release_completes_witness:
  "\<exists>s s'. lreachable s \<and> y_pc s ''a'' 0 = Crit 7 \<and> lstep\<^sup>*\<^sup>* s s' \<and> y_pc s' ''a'' 0 = Idle"
proof -
  from crit_reachable obtain s where s: "lreachable s" "y_pc s ''a'' 0 = Crit 7" by blast
  from release_completes [OF s] obtain s' where "lstep\<^sup>*\<^sup>* s s'" "y_pc s' ''a'' 0 = Idle" by (elim exE conjE)
  with s show ?thesis by (intro exI conjI)
qed

end
