(* ===== verification/Extent_Server.thy ===== *)
theory Extent_Server
  imports Prelude
begin

text \<open>
  The extent server of \<^verbatim>\<open>extent_protocol.h\<close>, \<^verbatim>\<open>extent_server.h\<close> and \<^verbatim>\<open>extent_server.cc\<close>: a map from
  extent identifiers to contents and attributes. The clock is an argument of the operations that
  read it. An output parameter of the code is an argument and a result.

  The locale \<open>extent_store\<close> states what a file system may expect of a store of extents; it is
  interpreted here on the server and in \<open>Extent_Client\<close> on the client with its cache.
\<close>

section \<open>The protocol\<close>

type_synonym extentid = u64

abbreviation (input) xOK :: int where "xOK \<equiv> 0"
abbreviation (input) xRPCERR :: int where "xRPCERR \<equiv> 1"
abbreviation (input) xNOENT :: int where "xNOENT \<equiv> 2"
abbreviation (input) xIOERR :: int where "xIOERR \<equiv> 3"

record attr =
  atime :: u32
  mtime :: u32
  ctime :: u32
  asize :: u32

section \<open>State and operations\<close>

record extent =
  e_name :: "byte list"
  e_attribute :: attr

type_synonym exts = "extentid \<rightharpoonup> extent"

definition xs_put :: "u32 \<Rightarrow> exts \<Rightarrow> extentid \<Rightarrow> byte list \<Rightarrow> int \<times> exts" where
  "xs_put now s i buf =
     (let a = \<lparr>atime = (case s i of None \<Rightarrow> now | Some e \<Rightarrow> atime (e_attribute e)),
               mtime = now, ctime = now, asize = of_nat (length buf)\<rparr>
      in (xOK, s(i \<mapsto> \<lparr>e_name = buf, e_attribute = a\<rparr>)))"

definition xs_get :: "u32 \<Rightarrow> exts \<Rightarrow> extentid \<Rightarrow> byte list \<Rightarrow> int \<times> byte list \<times> exts" where
  "xs_get now s i buf =
     (case s i of
        None \<Rightarrow> (xNOENT, buf, s)
      | Some e \<Rightarrow> (xOK, e_name e, s(i \<mapsto> e\<lparr>e_attribute := (e_attribute e)\<lparr>atime := now\<rparr>\<rparr>)))"

definition xs_getattr :: "exts \<Rightarrow> extentid \<Rightarrow> attr \<Rightarrow> int \<times> attr \<times> exts" where
  "xs_getattr s i a = (case s i of None \<Rightarrow> (xNOENT, a, s) | Some e \<Rightarrow> (xOK, e_attribute e, s))"

definition xs_remove :: "exts \<Rightarrow> extentid \<Rightarrow> int \<times> exts" where
  "xs_remove s i = (case s i of None \<Rightarrow> (xNOENT, s) | Some _ \<Rightarrow> (xOK, s(i := None)))"

text \<open>The server starts with the empty root directory.\<close>

definition extent_server_new :: "u32 \<Rightarrow> exts" where
  "extent_server_new now = snd (xs_put now Map.empty 1 [])"

section \<open>What the operations keep and change\<close>

definition xs_contents :: "exts \<Rightarrow> extentid \<rightharpoonup> byte list" where
  "xs_contents s i = map_option e_name (s i)"

text \<open>The recorded size is the size of the contents, as far as 32 bits hold it.\<close>

definition xs_ok :: "exts \<Rightarrow> bool" where
  "xs_ok s \<longleftrightarrow> (\<forall>i e. s i = Some e \<longrightarrow> asize (e_attribute e) = of_nat (length (e_name e)))"

section \<open>The contract of a store of extents\<close>

datatype store_op = SPut extentid "byte list" | SGet extentid | SRemove extentid | SFlush extentid

text \<open>The answers of a store to a sequence of operations: the status of each and, for a read, the
  contents. Writing back is asked for and not answered.\<close>

fun store_run ::
  "('s \<Rightarrow> extentid \<Rightarrow> byte list \<Rightarrow> int \<times> 's) \<Rightarrow> ('s \<Rightarrow> extentid \<Rightarrow> int \<times> byte list \<times> 's) \<Rightarrow>
   ('s \<Rightarrow> extentid \<Rightarrow> int \<times> 's) \<Rightarrow> ('s \<Rightarrow> extentid \<Rightarrow> 's) \<Rightarrow> 's \<Rightarrow> store_op list \<Rightarrow> (int \<times> byte list) list" where
  "store_run pt gt rm fl s [] = []"
| "store_run pt gt rm fl s (SPut i b # ops) = (case pt s i b of (r, s') \<Rightarrow> (r, []) # store_run pt gt rm fl s' ops)"
| "store_run pt gt rm fl s (SGet i # ops) = (case gt s i of (r, b, s') \<Rightarrow> (r, b) # store_run pt gt rm fl s' ops)"
| "store_run pt gt rm fl s (SRemove i # ops) = (case rm s i of (r, s') \<Rightarrow> (r, []) # store_run pt gt rm fl s' ops)"
| "store_run pt gt rm fl s (SFlush i # ops) = store_run pt gt rm fl (fl s i) ops"

text \<open>The same on a plain map, together with what makes a sequence of operations regular: it removes
  only extents that are there and that it has read or written, and it does not read an extent between
  removing it and writing it again or having it written back. \<open>K\<close> has the extents read or written, \<open>U\<close> the removals not
  written back.\<close>

fun map_run :: "(extentid \<rightharpoonup> byte list) \<Rightarrow> store_op list \<Rightarrow> (int \<times> byte list) list" where
  "map_run m [] = []"
| "map_run m (SPut i b # ops) = (xOK, []) # map_run (m(i \<mapsto> b)) ops"
| "map_run m (SGet i # ops) = (case m i of None \<Rightarrow> (xNOENT, []) | Some b \<Rightarrow> (xOK, b)) # map_run m ops"
| "map_run m (SRemove i # ops) = (xOK, []) # map_run (m(i := None)) ops"
| "map_run m (SFlush i # ops) = map_run m ops"

fun regular :: "(extentid \<rightharpoonup> byte list) \<Rightarrow> extentid set \<Rightarrow> extentid set \<Rightarrow> store_op list \<Rightarrow> bool" where
  "regular m K U [] = True"
| "regular m K U (SPut i b # ops) = regular (m(i \<mapsto> b)) (insert i K) (U - {i}) ops"
| "regular m K U (SGet i # ops) = (i \<notin> U \<and> regular m (if m i = None then K else insert i K) U ops)"
| "regular m K U (SRemove i # ops) = (m i \<noteq> None \<and> i \<in> K \<and> regular (m(i := None)) K (insert i U) ops)"
| "regular m K U (SFlush i # ops) = regular m K (U - {i}) ops"

locale extent_store =
  fixes contents :: "'s \<Rightarrow> extentid \<rightharpoonup> byte list"
    and pt :: "'s \<Rightarrow> extentid \<Rightarrow> byte list \<Rightarrow> int \<times> 's"
    and gt :: "'s \<Rightarrow> extentid \<Rightarrow> int \<times> byte list \<times> 's"
    and rm :: "'s \<Rightarrow> extentid \<Rightarrow> int \<times> 's"
    and fl :: "'s \<Rightarrow> extentid \<Rightarrow> 's"
    and known :: "'s \<Rightarrow> extentid set"
    and removed :: "'s \<Rightarrow> extentid set"
    and store_ok :: "'s \<Rightarrow> bool"
  assumes put_law: "store_ok s \<Longrightarrow> \<exists>s'. pt s i b = (xOK, s') \<and> store_ok s' \<and>
      contents s' = (contents s)(i \<mapsto> b) \<and> insert i (known s) \<subseteq> known s' \<and> removed s' \<subseteq> removed s - {i}"
    and get_law: "store_ok s \<Longrightarrow> contents s i = Some b \<Longrightarrow> \<exists>s'. gt s i = (xOK, b, s') \<and> store_ok s' \<and>
      contents s' = contents s \<and> insert i (known s) \<subseteq> known s' \<and> removed s' \<subseteq> removed s"
    and miss_law: "store_ok s \<Longrightarrow> contents s i = None \<Longrightarrow> i \<notin> removed s \<Longrightarrow> gt s i = (xNOENT, [], s)"
    and remove_law: "store_ok s \<Longrightarrow> contents s i = Some b \<Longrightarrow> i \<in> known s \<Longrightarrow> \<exists>s'. rm s i = (xOK, s') \<and>
      store_ok s' \<and> contents s' = (contents s)(i := None) \<and> known s - {i} \<subseteq> known s' \<and> removed s' \<subseteq> insert i (removed s)"
    and flush_law: "store_ok s \<Longrightarrow> store_ok (fl s i) \<and> contents (fl s i) = contents s \<and> known s \<subseteq> known (fl s i) \<and>
      removed (fl s i) \<subseteq> removed s - {i}"
begin

text \<open>On regular sequences every store answers as the map of its contents does.\<close>

lemma run_refines:
  assumes "store_ok s" "regular (contents s) K U ops" "K \<inter> dom (contents s) \<subseteq> known s" "removed s \<subseteq> U"
  shows "store_run pt gt rm fl s ops = map_run (contents s) ops"
  using assms
proof (induction ops arbitrary: s K U)
  case (Cons op ops)
  show ?case
  proof (cases op)
    case (SPut i b)
    from put_law [OF Cons.prems(1), of i b] obtain s' where s': "pt s i b = (xOK, s')" "store_ok s'"
      "contents s' = (contents s)(i \<mapsto> b)" "insert i (known s) \<subseteq> known s'" "removed s' \<subseteq> removed s - {i}" by blast
    have "store_run pt gt rm fl s' ops = map_run (contents s') ops"
    proof (rule Cons.IH [OF s'(2), of "insert i K" "U - {i}"])
      show "regular (contents s') (insert i K) (U - {i}) ops" using Cons.prems(2) unfolding s'(3) SPut by simp
      show "insert i K \<inter> dom (contents s') \<subseteq> known s'" using Cons.prems(3) s'(4) unfolding s'(3) by auto
    qed (use Cons.prems(4) s'(5) in auto)
    with s' SPut show ?thesis by simp
  next
    case (SGet i)
    show ?thesis
    proof (cases "contents s i")
      case None
      with miss_law [OF Cons.prems(1) None] Cons.prems(2,4) SGet have "gt s i = (xNOENT, [], s)" by auto
      with None SGet Cons.IH [OF Cons.prems(1) _ Cons.prems(3,4)] Cons.prems(2) show ?thesis by simp
    next
      case (Some b)
      from get_law [OF Cons.prems(1) Some] obtain s' where s': "gt s i = (xOK, b, s')" "store_ok s'"
        "contents s' = contents s" "insert i (known s) \<subseteq> known s'" "removed s' \<subseteq> removed s" by blast
      have "store_run pt gt rm fl s' ops = map_run (contents s') ops"
      proof (rule Cons.IH [OF s'(2), of "insert i K" U])
        show "regular (contents s') (insert i K) U ops" using Cons.prems(2) Some unfolding s'(3) SGet by simp
        show "insert i K \<inter> dom (contents s') \<subseteq> known s'" using Cons.prems(3) s'(4) unfolding s'(3) by auto
      qed (use Cons.prems(4) s'(5) in auto)
      with s' Some SGet show ?thesis by simp
    qed
  next
    case (SRemove i)
    with Cons.prems(2) obtain b where b: "contents s i = Some b" "i \<in> K" by auto
    then have "i \<in> known s" using Cons.prems(3) by auto
    from remove_law [OF Cons.prems(1) b(1) this] obtain s' where s': "rm s i = (xOK, s')" "store_ok s'"
      "contents s' = (contents s)(i := None)" "known s - {i} \<subseteq> known s'" "removed s' \<subseteq> insert i (removed s)" by blast
    have "store_run pt gt rm fl s' ops = map_run (contents s') ops"
    proof (rule Cons.IH [OF s'(2), of K "insert i U"])
      show "regular (contents s') K (insert i U) ops" using Cons.prems(2) unfolding s'(3) SRemove by simp
      show "K \<inter> dom (contents s') \<subseteq> known s'" using Cons.prems(3) s'(4) unfolding s'(3) by auto
    qed (use Cons.prems(4) s'(5) in auto)
    with s' b SRemove show ?thesis by simp
  next
    case (SFlush i)
    note f = flush_law [OF Cons.prems(1), of i]
    have "store_run pt gt rm fl (fl s i) ops = map_run (contents (fl s i)) ops"
    proof (rule Cons.IH [of _ K "U - {i}"])
      show "regular (contents (fl s i)) K (U - {i}) ops" using Cons.prems(2) f SFlush by simp
    qed (use Cons.prems(3,4) f in auto)
    with f SFlush show ?thesis by simp
  qed
qed simp

end

section \<open>The server keeps the contract\<close>

named_theorems xs_defs \<open>the operations of the extent server\<close>

declare xs_put_def [xs_defs] xs_get_def [xs_defs] xs_getattr_def [xs_defs] xs_remove_def [xs_defs]
  xs_contents_def [xs_defs]

lemma xs_ok_upd: "xs_ok s \<Longrightarrow> asize (e_attribute e) = of_nat (length (e_name e)) \<Longrightarrow> xs_ok (s(i \<mapsto> e))"
  by (simp add: xs_ok_def)

lemma xs_ok_del: "xs_ok s \<Longrightarrow> xs_ok (s(i := None))"
  by (simp add: xs_ok_def)

lemma xs_ok_at: "xs_ok s \<Longrightarrow> s i = Some e \<Longrightarrow> asize (e_attribute e) = of_nat (length (e_name e))"
  by (simp add: xs_ok_def)

lemma xs_put_ok: "xs_ok s \<Longrightarrow> xs_ok (snd (xs_put now s i b))"
  by (simp add: xs_put_def Let_def xs_ok_upd)

lemma xs_get_ok: "xs_ok s \<Longrightarrow> xs_ok (snd (snd (xs_get now s i b)))"
  by (auto simp: xs_get_def intro!: xs_ok_upd dest: xs_ok_at split: option.splits)

lemma xs_remove_ok: "xs_ok s \<Longrightarrow> xs_ok (snd (xs_remove s i))"
  by (auto simp: xs_remove_def xs_ok_del split: option.splits)

lemma xs_put_contents: "xs_contents (snd (xs_put now s i b)) = (xs_contents s)(i \<mapsto> b)"
  by (auto simp: xs_defs Let_def)

lemma xs_get_contents: "xs_contents (snd (snd (xs_get now s i b))) = xs_contents s"
  by (auto simp: xs_defs split: option.splits)

lemma xs_remove_contents: "xs_contents (snd (xs_remove s i)) = (xs_contents s)(i := None)"
  by (auto simp: xs_defs split: option.splits)

interpretation server: extent_store xs_contents "xs_put now" "\<lambda>s i. xs_get now s i []" xs_remove "\<lambda>s _. s" "\<lambda>s. dom s" "\<lambda>_. {}" xs_ok
proof
  fix s :: exts and i b assume s: "xs_ok s"
  show "\<exists>s'. xs_put now s i b = (xOK, s') \<and> xs_ok s' \<and> xs_contents s' = (xs_contents s)(i \<mapsto> b) \<and>
      insert i (dom s) \<subseteq> dom s' \<and> {} \<subseteq> {} - {i}"
    using xs_put_ok [OF s, of now i b] xs_put_contents [of now s i b] by (auto simp: xs_put_def Let_def)
  assume b: "xs_contents s i = Some b"
  then obtain e where e: "s i = Some e" "e_name e = b" by (auto simp: xs_contents_def)
  show "\<exists>s'. xs_get now s i [] = (xOK, b, s') \<and> xs_ok s' \<and> xs_contents s' = xs_contents s \<and>
      insert i (dom s) \<subseteq> dom s' \<and> {} \<subseteq> {}"
    using xs_get_ok [OF s, of now i "[]"] xs_get_contents [of now s i "[]"] e by (auto simp: xs_get_def)
  show "\<exists>s'. xs_remove s i = (xOK, s') \<and> xs_ok s' \<and> xs_contents s' = (xs_contents s)(i := None) \<and>
      dom s - {i} \<subseteq> dom s' \<and> {} \<subseteq> insert i {}"
    using xs_remove_ok [OF s, of i] xs_remove_contents [of s i] e by (auto simp: xs_remove_def)
qed (auto simp: xs_contents_def xs_get_def)

end
