(* ===== verification/Extent_Client.thy ===== *)
theory Extent_Client
  imports Extent_Server
begin

text \<open>
  The extent client of \<^verbatim>\<open>extent_client.h\<close> and \<^verbatim>\<open>extent_client.cc\<close>: a write-back cache in front of the
  extent server. A state holds the cache and the server's extents behind it. Every operation makes
  at most one call to the server; whether the call comes back, and what the two clocks say, is the
  environment \<open>xenv\<close> of the operation.
\<close>

section \<open>State\<close>

record xcache =
  xc_data :: "byte list"
  xc_dirty :: bool
  xc_valid :: bool
  xc_attr :: attr

record xstate =
  x_cache :: "extentid \<rightharpoonup> xcache"
  x_exts :: exts

text \<open>A call that fails returns a negative code and leaves its result alone; the server may have
  run it all the same.\<close>

datatype net = Delivered | Lost bool nat

record xenv =
  x_now :: u32
  x_srv_now :: u32
  x_net :: net

definition xcall :: "net \<Rightarrow> (exts \<Rightarrow> int \<times> 'r \<times> exts) \<Rightarrow> 'r \<Rightarrow> exts \<Rightarrow> int \<times> 'r \<times> exts" where
  "xcall n f r s =
     (case n of
        Delivered \<Rightarrow> f s
      | Lost did k \<Rightarrow> (- 1 - int k, r, if did then snd (snd (f s)) else s))"

definition zero_attr :: attr where
  "zero_attr = \<lparr>atime = 0, mtime = 0, ctime = 0, asize = 0\<rparr>"

text \<open>A fresh entry: the constructor's fields, and the attributes as every operation that creates an
  entry sets them.\<close>

definition xcache_new :: xcache where
  "xcache_new = \<lparr>xc_data = [], xc_dirty = False, xc_valid = False, xc_attr = zero_attr\<rparr>"

definition xc_at :: "xstate \<Rightarrow> extentid \<Rightarrow> xcache" where
  "xc_at s i = (case x_cache s i of None \<Rightarrow> xcache_new | Some c \<Rightarrow> c)"

definition set_entry :: "extentid \<Rightarrow> xcache \<Rightarrow> xstate \<Rightarrow> xstate" where
  "set_entry i c s = s\<lparr>x_cache := (x_cache s)(i \<mapsto> c)\<rparr>"

section \<open>Operations\<close>

definition xc_get :: "xenv \<Rightarrow> xstate \<Rightarrow> extentid \<Rightarrow> byte list \<Rightarrow> int \<times> byte list \<times> xstate" where
  "xc_get v s i buf =
     (let flag = (x_cache s i \<noteq> None); c = xc_at s i in
      if \<not> flag \<or> (\<not> xc_valid c \<and> \<not> xc_dirty c) then
        (case xcall (x_net v) (\<lambda>e. xs_get (x_srv_now v) e i []) buf (x_exts s) of
           (ret, b, e) \<Rightarrow>
             if ret = xOK then
               (ret, b, set_entry i
                  (c\<lparr>xc_data := b, xc_dirty := False, xc_valid := True,
                     xc_attr := (if flag then (xc_attr c)\<lparr>atime := x_now v\<rparr>
                       else \<lparr>atime = x_now v, mtime = 0, ctime = 0, asize = of_nat (length b)\<rparr>)\<rparr>)
                  (s\<lparr>x_exts := e\<rparr>))
             else (ret, b, s\<lparr>x_exts := e\<rparr>))
      else (xOK, xc_data c, s))"

definition xc_getattr :: "xenv \<Rightarrow> xstate \<Rightarrow> extentid \<Rightarrow> attr \<Rightarrow> int \<times> attr \<times> xstate" where
  "xc_getattr v s i at =
     (let c = xc_at s i; a = xc_attr c in
      if ctime a = 0 \<or> mtime a = 0 \<or> atime a = 0 then
        (case xcall (x_net v) (\<lambda>e. xs_getattr e i zero_attr) at (x_exts s) of
           (ret, temp, e) \<Rightarrow>
             if ret = xOK then
               let a' = \<lparr>atime = (if atime a = 0 then atime temp else atime a),
                         mtime = (if mtime a = 0 then mtime temp else mtime a),
                         ctime = (if ctime a = 0 then ctime temp else ctime a),
                         asize = (if xc_dirty c then asize a else asize temp)\<rparr>
               in (ret, a', set_entry i (c\<lparr>xc_attr := a'\<rparr>) (s\<lparr>x_exts := e\<rparr>))
             else (ret, at, set_entry i c (s\<lparr>x_exts := e\<rparr>)))
      else (xOK, a, set_entry i c s))"

definition xc_put :: "xenv \<Rightarrow> xstate \<Rightarrow> extentid \<Rightarrow> byte list \<Rightarrow> int \<times> xstate" where
  "xc_put v s i buf =
     (let a = \<lparr>atime = (case x_cache s i of None \<Rightarrow> x_now v | Some c \<Rightarrow> atime (xc_attr c)),
               mtime = x_now v, ctime = x_now v, asize = of_nat (length buf)\<rparr>
      in (xOK, set_entry i \<lparr>xc_data = buf, xc_dirty = True, xc_valid = True, xc_attr = a\<rparr> s))"

definition xc_remove :: "xstate \<Rightarrow> extentid \<Rightarrow> int \<times> xstate" where
  "xc_remove s i =
     (case x_cache s i of
        None \<Rightarrow> (xNOENT, set_entry i xcache_new s)
      | Some c \<Rightarrow> (xOK, set_entry i (c\<lparr>xc_valid := False, xc_dirty := True\<rparr>) s))"

definition xc_write_back :: "xenv \<Rightarrow> extentid \<Rightarrow> xcache \<Rightarrow> exts \<Rightarrow> int \<times> exts" where
  "xc_write_back v i c e =
     (if xc_dirty c then
        (case xcall (x_net v)
             (\<lambda>e. case (if xc_valid c then xs_put (x_srv_now v) e i (xc_data c) else xs_remove e i) of (r, e) \<Rightarrow> (r, (), e))
             () e of (ret, _, e) \<Rightarrow> (ret, e))
      else (xOK, e))"

definition xc_flush :: "xenv \<Rightarrow> xstate \<Rightarrow> extentid \<Rightarrow> int \<times> xstate" where
  "xc_flush v s i =
     (case x_cache s i of
        None \<Rightarrow> (xOK, s)
      | Some c \<Rightarrow>
          (case xc_write_back v i c (x_exts s) of
             (ret, e) \<Rightarrow>
               (ret, set_entry i (c\<lparr>xc_valid := False, xc_dirty := False, xc_attr := zero_attr\<rparr>)
                  (s\<lparr>x_exts := e\<rparr>))))"

definition extent_client_new :: "exts \<Rightarrow> xstate" where
  "extent_client_new e = \<lparr>x_cache = Map.empty, x_exts = e\<rparr>"

section \<open>What the client's user sees\<close>

text \<open>The contents of an extent as the client has them: its own change where it has one, the
  server's otherwise.\<close>

definition eff :: "xstate \<Rightarrow> extentid \<rightharpoonup> byte list" where
  "eff s i =
     (case x_cache s i of
        Some c \<Rightarrow> if xc_dirty c then (if xc_valid c then Some (xc_data c) else None) else xs_contents (x_exts s) i
      | None \<Rightarrow> xs_contents (x_exts s) i)"

text \<open>An entry and the server's extent agree: unchanged contents are the server's, the size of
  changed contents is their length, and the attributes of an unchanged entry, once fetched, carry
  the server's size.\<close>

definition entry_ok :: "xcache \<Rightarrow> extent option \<Rightarrow> bool" where
  "entry_ok c e \<longleftrightarrow>
     (\<not> xc_dirty c \<and> xc_valid c \<longrightarrow> map_option e_name e = Some (xc_data c)) \<and>
     (xc_dirty c \<and> xc_valid c \<longrightarrow> asize (xc_attr c) = of_nat (length (xc_data c))) \<and>
     (\<not> xc_dirty c \<and> ctime (xc_attr c) \<noteq> 0 \<and> mtime (xc_attr c) \<noteq> 0 \<longrightarrow>
        map_option (\<lambda>e. asize (e_attribute e)) e = Some (asize (xc_attr c)))"

definition xc_ok :: "xstate \<Rightarrow> bool" where
  "xc_ok s \<longleftrightarrow> xs_ok (x_exts s) \<and> (\<forall>i c. x_cache s i = Some c \<longrightarrow> entry_ok c (x_exts s i))"

section \<open>Frames\<close>

named_theorems xc_defs \<open>the operations of the extent client\<close>

declare xc_get_def [xc_defs] xc_getattr_def [xc_defs] xc_put_def [xc_defs] xc_remove_def [xc_defs]
  xc_flush_def [xc_defs] set_entry_def [xc_defs] xc_at_def [xc_defs] Let_def [xc_defs]

lemma zero_attr_simps [simp]: "atime zero_attr = 0" "mtime zero_attr = 0" "ctime zero_attr = 0" "asize zero_attr = 0"
  by (simp_all add: zero_attr_def)

lemma xcache_new_simps [simp]:
  "xc_data xcache_new = []" "\<not> xc_dirty xcache_new" "\<not> xc_valid xcache_new" "xc_attr xcache_new = zero_attr"
  by (simp_all add: xcache_new_def)

lemma xcall_Delivered [simp]: "xcall Delivered f r s = f s"
  by (simp add: xcall_def)

lemma set_entry_simps [simp]:
  "x_cache (set_entry i c s) = (x_cache s)(i \<mapsto> c)" "x_exts (set_entry i c s) = x_exts s"
  by (simp_all add: set_entry_def)

lemma entry_ok_new [simp]: "entry_ok xcache_new e"
  by (simp add: entry_ok_def)

lemma xc_ok_at: "xc_ok s \<Longrightarrow> entry_ok (xc_at s i) (x_exts s i)"
  by (auto simp: xc_ok_def xc_at_def split: option.splits)

text \<open>An operation on one extent leaves the client's other entries and the server's other extents
  as they are.\<close>

lemma xc_ok_local:
  assumes "xc_ok s" "xs_ok (x_exts s')"
    and "\<forall>j. j \<noteq> i \<longrightarrow> x_cache s' j = x_cache s j \<and> x_exts s' j = x_exts s j"
    and "\<forall>c. x_cache s' i = Some c \<longrightarrow> entry_ok c (x_exts s' i)"
  shows "xc_ok s'"
  unfolding xc_ok_def
proof (intro conjI allI impI)
  fix j c assume j: "x_cache s' j = Some c"
  show "entry_ok c (x_exts s' j)"
  proof (cases "j = i")
    case True
    with j assms(4) show ?thesis by blast
  next
    case False
    with assms(3) j have "x_cache s j = Some c" "x_exts s' j = x_exts s j" by simp_all
    with assms(1) show ?thesis by (simp add: xc_ok_def)
  qed
qed (rule assms(2))

lemma eff_local:
  assumes "\<forall>j. j \<noteq> i \<longrightarrow> x_cache s' j = x_cache s j \<and> x_exts s' j = x_exts s j" "eff s' i = b"
  shows "eff s' = (eff s)(i := b)"
proof
  fix j
  show "eff s' j = ((eff s)(i := b)) j"
  proof (cases "j = i")
    case False
    with assms(1) have "x_cache s' j = x_cache s j" "xs_contents (x_exts s') j = xs_contents (x_exts s) j"
      by (simp_all add: xs_contents_def)
    with False show ?thesis by (cases "x_cache s j") (simp_all add: eff_def)
  qed (simp add: assms(2))
qed

section \<open>Every operation keeps the agreement\<close>

lemma xc_put_step:
  assumes "xc_ok s"
  shows "\<exists>s'. xc_put v s i b = (xOK, s') \<and> xc_ok s' \<and> eff s' = (eff s)(i \<mapsto> b) \<and> x_exts s' = x_exts s \<and>
    dom (x_cache s') = insert i (dom (x_cache s)) \<and> x_cache s' = (x_cache s)(i := x_cache s' i)"
proof -
  let ?c = "\<lparr>xc_data = b, xc_dirty = True, xc_valid = True,
    xc_attr = \<lparr>atime = (case x_cache s i of None \<Rightarrow> x_now v | Some c \<Rightarrow> atime (xc_attr c)),
               mtime = x_now v, ctime = x_now v, asize = of_nat (length b)\<rparr>\<rparr>"
  let ?s = "set_entry i ?c s"
  have "xc_put v s i b = (xOK, ?s)" by (simp add: xc_put_def Let_def)
  moreover have "xc_ok ?s"
    using assms by (intro xc_ok_local [OF assms, of _ i]) (auto simp: xc_ok_def entry_ok_def)
  moreover have "eff ?s = (eff s)(i \<mapsto> b)" by (rule eff_local) (simp_all add: eff_def)
  ultimately show ?thesis by (intro exI [of _ ?s]) simp
qed

lemma xc_remove_step:
  assumes "xc_ok s" "i \<in> dom (x_cache s)"
  shows "\<exists>s'. xc_remove s i = (xOK, s') \<and> xc_ok s' \<and> eff s' = (eff s)(i := None) \<and> x_exts s' = x_exts s \<and>
    dom (x_cache s') = dom (x_cache s) \<and> x_cache s' = (x_cache s)(i := x_cache s' i)"
proof -
  from assms(2) obtain c where c: "x_cache s i = Some c" by blast
  let ?s = "set_entry i (c\<lparr>xc_valid := False, xc_dirty := True\<rparr>) s"
  have "xc_remove s i = (xOK, ?s)" by (simp add: xc_remove_def c)
  moreover have "xc_ok ?s"
    using assms by (intro xc_ok_local [OF assms(1), of _ i]) (auto simp: xc_ok_def entry_ok_def)
  moreover have "eff ?s = (eff s)(i := None)" by (rule eff_local) (simp_all add: eff_def)
  ultimately show ?thesis using assms(2) by (intro exI [of _ ?s]) auto
qed

text \<open>Extents of which the client has no entry cannot be removed through it; all it does is to make
  an empty entry.\<close>

lemma xc_remove_unknown:
  assumes "xc_ok s" "x_cache s i = None"
  shows "\<exists>s'. xc_remove s i = (xNOENT, s') \<and> xc_ok s' \<and> eff s' = eff s \<and> x_exts s' = x_exts s \<and>
    x_cache s' = (x_cache s)(i := x_cache s' i)"
proof -
  let ?s = "set_entry i xcache_new s"
  have "xc_remove s i = (xNOENT, ?s)" by (simp add: xc_remove_def assms(2))
  moreover have "xc_ok ?s"
    using assms by (intro xc_ok_local [OF assms(1), of _ i]) (auto simp: xc_ok_def)
  moreover have "eff ?s = (eff s)(i := eff s i)" by (rule eff_local) (simp_all add: eff_def assms(2))
  ultimately show ?thesis by (intro exI [of _ ?s]) simp
qed

text \<open>Reading fetches the extent if the client does not have it, and answers with what the client's
  user sees, except for an extent it has removed and not yet flushed.\<close>

lemma xc_get_cached:
  assumes "xc_ok s" "x_cache s i = Some c" "xc_valid c \<or> xc_dirty c"
  shows "xc_get v s i buf = (xOK, xc_data c, s) \<and> (xc_valid c \<longrightarrow> eff s i = Some (xc_data c))"
proof -
  have "entry_ok c (x_exts s i)" using assms(1,2) by (simp add: xc_ok_def)
  with assms(2,3) show ?thesis
    by (auto simp: xc_get_def xc_at_def eff_def entry_ok_def xs_contents_def Let_def)
qed

lemma xc_get_fetch:
  assumes "xc_ok s" "x_net v = Delivered" "\<not> xc_valid (xc_at s i)" "\<not> xc_dirty (xc_at s i)"
    and "eff s i = Some b"
  shows "\<exists>s'. xc_get v s i buf = (xOK, b, s') \<and> xc_ok s' \<and> eff s' = eff s \<and> i \<in> dom (x_cache s') \<and>
    x_cache s' = (x_cache s)(i := x_cache s' i) \<and> xs_contents (x_exts s') = xs_contents (x_exts s)"
proof -
  let ?g = "xs_get (x_srv_now v) (x_exts s) i []" and ?c = "xc_at s i"
  have b: "xs_contents (x_exts s) i = Some b"
    using assms(3-5) by (auto simp: eff_def xc_at_def split: option.splits)
  then obtain e where e: "x_exts s i = Some e" "e_name e = b" by (auto simp: xs_contents_def)
  let ?e = "e\<lparr>e_attribute := (e_attribute e)\<lparr>atime := x_srv_now v\<rparr>\<rparr>"
  let ?c' = "?c\<lparr>xc_data := b, xc_dirty := False, xc_valid := True, xc_attr :=
      (if x_cache s i \<noteq> None then (xc_attr ?c)\<lparr>atime := x_now v\<rparr>
       else \<lparr>atime = x_now v, mtime = 0, ctime = 0, asize = of_nat (length b)\<rparr>)\<rparr>"
  let ?s = "set_entry i ?c' (s\<lparr>x_exts := (x_exts s)(i \<mapsto> ?e)\<rparr>)"
  have g: "xc_get v s i buf = (xOK, b, ?s)"
    using assms(2-4) by (simp add: xc_get_def xs_get_def e Let_def)
  have ok: "xs_ok (x_exts s)" using assms(1) by (simp add: xc_ok_def)
  have "xs_ok ((x_exts s)(i \<mapsto> ?e))" using xs_ok_upd [OF ok] xs_ok_at [OF ok e(1)] by simp
  moreover have "entry_ok ?c (Some e)" using xc_ok_at [OF assms(1), of i] e by simp
  ultimately have "xc_ok ?s"
    using assms(3,4) e(2) by (intro xc_ok_local [OF assms(1), of _ i]) (auto simp: entry_ok_def)
  moreover have "eff ?s = (eff s)(i := Some b)" by (rule eff_local) (simp_all add: eff_def xs_contents_def e(2))
  moreover have "xs_contents ((x_exts s)(i \<mapsto> ?e)) = xs_contents (x_exts s)"
    using e by (auto simp: xs_contents_def)
  ultimately show ?thesis using g assms(5) by (intro exI [of _ ?s]) (auto simp: fun_upd_idem)
qed

lemma xc_getattr_step:
  assumes "xc_ok s" "xc_getattr v s i at = (ret, a, s')"
  shows "xc_ok s' \<and> eff s' = eff s \<and> x_exts s' = x_exts s \<and> x_cache s' = (x_cache s)(i := x_cache s' i) \<and>
    i \<in> dom (x_cache s')"
proof -
  let ?c = "xc_at s i"
  have ok: "entry_ok ?c (x_exts s i)" "xs_ok (x_exts s)" using xc_ok_at [OF assms(1)] assms(1) by (simp_all add: xc_ok_def)
  have e: "x_exts s' = x_exts s"
    using assms(2) by (auto simp: xc_getattr_def xcall_def xs_getattr_def Let_def split: if_splits net.splits option.splits)
  from assms(2) obtain c where c: "s' = set_entry i c s" "xc_dirty c = xc_dirty ?c" "xc_valid c = xc_valid ?c"
    "xc_data c = xc_data ?c" "xc_attr c = xc_attr ?c \<or>
      (asize (xc_attr c) = (if xc_dirty ?c then asize (xc_attr ?c) else asize a) \<and>
       map_option (\<lambda>e. asize (e_attribute e)) (x_exts s i) = Some (asize a) \<or> xc_dirty ?c \<and> asize (xc_attr c) = asize (xc_attr ?c))"
    by (auto simp: xc_getattr_def xcall_def xs_getattr_def Let_def set_entry_def
        split: if_splits net.splits option.splits)
  have "entry_ok c (x_exts s i)" using ok(1) c(2-5) by (auto simp: entry_ok_def)
  then have "xc_ok s'" using ok(2) e by (intro xc_ok_local [OF assms(1), of _ i]) (auto simp: c(1))
  moreover have "eff s' = (eff s)(i := eff s i)"
    by (rule eff_local) (auto simp: c eff_def xc_at_def split: option.splits)
  ultimately show ?thesis using e by (simp add: c(1))
qed

text \<open>The size it reports is that of the contents the client's user sees.\<close>

lemma xc_getattr_size:
  assumes "xc_ok s" "xc_getattr v s i at = (xOK, a, s')" "eff s i = Some b"
  shows "asize a = of_nat (length b)"
proof -
  let ?c = "xc_at s i"
  have ok: "entry_ok ?c (x_exts s i)" "xs_ok (x_exts s)" using xc_ok_at [OF assms(1)] assms(1) by (simp_all add: xc_ok_def)
  show ?thesis
  proof (cases "xc_dirty ?c")
    case True
    then have "xc_valid ?c" "xc_data ?c = b" using assms(3) by (auto simp: eff_def xc_at_def split: option.splits if_splits)
    with True ok(1) have "asize (xc_attr ?c) = of_nat (length b)" by (simp add: entry_ok_def)
    with True assms(2) show ?thesis
      by (auto simp: xc_getattr_def xcall_def xs_getattr_def Let_def split: if_splits net.splits option.splits)
  next
    case False
    then obtain e where e: "x_exts s i = Some e" "e_name e = b"
      using assms(3) by (auto simp: eff_def xc_at_def xs_contents_def split: option.splits if_splits)
    with xs_ok_at [OF ok(2) e(1)] False ok(1) assms(2) show ?thesis
      by (auto simp: xc_getattr_def xcall_def xs_getattr_def Let_def entry_ok_def split: if_splits net.splits option.splits)
  qed
qed

lemma xc_write_back_step:
  assumes "xs_ok e" "xc_write_back v i c e = (ret, e')"
  shows "xs_ok e' \<and> (\<forall>j. j \<noteq> i \<longrightarrow> e' j = e j)"
  using assms xs_put_ok [OF assms(1), of "x_srv_now v" i "xc_data c"] xs_remove_ok [OF assms(1), of i]
  by (auto simp: xc_write_back_def xcall_def xs_put_def xs_remove_def Let_def
      split: if_splits net.splits option.splits prod.splits)

lemma xc_flush_step:
  assumes "xc_ok s" "xc_flush v s i = (ret, s')"
  shows "xc_ok s' \<and> x_cache s' = (x_cache s)(i := x_cache s' i) \<and> dom (x_cache s') = dom (x_cache s) \<and>
    (\<forall>j. j \<noteq> i \<longrightarrow> x_exts s' j = x_exts s j) \<and>
    (\<forall>c. x_cache s' i = Some c \<longrightarrow> \<not> xc_dirty c \<and> \<not> xc_valid c)"
proof (cases "x_cache s i")
  case None
  with assms show ?thesis by (auto simp: xc_flush_def)
next
  case (Some c)
  obtain e where e: "xc_write_back v i c (x_exts s) = (ret, e)"
    "s' = set_entry i (c\<lparr>xc_valid := False, xc_dirty := False, xc_attr := zero_attr\<rparr>) (s\<lparr>x_exts := e\<rparr>)"
    using assms(2) Some by (auto simp: xc_flush_def split: prod.splits)
  have w: "xs_ok e \<and> (\<forall>j. j \<noteq> i \<longrightarrow> e j = x_exts s j)"
    using xc_write_back_step [OF _ e(1)] assms(1) by (simp add: xc_ok_def)
  then have "xc_ok s'" by (intro xc_ok_local [OF assms(1), of _ i]) (auto simp: e(2) entry_ok_def)
  with w Some show ?thesis by (auto simp: e(2))
qed

text \<open>A flush that reaches the server leaves what the client's user sees unchanged, and the server
  has it.\<close>

lemma xc_flush_delivered:
  assumes "xc_ok s" "x_net v = Delivered" "xc_flush v s i = (ret, s')"
  shows "eff s' = eff s \<and> xs_contents (x_exts s') i = eff s i"
proof (cases "x_cache s i")
  case None
  with assms show ?thesis by (auto simp: xc_flush_def eff_def)
next
  case (Some c)
  obtain e where e: "xc_write_back v i c (x_exts s) = (ret, e)"
    "s' = set_entry i (c\<lparr>xc_valid := False, xc_dirty := False, xc_attr := zero_attr\<rparr>) (s\<lparr>x_exts := e\<rparr>)"
    using assms(3) Some by (auto simp: xc_flush_def split: prod.splits)
  have w: "\<forall>j. j \<noteq> i \<longrightarrow> e j = x_exts s j"
    using xc_write_back_step [OF _ e(1)] assms(1) by (simp add: xc_ok_def)
  have i: "xs_contents e i = eff s i"
    using e(1) assms(2) Some xs_put_contents [of "x_srv_now v" "x_exts s" i "xc_data c"] xs_remove_contents [of "x_exts s" i]
    by (auto simp: xc_write_back_def eff_def split: if_splits prod.splits)
  have "eff s' = (eff s)(i := eff s i)" using w i by (intro eff_local) (simp_all add: e(2) eff_def)
  then show ?thesis using i by (simp add: e(2))
qed

section \<open>The client keeps the contract of a store\<close>

lemma xc_get_step:
  assumes "xc_ok s" "x_net v = Delivered" "eff s i = Some b"
  shows "\<exists>s'. xc_get v s i buf = (xOK, b, s') \<and> xc_ok s' \<and> eff s' = eff s \<and> i \<in> dom (x_cache s') \<and>
    x_cache s' = (x_cache s)(i := x_cache s' i) \<and> xs_contents (x_exts s') = xs_contents (x_exts s)"
proof (cases "\<not> xc_valid (xc_at s i) \<and> \<not> xc_dirty (xc_at s i)")
  case True
  with assms show ?thesis by (intro xc_get_fetch) simp_all
next
  case False
  then obtain c where c: "x_cache s i = Some c" "xc_valid c \<or> xc_dirty c"
    by (auto simp: xc_at_def split: option.splits)
  with assms(3) have "xc_valid c" by (auto simp: eff_def split: if_splits)
  with xc_get_cached [OF assms(1) c, of v buf] assms(1,3) c(1) show ?thesis by (intro exI [of _ s]) auto
qed

text \<open>The extents that are removed here and that the server still has to be told of.\<close>

definition unflushed :: "xstate \<Rightarrow> extentid set" where
  "unflushed s = {i. \<exists>c. x_cache s i = Some c \<and> xc_dirty c \<and> \<not> xc_valid c}"

lemma unflushed_local:
  assumes "x_cache s' = (x_cache s)(i := x_cache s' i)"
  shows "unflushed s' \<subseteq> insert i (unflushed s)" "i \<notin> unflushed s' \<Longrightarrow> unflushed s' \<subseteq> unflushed s - {i}"
proof -
  have c: "j \<noteq> i \<Longrightarrow> x_cache s' j = x_cache s j" for j using fun_cong [OF assms, of j] by simp
  then have u: "j \<in> unflushed s' \<Longrightarrow> j \<noteq> i \<Longrightarrow> j \<in> unflushed s" for j by (simp add: unflushed_def)
  then show "unflushed s' \<subseteq> insert i (unflushed s)" by blast
  show "unflushed s' \<subseteq> unflushed s - {i}" if "i \<notin> unflushed s'" using u that by blast
qed

lemma eff_unflushed: "i \<in> unflushed s \<Longrightarrow> eff s i = None"
  by (auto simp: unflushed_def eff_def)

lemma xc_get_miss:
  assumes "xc_ok s" "x_net v = Delivered" "eff s i = None" "i \<notin> unflushed s"
  shows "xc_get v s i [] = (xNOENT, [], s)"
proof -
  have "\<not> xc_dirty (xc_at s i)" using assms(3,4) by (auto simp: unflushed_def eff_def xc_at_def split: option.splits if_splits)
  moreover from this have x: "x_exts s i = None" using assms(3) by (auto simp: eff_def xc_at_def xs_contents_def split: option.splits if_splits)
  moreover from calculation have "\<not> xc_valid (xc_at s i)" using xc_ok_at [OF assms(1), of i] by (auto simp: entry_ok_def)
  ultimately show ?thesis using assms(2) by (simp add: xc_get_def xs_get_def Let_def)
qed

interpretation client: extent_store eff "xc_put (v\<lparr>x_net := Delivered\<rparr>)"
  "\<lambda>s i. xc_get (v\<lparr>x_net := Delivered\<rparr>) s i []" xc_remove "\<lambda>s i. snd (xc_flush (v\<lparr>x_net := Delivered\<rparr>) s i)"
  "\<lambda>s. dom (x_cache s)" unflushed xc_ok
proof
  fix s i b assume s: "xc_ok s"
  let ?v = "v\<lparr>x_net := Delivered\<rparr>"
  from xc_put_step [OF s, of ?v i b] obtain s1 where s1: "xc_put ?v s i b = (xOK, s1)" "xc_ok s1" "eff s1 = (eff s)(i \<mapsto> b)"
    "dom (x_cache s1) = insert i (dom (x_cache s))" "x_cache s1 = (x_cache s)(i := x_cache s1 i)" by blast
  have "i \<notin> unflushed s1" using eff_unflushed [of i s1] s1(3) by auto
  with s1 unflushed_local(2) [OF s1(5)]
  show "\<exists>s'. xc_put ?v s i b = (xOK, s') \<and> xc_ok s' \<and> eff s' = (eff s)(i \<mapsto> b) \<and>
      insert i (dom (x_cache s)) \<subseteq> dom (x_cache s') \<and> unflushed s' \<subseteq> unflushed s - {i}" by (intro exI [of _ s1]) simp
  obtain r s2 where s2: "xc_flush ?v s i = (r, s2)" by fastforce
  note f = xc_flush_step [OF s s2] xc_flush_delivered [OF s _ s2]
  have "i \<notin> unflushed s2" using f(1) by (auto simp: unflushed_def)
  with f unflushed_local(2) [of s2 s i] s2
  show "xc_ok (snd (xc_flush ?v s i)) \<and> eff (snd (xc_flush ?v s i)) = eff s \<and> dom (x_cache s) \<subseteq> dom (x_cache (snd (xc_flush ?v s i))) \<and>
      unflushed (snd (xc_flush ?v s i)) \<subseteq> unflushed s - {i}" by simp
  show "xc_get ?v s i [] = (xNOENT, [], s)" if "eff s i = None" "i \<notin> unflushed s" using xc_get_miss [OF s _ that] by simp
  assume b: "eff s i = Some b"
  from xc_get_step [OF s _ b, of ?v "[]"] obtain s' where
    s': "xc_get ?v s i [] = (xOK, b, s')" "xc_ok s'" "eff s' = eff s" "i \<in> dom (x_cache s')"
    "x_cache s' = (x_cache s)(i := x_cache s' i)" by auto
  have "j \<in> dom (x_cache s')" if "j \<in> insert i (dom (x_cache s))" for j
    using s'(4) that arg_cong [OF s'(5), of "\<lambda>m. m j"] by (cases "j = i") auto
  moreover have "i \<notin> unflushed s'" using eff_unflushed [of i s'] s'(3) b by auto
  ultimately show "\<exists>s'. xc_get ?v s i [] = (xOK, b, s') \<and> xc_ok s' \<and> eff s' = eff s \<and>
      insert i (dom (x_cache s)) \<subseteq> dom (x_cache s') \<and> unflushed s' \<subseteq> unflushed s"
    using s' unflushed_local(2) [OF s'(5)] by (intro exI [of _ s'] conjI subsetI) auto
  assume "i \<in> dom (x_cache s)"
  from xc_remove_step [OF s this] obtain s3 where s3: "xc_remove s i = (xOK, s3)" "xc_ok s3" "eff s3 = (eff s)(i := None)"
    "dom (x_cache s3) = dom (x_cache s)" "x_cache s3 = (x_cache s)(i := x_cache s3 i)" by blast
  with unflushed_local(1) [OF s3(5)] show "\<exists>s'. xc_remove s i = (xOK, s') \<and> xc_ok s' \<and>
      eff s' = (eff s)(i := None) \<and> dom (x_cache s) - {i} \<subseteq> dom (x_cache s') \<and> unflushed s' \<subseteq> insert i (unflushed s)"
    by (intro exI [of _ s3]) auto
qed

lemma xc_ok_new: "xs_ok e \<Longrightarrow> xc_ok (extent_client_new e)"
  by (simp add: xc_ok_def extent_client_new_def)

lemma eff_new: "eff (extent_client_new e) = xs_contents e"
  by (simp add: eff_def extent_client_new_def fun_eq_iff)

lemma xs_ok_server_new: "xs_ok (extent_server_new now)"
  by (simp add: extent_server_new_def xs_put_ok xs_ok_def [of Map.empty])

section \<open>Properties\<close>

text \<open>(C16) The cache is transparent: on every sequence of writes, reads, removals and flushes whose calls
  arrive, that removes only extents that are there and that it has read or written, and that does not read an
  extent between removing it and flushing it or writing it again, the client
  with its cache gives exactly the answers the server would give if it were asked directly.\<close>

theorem cache_transparent:
  assumes "xs_ok e" "x_net v = Delivered" "regular (xs_contents e) {} {} ops"
  shows "store_run (xc_put v) (\<lambda>s i. xc_get v s i []) xc_remove (\<lambda>s i. snd (xc_flush v s i)) (extent_client_new e) ops =
    store_run (xs_put now) (\<lambda>s i. xs_get now s i []) xs_remove (\<lambda>s _. s) e ops"
proof -
  have v: "v\<lparr>x_net := Delivered\<rparr> = v" using assms(2) by simp
  have u: "unflushed (extent_client_new e) = {}" by (simp add: unflushed_def extent_client_new_def)
  from client.run_refines [OF xc_ok_new [OF assms(1)], of "{}" "{}" ops v] server.run_refines [OF assms(1,3), of now] assms(3)
  show ?thesis by (simp add: eff_new v u)
qed

theorem cache_transparent_witness:
  "let v = \<lparr>x_now = 5, x_srv_now = 6, x_net = Delivered\<rparr>;
       ops = [SGet 7, SPut 7 [1], SGet 7, SFlush 7, SGet 7, SRemove 7, SFlush 7, SGet 7, SPut 7 [2, 3], SGet 7]
   in store_run (xc_put v) (\<lambda>s i. xc_get v s i []) xc_remove (\<lambda>s i. snd (xc_flush v s i)) (extent_client_new (extent_server_new 0)) ops =
      store_run (xs_put 9) (\<lambda>s i. xs_get 9 s i []) xs_remove (\<lambda>s _. s) (extent_server_new 0) ops"
  unfolding Let_def by (rule cache_transparent) (simp_all add: xs_ok_server_new)

text \<open>The size \<^verbatim>\<open>getattr\<close> reports is the size of the contents, whether they are cached and changed,
  cached and unchanged, or only at the server; and asking changes no contents.\<close>

theorem getattr_reports_size:
  assumes "xc_ok s" "eff s i = Some b" "xc_getattr v s i at = (xOK, a, s')"
  shows "asize a = of_nat (length b) \<and> eff s' = eff s \<and> xc_ok s'"
  using xc_getattr_size [OF assms(1,3,2)] xc_getattr_step [OF assms(1,3)] by blast

theorem getattr_reports_size_witness:
  "\<exists>a s'. xc_getattr \<lparr>x_now = 5, x_srv_now = 6, x_net = Delivered\<rparr>
      (snd (xc_put \<lparr>x_now = 5, x_srv_now = 6, x_net = Delivered\<rparr> (extent_client_new (extent_server_new 3)) 1 [8, 9]))
      1 zero_attr = (xOK, a, s') \<and> asize a = of_nat (length [8, 9 :: byte])"
proof -
  let ?v = "\<lparr>x_now = 5, x_srv_now = 6, x_net = Delivered\<rparr>"
  obtain s where s: "xc_put ?v (extent_client_new (extent_server_new 3)) 1 [8, 9] = (xOK, s)" "xc_ok s"
    "eff s = (eff (extent_client_new (extent_server_new 3)))(1 \<mapsto> [8, 9])"
    using xc_put_step [OF xc_ok_new [OF xs_ok_server_new]] by blast
  then have e: "eff s 1 = Some [8, 9]" by simp
  obtain a s' where g: "xc_getattr ?v s 1 zero_attr = (xOK, a, s')"
    using s(1) by (auto simp: xc_put_def extent_client_new_def xc_getattr_def xc_at_def set_entry_def Let_def)
  from getattr_reports_size [OF s(2) e g] g s(1) show ?thesis by (intro exI [of _ a] exI [of _ s']) simp
qed

text \<open>(C40) A flush whose call fails drops the change: \<^verbatim>\<open>flush\<close> marks the entry clean whatever the call
  returned, so what was written is gone and the next read fetches the server's old contents.\<close>

theorem failed_flush_loses_data:
  assumes "xc_put v s i new = (r, s1)" "x_net w = Lost False k" "xc_flush w s1 i = (ret, s2)"
  shows "ret < 0 \<and> eff s1 i = Some new \<and> eff s2 i = xs_contents (x_exts s) i"
proof -
  have s1: "x_cache s1 i \<noteq> None" "xc_dirty (the (x_cache s1 i))" "xc_valid (the (x_cache s1 i))"
    "xc_data (the (x_cache s1 i)) = new" "x_exts s1 = x_exts s"
    using assms(1) by (auto simp: xc_put_def Let_def)
  with assms(2,3) show ?thesis
    by (auto simp: xc_flush_def xc_write_back_def xcall_def eff_def split: option.splits prod.splits)
qed

theorem failed_flush_loses_data_witness:
  "\<exists>s1 s2. let v = \<lparr>x_now = 5, x_srv_now = 6, x_net = Delivered\<rparr>; s = extent_client_new (extent_server_new 3) in
     xc_put v s 1 [8] = (xOK, s1) \<and> xc_flush (v\<lparr>x_net := Lost False 0\<rparr>) s1 1 = (- 1, s2) \<and>
     eff s1 1 = Some [8] \<and> eff s2 1 = Some []"
proof -
  let ?v = "\<lparr>x_now = 5, x_srv_now = 6, x_net = Delivered\<rparr>" and ?s = "extent_client_new (extent_server_new 3)"
  let ?w = "?v\<lparr>x_net := Lost False 0\<rparr>"
  obtain s1 where p: "xc_put ?v ?s 1 [8] = (xOK, s1)" by (simp add: xc_put_def Let_def)
  obtain s2 where f: "xc_flush ?w s1 1 = (- 1, s2)"
    using p by (auto simp: xc_put_def Let_def xc_flush_def xc_write_back_def xcall_def)
  have "xs_contents (x_exts ?s) 1 = Some []"
    by (simp add: extent_client_new_def extent_server_new_def xs_put_def xs_contents_def Let_def)
  with failed_flush_loses_data [OF p _ f] p f show ?thesis
    unfolding Let_def by (intro exI [of _ s1] exI [of _ s2]) simp
qed

text \<open>A removed extent can still be read: between \<^verbatim>\<open>remove\<close> and the flush the entry is invalid but
  dirty, and \<^verbatim>\<open>get\<close> takes a dirty entry for usable; it answers OK with the removed contents.\<close>

theorem removed_extent_readable:
  assumes "xc_ok s" "x_net v = Delivered" "eff s i = Some b" "xc_get v s i [] = (r, b', s1)" "xc_remove s1 i = (r', s2)"
  shows "eff s2 i = None \<and> (\<forall>w. xc_get w s2 i [] = (xOK, b, s2))"
proof -
  obtain c where c: "x_cache s1 i = Some c" "xc_valid c" "xc_data c = b"
  proof -
    from xc_get_step [OF assms(1-3), of "[]"] assms(4) obtain c where c: "x_cache s1 i = Some c" "xc_ok s1" "eff s1 i = Some b" "r = xOK"
      using assms(3) by auto
    have "xc_valid c"
      using assms(4) c(1,3,4) by (auto simp: xc_get_def Let_def xc_at_def eff_def split: if_splits prod.splits option.splits)
    with xc_get_cached [OF c(2,1)] c(3) have "xc_data c = b" by simp
    with c(1) \<open>xc_valid c\<close> that show ?thesis by blast
  qed
  then have "s2 = set_entry i (c\<lparr>xc_valid := False, xc_dirty := True\<rparr>) s1" using assms(5) by (simp add: xc_remove_def)
  with c show ?thesis by (simp add: eff_def xc_get_def xc_at_def Let_def)
qed

theorem removed_extent_readable_witness:
  "\<exists>s1 s2. let v = \<lparr>x_now = 5, x_srv_now = 6, x_net = Delivered\<rparr>; s = extent_client_new (extent_server_new 3) in
     xc_get v s 1 [] = (xOK, [], s1) \<and> xc_remove s1 1 = (xOK, s2) \<and> eff s2 1 = None \<and> xc_get v s2 1 [] = (xOK, [], s2)"
proof -
  let ?v = "\<lparr>x_now = 5, x_srv_now = 6, x_net = Delivered\<rparr>" and ?s = "extent_client_new (extent_server_new 3)"
  have e: "eff ?s 1 = Some []"
    by (simp add: eff_new extent_server_new_def xs_put_def xs_contents_def Let_def)
  obtain s1 where g: "xc_get ?v ?s 1 [] = (xOK, [], s1)" "xc_ok s1" "1 \<in> dom (x_cache s1)"
    using xc_get_step [OF xc_ok_new [OF xs_ok_server_new] _ e, of ?v "[]"] by auto
  obtain s2 where r: "xc_remove s1 1 = (xOK, s2)" using xc_remove_step [OF g(2,3)] by blast
  from removed_extent_readable [OF xc_ok_new [OF xs_ok_server_new] _ e g(1) r] g(1) r show ?thesis
    unfolding Let_def by (intro exI [of _ s1] exI [of _ s2]) simp
qed

end
