(* ===== verification/Coherence.thy ===== *)
theory Coherence
  imports Lock_System Extent_Client
begin

text \<open>
  The lock service and the extent service together: every client has a lock client and an extent
  client, a lock is named by the extent it protects, threads touch an extent only in the critical
  section of its lock, and \<^verbatim>\<open>ExtentLockRelease::dorelease\<close> flushes the extent before the lock goes
  back. The history records what the threads wrote and read, and the flushes.

  Shown here: whatever the clients, their threads, the revoke and retry messages and the network do, the
  history is one that a single copy of each extent explains: an extent at the server, and the changes made
  to it since its lock was given out. The changes include removals, whose contents stay readable until
  the flush, and a flush that does not reach the server undoes them.
\<close>

section \<open>Actions of a thread on an extent\<close>

datatype act = DoGet | DoPut "byte list" | DoRemove | DoGetattr

datatype event =
    Got extentid int "byte list"
  | Put extentid "byte list"
  | Removed extentid int
  | Sized extentid int u32
  | Flushed extentid bool

definition xdo :: "xenv \<Rightarrow> xstate \<Rightarrow> extentid \<Rightarrow> act \<Rightarrow> event \<times> xstate" where
  "xdo v x i a =
     (case a of
        DoGet \<Rightarrow> (case xc_get v x i [] of (r, b, x) \<Rightarrow> (Got i r b, x))
      | DoPut b \<Rightarrow> (case xc_put v x i b of (r, x) \<Rightarrow> (Put i b, x))
      | DoRemove \<Rightarrow> (case xc_remove x i of (r, x) \<Rightarrow> (Removed i r, x))
      | DoGetattr \<Rightarrow> (case xc_getattr v x i zero_attr of (r, a, x) \<Rightarrow> (Sized i r (asize a), x)))"

text \<open>\<^verbatim>\<open>ExtentLockRelease::dorelease\<close>.\<close>

definition dorelease :: "xenv \<Rightarrow> xstate \<Rightarrow> lockid \<Rightarrow> xstate" where
  "dorelease v x lid = snd (xc_flush v x lid)"

text \<open>Whether the call that the flush makes is executed by the server.\<close>

definition arrives_at :: "net \<Rightarrow> bool" where
  "arrives_at n = (case n of Delivered \<Rightarrow> True | Lost did _ \<Rightarrow> did)"

section \<open>The system\<close>

record zsys =
  z_lock :: lsys
  z_cache :: "string \<Rightarrow> extentid \<rightharpoonup> xcache"
  z_exts :: exts
  z_hist :: "event list"

definition zview :: "zsys \<Rightarrow> string \<Rightarrow> xstate" where
  "zview z c = \<lparr>x_cache = z_cache z c, x_exts = z_exts z\<rparr>"

definition set_view :: "string \<Rightarrow> xstate \<Rightarrow> zsys \<Rightarrow> zsys" where
  "set_view c x z = z\<lparr>z_cache := (z_cache z)(c := x_cache x), z_exts := x_exts x\<rparr>"

definition zinit :: "exts \<Rightarrow> zsys" where
  "zinit e = \<lparr>z_lock = lsys_init, z_cache = (\<lambda>_. Map.empty), z_exts = e, z_hist = []\<rparr>"

text \<open>The thread is about to give the lock back and has to flush first.\<close>

definition flushing :: "lockid \<Rightarrow> pc \<Rightarrow> bool" where
  "flushing lid p \<longleftrightarrow> p = RelFlush lid \<or> p = RevFlush lid"

definition flushed :: "lockid \<Rightarrow> pc \<Rightarrow> bool" where
  "flushed lid p \<longleftrightarrow> p = RelCall lid \<or> p = RevCall lid"

definition after_flush :: "pc \<Rightarrow> pc" where
  "after_flush p = (case p of RelFlush lid \<Rightarrow> RelCall lid | RevFlush lid \<Rightarrow> RevCall lid | _ \<Rightarrow> p)"

inductive zstep :: "zsys \<Rightarrow> zsys \<Rightarrow> bool" where
  lock: "lstep (z_lock z) l \<Longrightarrow> \<forall>c t lid. flushing lid (y_pc (z_lock z) c t) \<longrightarrow> y_pc l c t = y_pc (z_lock z) c t \<Longrightarrow>
    zstep z (z\<lparr>z_lock := l\<rparr>)"
| flush: "flushing lid (y_pc (z_lock z) c t) \<Longrightarrow>
    zstep z (set_view c (dorelease v (zview z c) lid)
      (z\<lparr>z_lock := goto (z_lock z) c t (after_flush (y_pc (z_lock z) c t)),
         z_hist := z_hist z @ [Flushed lid (arrives_at (x_net v))]\<rparr>))"
| access: "y_pc (z_lock z) c t = Crit lid \<Longrightarrow> xdo v (zview z c) lid a = (e, x) \<Longrightarrow>
    zstep z (set_view c x (z\<lparr>z_hist := z_hist z @ [e]\<rparr>))"

definition zreachable :: "exts \<Rightarrow> zsys \<Rightarrow> bool" where
  "zreachable e z \<longleftrightarrow> zstep\<^sup>*\<^sup>* (zinit e) z"

section \<open>Histories\<close>

text \<open>An extent without caches: its contents at the server, and what was done to it since its lock was
  given out. It may be unchanged, and then read or not; it may have new contents; or it may be removed, and
  then \<^verbatim>\<open>get\<close> still answers with the contents it had, which are not determined if they were not read before.\<close>

datatype own = Clean bool | Changed "byte list" | Going "byte list option"

type_synonym shown = "byte list option \<times> own"

fun holds :: "shown \<Rightarrow> byte list option" where
  "holds (srv, Clean _) = srv"
| "holds (srv, Changed d) = Some d"
| "holds (srv, Going _) = None"

fun about :: "event \<Rightarrow> extentid" where
  "about (Got i _ _) = i"
| "about (Put i _) = i"
| "about (Removed i _) = i"
| "about (Sized i _ _) = i"
| "about (Flushed i _) = i"

fun was :: "shown \<Rightarrow> byte list option" where
  "was (srv, Clean b) = (if b then srv else None)"
| "was (srv, Changed d) = Some d"
| "was (srv, Going d) = d"

fun effect :: "event \<Rightarrow> shown \<Rightarrow> shown" where
  "effect (Put i b) x = (fst x, Changed b)"
| "effect (Got i r b) x = (case snd x of Clean _ \<Rightarrow> if r = xOK then (fst x, Clean True) else x | _ \<Rightarrow> x)"
| "effect (Removed i r) x = (if r = xOK then (fst x, Going (was x)) else x)"
| "effect (Flushed i done) x = (if done then holds x else fst x, Clean False)"
| "effect (Sized i r n) x = x"

text \<open>What each call may answer. A read fails only if it has to ask the server. The size of a removed
  extent is not determined.\<close>

fun observes :: "shown \<Rightarrow> event \<Rightarrow> bool" where
  "observes x (Got i r b) =
     (case snd x of
        Clean seen \<Rightarrow>
          (case fst x of Some d \<Rightarrow> r = xOK \<and> b = d \<or> \<not> seen \<and> r < 0 | None \<Rightarrow> r = xNOENT \<or> r < 0)
      | Changed d \<Rightarrow> r = xOK \<and> b = d
      | Going d \<Rightarrow> r = xOK \<and> (d = None \<or> d = Some b))"
| "observes x (Sized i r n) =
     (r < 0 \<or> r = xNOENT \<and> fst x = None \<or>
      r = xOK \<and> (case snd x of Going _ \<Rightarrow> True | _ \<Rightarrow> map_option (of_nat \<circ> length) (holds x) = Some n))"
| "observes x (Removed i r) = (r = xOK \<or> r = xNOENT \<and> snd x = Clean False)"
| "observes x (Put i b) = True"
| "observes x (Flushed i done) = True"

definition extend :: "event \<Rightarrow> (extentid \<Rightarrow> shown) \<Rightarrow> extentid \<Rightarrow> shown" where
  "extend e m = m(about e := effect e (m (about e)))"

fun coherent :: "(extentid \<Rightarrow> shown) \<Rightarrow> event list \<Rightarrow> bool" where
  "coherent m [] = True"
| "coherent m (e # es) = (observes (m (about e)) e \<and> coherent (extend e m) es)"

lemma coherent_append: "coherent m (h @ h') \<longleftrightarrow> coherent m h \<and> coherent (fold extend h m) h'"
  by (induction h arbitrary: m) auto

lemma extend_apply: "extend e m j = (if j = about e then effect e (m j) else m j)"
  by (simp add: extend_def)

section \<open>One action at one client\<close>

text \<open>An entry that holds nothing: what a client has of an extent whose lock is elsewhere.\<close>

definition empty_entry :: "xcache option \<Rightarrow> bool" where
  "empty_entry o' \<longleftrightarrow> (\<forall>c. o' = Some c \<longrightarrow> \<not> xc_dirty c \<and> \<not> xc_valid c \<and> xc_attr c = zero_attr)"

definition local_to :: "extentid \<Rightarrow> xstate \<Rightarrow> xstate \<Rightarrow> bool" where
  "local_to i x x' \<longleftrightarrow> (\<forall>j. j \<noteq> i \<longrightarrow> x_cache x' j = x_cache x j \<and> x_exts x' j = x_exts x j)"

lemma local_toI: "x_cache x' = (x_cache x)(i := x_cache x' i) \<Longrightarrow> x_exts x' = (x_exts x)(i := x_exts x' i) \<Longrightarrow> local_to i x x'"
  by (metis fun_upd_other local_to_def)

text \<open>The cache entry and the server's extent stand for the extent without caches.\<close>

definition stands_for :: "xcache option \<Rightarrow> extent option \<Rightarrow> shown \<Rightarrow> bool" where
  "stands_for oc oe x \<longleftrightarrow> fst x = map_option e_name oe \<and>
     (case snd x of
        Clean seen \<Rightarrow> (case oc of None \<Rightarrow> \<not> seen | Some c \<Rightarrow> \<not> xc_dirty c \<and> xc_valid c = seen)
      | Changed d \<Rightarrow> (case oc of None \<Rightarrow> False | Some c \<Rightarrow> xc_dirty c \<and> xc_valid c \<and> xc_data c = d)
      | Going d \<Rightarrow> (case oc of None \<Rightarrow> False | Some c \<Rightarrow> xc_dirty c \<and> \<not> xc_valid c \<and> (d = None \<or> d = Some (xc_data c))))"

lemma stands_for_empty: "empty_entry oc \<Longrightarrow> stands_for oc oe (map_option e_name oe, Clean False)"
  by (auto simp: stands_for_def empty_entry_def split: option.splits)

lemma stands_for_empty_iff: "empty_entry oc \<Longrightarrow> stands_for oc oe x \<longleftrightarrow> x = (map_option e_name oe, Clean False)"
  by (cases x) (auto simp: stands_for_def empty_entry_def split: option.splits own.splits)

lemma stands_for_cases:
  assumes "stands_for oc oe x"
  obtains (none) "oc = None" "x = (map_option e_name oe, Clean False)"
  | (clean) c where "oc = Some c" "\<not> xc_dirty c" "x = (map_option e_name oe, Clean (xc_valid c))"
  | (changed) c where "oc = Some c" "xc_dirty c" "xc_valid c" "x = (map_option e_name oe, Changed (xc_data c))"
  | (going) c d where "oc = Some c" "xc_dirty c" "\<not> xc_valid c" "x = (map_option e_name oe, Going d)" "d = None \<or> d = Some (xc_data c)"
proof -
  obtain srv o' where x: "x = (srv, o')" by fastforce
  show thesis
  proof (cases oc)
    case None
    with assms x show ?thesis by (intro none) (auto simp: stands_for_def split: own.splits)
  next
    case (Some c)
    with assms x show ?thesis
      by (cases o') (auto simp: stands_for_def intro: clean [of c] changed [of c] going [of c])
  qed
qed

text \<open>Reading, with all outcomes of the call.\<close>

lemma xc_get_any:
  assumes "xc_ok s" "xc_get v s i buf = (r, b, s')" "stands_for (x_cache s i) (x_exts s i) x"
  shows "xc_ok s' \<and> local_to i s s' \<and> observes x (Got i r b) \<and> stands_for (x_cache s' i) (x_exts s' i) (effect (Got i r b) x)"
proof (cases "x_cache s i \<noteq> None \<and> (xc_valid (xc_at s i) \<or> xc_dirty (xc_at s i))")
  case True
  then obtain c where c: "x_cache s i = Some c" "xc_valid c \<or> xc_dirty c" by (auto simp: xc_at_def)
  have k: "entry_ok c (x_exts s i)" using assms(1) c(1) by (simp add: xc_ok_def)
  from xc_get_cached [OF assms(1) c, of v buf] assms(2) have r: "r = xOK" "b = xc_data c" "s' = s" by auto
  have "observes x (Got i xOK (xc_data c)) \<and> effect (Got i xOK (xc_data c)) x = x"
    using c k by (cases rule: stands_for_cases [OF assms(3)]) (auto simp: entry_ok_def)
  with assms(1,3) show ?thesis unfolding r by (simp add: local_to_def)
next
  case False
  then have n: "\<not> xc_valid (xc_at s i)" "\<not> xc_dirty (xc_at s i)" by (auto simp: xc_at_def)
  have x: "x = (map_option e_name (x_exts s i), Clean False)"
    by (cases rule: stands_for_cases [OF assms(3)]) (use n in \<open>auto simp: xc_at_def\<close>)
  have eff: "eff s i = xs_contents (x_exts s) i" using n by (auto simp: eff_def xc_at_def split: option.splits)
  show ?thesis
  proof (cases "x_net v")
    case Delivered
    show ?thesis
    proof (cases "x_exts s i")
      case None
      then have "s' = s" "r = xNOENT" using assms(2) n Delivered by (auto simp: xc_get_def Let_def xs_get_def)
      with None x assms(1,3) show ?thesis by (simp add: local_to_def)
    next
      case (Some d)
      from xc_get_fetch [OF assms(1) Delivered n, of "e_name d" buf] eff assms(2) Some obtain
        "xc_ok s'" "r = xOK" "b = e_name d" by (auto simp: xs_contents_def)
      moreover have "local_to i s s' \<and> stands_for (x_cache s' i) (x_exts s' i) (Some (e_name d), Clean True)"
        using assms(2) n Delivered Some
        by (auto simp: local_to_def stands_for_def xc_get_def Let_def xs_get_def split: option.splits if_splits)
      ultimately show ?thesis using Some x by simp
    qed
  next
    case (Lost did k)
    let ?e = "if did then snd (snd (xs_get (x_srv_now v) (x_exts s) i [])) else x_exts s"
    have s': "s' = s\<lparr>x_exts := ?e\<rparr>" "r < 0" using assms(2) n Lost by (auto simp: xc_get_def Let_def xcall_def)
    have ok: "xs_ok (x_exts s)" using assms(1) by (simp add: xc_ok_def)
    have e: "xs_ok ?e" "\<forall>j. j \<noteq> i \<longrightarrow> ?e j = x_exts s j" "map_option e_name (?e i) = map_option e_name (x_exts s i)"
      using xs_get_ok [OF ok] ok by (auto simp: xs_get_def split: option.splits)
    have "entry_ok c (?e i)" if "x_cache s i = Some c" for c
    proof -
      have "entry_ok c (x_exts s i)" using assms(1) that by (simp add: xc_ok_def)
      then show ?thesis by (auto simp: entry_ok_def xs_get_def split: option.splits)
    qed
    then have "xc_ok s'" using e by (intro xc_ok_local [OF assms(1), of _ i]) (simp_all add: s'(1))
    moreover have "stands_for (x_cache s' i) (x_exts s' i) x" using assms(3) e(3) by (simp add: s'(1) stands_for_def)
    ultimately show ?thesis using e(2) s' x by (simp add: local_to_def split: option.splits)
  qed
qed

lemma xc_getattr_any:
  assumes "xc_ok s" "xc_getattr v s i zero_attr = (r, a, s')" "stands_for (x_cache s i) (x_exts s i) x"
  shows "xc_ok s' \<and> local_to i s s' \<and> observes x (Sized i r (asize a)) \<and> stands_for (x_cache s' i) (x_exts s' i) x"
proof -
  note g = xc_getattr_step [OF assms(1,2)]
  have "stands_for (x_cache s' i) (x_exts s' i) x"
    using assms(2,3) g
    by (auto simp: xc_getattr_def xcall_def xs_getattr_def xc_at_def stands_for_def Let_def
        split: if_splits net.splits option.splits own.splits)
  moreover have "entry_ok (xc_at s i) (x_exts s i)" by (rule xc_ok_at [OF assms(1)])
  then have r: "r < 0 \<or> r = xNOENT \<and> x_exts s i = None \<or> r = xOK \<and> (xc_dirty (xc_at s i) \<or> x_exts s i \<noteq> None)"
    using assms(2) by (auto simp: xc_getattr_def xcall_def xs_getattr_def entry_ok_def Let_def
        split: if_splits net.splits option.splits)
  have h: "eff s i = holds x"
    by (cases rule: stands_for_cases [OF assms(3)]) (auto simp: eff_def xs_contents_def)
  have "observes x (Sized i r (asize a))"
  proof (cases "r = xOK \<and> (\<forall>d. snd x \<noteq> Going d)")
    case True
    then obtain d where "holds x = Some d"
      using r by (cases rule: stands_for_cases [OF assms(3)]) (auto simp: xc_at_def)
    with True xc_getattr_size [OF assms(1), of v i zero_attr a s' d] assms(2) h show ?thesis by (auto split: own.splits)
  next
    case False
    with r show ?thesis by (cases rule: stands_for_cases [OF assms(3)]) (auto split: own.splits)
  qed
  ultimately show ?thesis using g by (auto intro!: local_toI)
qed

lemma xdo_step:
  assumes "xc_ok s" "xdo v s i a = (e, s')" "stands_for (x_cache s i) (x_exts s i) x"
  shows "xc_ok s' \<and> local_to i s s' \<and> observes x e \<and> stands_for (x_cache s' i) (x_exts s' i) (effect e x)"
proof (cases a)
  case DoGet
  then obtain r b where g: "xc_get v s i [] = (r, b, s')" "e = Got i r b"
    using assms(2) by (auto simp: xdo_def split: prod.splits)
  from xc_get_any [OF assms(1) g(1) assms(3)] show ?thesis by (simp only: g(2))
next
  case (DoPut b)
  then obtain r where p: "xc_put v s i b = (r, s')" "e = Put i b" using assms(2) by (auto simp: xdo_def split: prod.splits)
  have "stands_for (x_cache s' i) (x_exts s' i) (effect e x)"
    using p assms(3) by (auto simp: xc_put_def stands_for_def Let_def)
  with p xc_put_step [OF assms(1), of v i b] show ?thesis by (auto intro!: local_toI)
next
  case DoRemove
  then obtain r where r: "xc_remove s i = (r, s')" "e = Removed i r" using assms(2) by (auto simp: xdo_def split: prod.splits)
  show ?thesis
  proof (cases "x_cache s i")
    case None
    then have "x = (map_option e_name (x_exts s i), Clean False)" by (cases rule: stands_for_cases [OF assms(3)]) auto
    with xc_remove_unknown [OF assms(1) None] r None show ?thesis
      by (auto simp: xc_remove_def stands_for_def intro!: local_toI)
  next
    case (Some c)
    then have i: "i \<in> dom (x_cache s)" by blast
    have "entry_ok c (x_exts s i)" using assms(1) Some by (simp add: xc_ok_def)
    then have "stands_for (x_cache s' i) (x_exts s' i) (effect e x) \<and> r = xOK"
      using r Some by (cases rule: stands_for_cases [OF assms(3)]) (auto simp: xc_remove_def stands_for_def entry_ok_def)
    with xc_remove_step [OF assms(1) i] r show ?thesis by (auto intro!: local_toI)
  qed
next
  case DoGetattr
  then obtain r at where g: "xc_getattr v s i zero_attr = (r, at, s')" "e = Sized i r (asize at)"
    using assms(2) by (auto simp: xdo_def split: prod.splits)
  from xc_getattr_any [OF assms(1) g(1) assms(3)] show ?thesis unfolding g(2) by simp
qed

lemma dorelease_step:
  assumes "xc_ok s" "stands_for (x_cache s i) (x_exts s i) x"
  shows "xc_ok (dorelease v s i) \<and> local_to i s (dorelease v s i) \<and> empty_entry (x_cache (dorelease v s i) i) \<and>
    stands_for (x_cache (dorelease v s i) i) (x_exts (dorelease v s i) i) (effect (Flushed i (arrives_at (x_net v))) x)"
proof -
  obtain ret s' where f: "xc_flush v s i = (ret, s')" by (cases "xc_flush v s i")
  have e: "empty_entry (x_cache s' i)"
    using f by (auto simp: xc_flush_def empty_entry_def split: option.splits prod.splits)
  moreover have "local_to i s s'"
    using xc_flush_step [OF assms(1) f] by (metis fun_upd_other local_to_def)
  moreover have "map_option e_name (x_exts s' i) = (if arrives_at (x_net v) then holds x else fst x)"
    using f by (cases rule: stands_for_cases [OF assms(2)])
      (auto simp: xc_flush_def xc_write_back_def xcall_def xs_put_def xs_remove_def arrives_at_def Let_def
        split: prod.splits net.splits if_splits option.splits)
  then have "stands_for (x_cache s' i) (x_exts s' i) (effect (Flushed i (arrives_at (x_net v))) x)"
    by (simp add: stands_for_empty_iff [OF e])
  ultimately show ?thesis
    using xc_flush_step [OF assms(1) f] f by (simp add: dorelease_def)
qed

section \<open>What a lock step does to the server's record\<close>

lemma lstep_flushed:
  "lstep s s' \<Longrightarrow> flushed lid (y_pc s' c t) \<Longrightarrow> flushed lid (y_pc s c t) \<or> flushing lid (y_pc s c t)"
  by (induction rule: lstep.induct)
    (auto simp: flushed_def flushing_def acq_goto_def split: if_splits acq_next.splits)

lemma lsc_release_holder:
  "locks_ok s \<Longrightarrow> lsc_release s lid c = Inr (ret, rt, s') \<Longrightarrow> sc_holder s' = (sc_holder s)(lid := None)"
  using caching.rel_frees [of s lid c] by (simp add: sc_release_def)

lemma lsc_acquire_holder:
  assumes "locks_ok s" "lsc_acquire s lid c = (ret, rv, s')"
  shows "sc_holder s' = sc_holder s \<or> sc_holder s lid = None \<and> sc_holder s' = (sc_holder s)(lid \<mapsto> c)"
  using caching.acq_granted [OF assms(1), of lid c s'] caching.acq_refused [OF assms(1), of lid c s'] assms(2)
  by (auto simp: sc_try_def)

lemma lstep_holder:
  assumes "lstep s s'" "linv s"
  shows "sc_holder (y_srv s') k = sc_holder (y_srv s) k \<or> sc_holder (y_srv s) k = None \<or>
    sc_holder (y_srv s') k = None \<and> (\<exists>c t. sc_holder (y_srv s) k = Some c \<and> flushed k (y_pc s c t))"
  using assms
proof (induction rule: lstep.induct)
  case (server_acquire s c t lid ret rv srv)
  from lsc_acquire_holder [OF linv_at(3) [OF server_acquire(3)] server_acquire(2)] show ?case by (cases "k = lid") auto
next
  case (release_server s c t lid ret rt srv)
  have "sc_holder (y_srv s) lid = Some c" using granted_holder(1) [OF release_server(3), of lid c t] release_server(1) by simp
  with lsc_release_holder [OF linv_at(3) [OF release_server(3)] release_server(2)] release_server(1) show ?case
    by (cases "k = lid") (auto simp: flushed_def)
next
  case (revoke_server s c t lid ret rt srv)
  have "sc_holder (y_srv s) lid = Some c" using granted_holder(1) [OF revoke_server(3), of lid c t] revoke_server(1) by simp
  with lsc_release_holder [OF linv_at(3) [OF revoke_server(3)] revoke_server(2)] revoke_server(1) show ?case
    by (cases "k = lid") (auto simp: flushed_def)
qed simp_all

section \<open>The invariant\<close>

definition seen_as :: "zsys \<Rightarrow> string option \<Rightarrow> extentid \<Rightarrow> shown \<Rightarrow> bool" where
  "seen_as z h i x \<longleftrightarrow>
     (case h of
        None \<Rightarrow> x = (map_option e_name (z_exts z i), Clean False)
      | Some c \<Rightarrow> stands_for (z_cache z c i) (z_exts z i) x)"

definition zinv :: "(extentid \<Rightarrow> shown) \<Rightarrow> zsys \<Rightarrow> bool" where
  "zinv m z \<longleftrightarrow>
     linv (z_lock z) \<and> coherent m (z_hist z) \<and> (\<forall>c. xc_ok (zview z c)) \<and>
     (\<forall>c lid. sc_holder (y_srv (z_lock z)) lid \<noteq> Some c \<longrightarrow> empty_entry (z_cache z c lid)) \<and>
     (\<forall>c t lid. flushed lid (y_pc (z_lock z) c t) \<longrightarrow> empty_entry (z_cache z c lid)) \<and>
     (\<forall>lid. seen_as z (sc_holder (y_srv (z_lock z)) lid) lid (fold extend (z_hist z) m lid))"

lemma zinvD:
  assumes "zinv m z"
  shows "linv (z_lock z)" "coherent m (z_hist z)" "xc_ok (zview z c)"
    "sc_holder (y_srv (z_lock z)) lid \<noteq> Some c \<Longrightarrow> empty_entry (z_cache z c lid)"
    "flushed lid (y_pc (z_lock z) c t) \<Longrightarrow> empty_entry (z_cache z c lid)"
    "seen_as z (sc_holder (y_srv (z_lock z)) lid) lid (fold extend (z_hist z) m lid)"
  using assms unfolding zinv_def by blast+

lemma zview_simps [simp]:
  "x_cache (zview z c) = z_cache z c" "x_exts (zview z c) = z_exts z" "zview (z\<lparr>z_lock := l\<rparr>) c = zview z c"
  by (simp_all add: zview_def)

lemma empty_entry_ok: "empty_entry (Some c) \<Longrightarrow> entry_ok c e"
  by (simp add: empty_entry_def entry_ok_def)

text \<open>A client with an empty entry sees what the server has.\<close>

lemma seen_as_empty: "empty_entry (z_cache z c i) \<Longrightarrow> seen_as z (Some c) i x \<longleftrightarrow> seen_as z None i x"
  by (simp add: seen_as_def stands_for_empty_iff)

lemma zinv_lock:
  assumes "zinv m z" "lstep (z_lock z) l"
    "\<forall>c t lid. flushing lid (y_pc (z_lock z) c t) \<longrightarrow> y_pc l c t = y_pc (z_lock z) c t"
  shows "zinv m (z\<lparr>z_lock := l\<rparr>)"
proof -
  let ?h = "sc_holder (y_srv (z_lock z))" and ?h' = "sc_holder (y_srv l)"
  note i = zinvD [OF assms(1)]
  have f: "flushed lid (y_pc (z_lock z) c t)" if "flushed lid (y_pc l c t)" for c t lid
    using lstep_flushed [OF assms(2) that] assms(3) that by (auto simp: flushed_def flushing_def)
  have e: "empty_entry (z_cache z c lid)" if "?h' lid \<noteq> Some c" for c lid
    using lstep_holder [OF assms(2) i(1), of lid] i(4) [of lid c] i(5) [of lid c] that
    by (cases "?h lid = Some c") auto
  have v: "seen_as z (?h' lid) lid (fold extend (z_hist z) m lid)" for lid
  proof -
    consider "?h' lid = ?h lid" | "?h lid = None" | c t where "?h' lid = None" "?h lid = Some c" "flushed lid (y_pc (z_lock z) c t)"
      using lstep_holder [OF assms(2) i(1), of lid] by (elim disjE exE conjE) (rule that; assumption)+
    then show ?thesis
    proof cases
      case 2
      then have "empty_entry (z_cache z c lid)" for c using i(4) [of lid c] by simp
      with 2 i(6) [of lid] show ?thesis by (cases "?h' lid") (simp_all add: seen_as_empty)
    next
      case (3 c t)
      with seen_as_empty [OF i(5) [OF 3(3)]] i(6) [of lid] show ?thesis by simp
    qed (use i(6) [of lid] in simp)
  qed
  have z: "z_lock (z\<lparr>z_lock := l\<rparr>) = l" "z_hist (z\<lparr>z_lock := l\<rparr>) = z_hist z"
    "zview (z\<lparr>z_lock := l\<rparr>) = zview z" "z_cache (z\<lparr>z_lock := l\<rparr>) = z_cache z" "seen_as (z\<lparr>z_lock := l\<rparr>) = seen_as z"
    by (simp_all add: fun_eq_iff seen_as_def split: option.splits)
  show ?thesis
    unfolding zinv_def z using linv_step [OF assms(2) i(1)] i(2,3) v e f i(5) by blast
qed

text \<open>A client that holds the lock changes its view of the extent.\<close>

lemma xdo_about: "xdo v s i a = (e, s') \<Longrightarrow> about e = i"
  by (cases a) (auto simp: xdo_def split: prod.splits)

lemma zinv_view:
  assumes "zinv m z" "sc_holder (y_srv (z_lock z)) lid = Some c" "local_to lid (zview z c) x" "xc_ok x" "about e = lid"
    and "observes (fold extend (z_hist z) m lid) e"
    and "stands_for (x_cache x lid) (x_exts x lid) (effect e (fold extend (z_hist z) m lid))"
    and "linv l" "sc_holder (y_srv l) = sc_holder (y_srv (z_lock z))"
    and "\<forall>d t k. flushed k (y_pc l d t) \<longrightarrow> flushed k (y_pc (z_lock z) d t) \<and> (k, d) \<noteq> (lid, c) \<or>
      k = lid \<and> d = c \<and> empty_entry (x_cache x lid)"
  shows "zinv m (set_view c x (z\<lparr>z_lock := l, z_hist := z_hist z @ [e]\<rparr>))" (is "zinv m ?z")
proof -
  let ?h = "sc_holder (y_srv (z_lock z))" and ?m = "fold extend (z_hist z) m"
  note i = zinvD [OF assms(1)]
  have z: "z_lock ?z = l" "z_hist ?z = z_hist z @ [e]" "zview ?z d = (if d = c then x else \<lparr>x_cache = z_cache z d, x_exts = x_exts x\<rparr>)"
    "z_exts ?z = x_exts x" "z_cache ?z d = (if d = c then x_cache x else z_cache z d)" for d
    by (simp_all add: set_view_def zview_def)
  have x: "x_cache x j = z_cache z c j" "x_exts x j = z_exts z j" if "j \<noteq> lid" for j
    using assms(3) that by (simp_all add: local_to_def)
  have ok: "xc_ok (zview ?z d)" for d
  proof (cases "d = c")
    case False
    have "xs_ok (x_exts x)" using assms(4) by (simp add: xc_ok_def)
    moreover have "entry_ok e (x_exts x lid)" if "z_cache z d lid = Some e" for e
      using i(4) [of lid d] assms(2) False that empty_entry_ok by auto
    ultimately show ?thesis
      using False x(2) by (intro xc_ok_local [OF i(3) [of d], of _ lid]) (simp_all add: z)
  qed (simp add: z assms(4))
  have em: "empty_entry (z_cache ?z d k)" if "?h k \<noteq> Some d" for d k
    using i(4) [OF that] x(1) [of k] assms(2) that by (cases "k = lid") (auto simp: z)
  have f: "empty_entry (z_cache ?z d k)" if "flushed k (y_pc l d t)" for d k t
    using assms(10) that i(5) [of k d t] x(1) [of k] by (cases "k = lid") (auto simp: z)
  have v: "seen_as ?z (?h k) k (fold extend (z_hist z @ [e]) m k)" for k
  proof (cases "k = lid")
    case True
    with assms(2,5,7) show ?thesis by (simp add: z seen_as_def extend_apply)
  next
    case False
    with i(6) [of k] x [OF False] assms(5) show ?thesis by (auto simp: z seen_as_def extend_apply split: option.splits)
  qed
  have "coherent m (z_hist z @ [e])" using i(2) assms(5,6) by (simp add: coherent_append)
  then show ?thesis unfolding zinv_def z(1,2) assms(9) using assms(8) ok em f v by blast
qed

lemma busy_unique: "linv s \<Longrightarrow> busy lid (y_pc s c t) \<Longrightarrow> busy lid (y_pc s c u) \<Longrightarrow> u = t"
  using linv_at(1) [of s lid c] unfolding cli_ok_def by blast

lemma zinv_access:
  assumes "zinv m z" "y_pc (z_lock z) c t = Crit lid" "xdo v (zview z c) lid a = (e, x)"
  shows "zinv m (set_view c x (z\<lparr>z_hist := z_hist z @ [e]\<rparr>))"
proof -
  note i = zinvD [OF assms(1)]
  have g: "granted lid (y_pc (z_lock z) c t)" using assms(2) by simp
  note h = granted_holder(1) [OF i(1) g]
  have sf: "stands_for (x_cache (zview z c) lid) (x_exts (zview z c) lid) (fold extend (z_hist z) m lid)"
    using i(6) [of lid] h by (simp add: seen_as_def)
  note s = xdo_step [OF i(3) assms(3) sf]
  have nf: "\<not> flushed lid (y_pc (z_lock z) c u)" for u
    using busy_unique [OF i(1), of lid c t u] assms(2) by (auto simp: flushed_def)
  have "zinv m (set_view c x (z\<lparr>z_lock := z_lock z, z_hist := z_hist z @ [e]\<rparr>))"
  proof (rule zinv_view [OF assms(1) h])
    show "\<forall>d t k. flushed k (y_pc (z_lock z) d t) \<longrightarrow> flushed k (y_pc (z_lock z) d t) \<and> (k, d) \<noteq> (lid, c) \<or>
      k = lid \<and> d = c \<and> empty_entry (x_cache x lid)" using nf by auto
  qed (use s i(1) xdo_about [OF assms(3)] in auto)
  then show ?thesis by simp
qed

lemma zinv_flush:
  assumes "zinv m z" "flushing lid (y_pc (z_lock z) c t)"
  shows "zinv m (set_view c (dorelease v (zview z c) lid)
    (z\<lparr>z_lock := goto (z_lock z) c t (after_flush (y_pc (z_lock z) c t)),
       z_hist := z_hist z @ [Flushed lid (arrives_at (x_net v))]\<rparr>))"
proof -
  let ?l = "goto (z_lock z) c t (after_flush (y_pc (z_lock z) c t))"
  note i = zinvD [OF assms(1)]
  have g: "granted lid (y_pc (z_lock z) c t)" using assms(2) by (auto simp: flushing_def)
  note h = granted_holder(1) [OF i(1) g]
  have sf: "stands_for (x_cache (zview z c) lid) (x_exts (zview z c) lid) (fold extend (z_hist z) m lid)"
    using i(6) [of lid] h by (simp add: seen_as_def)
  note s = dorelease_step [OF i(3) sf, of v]
  have l: "lstep (z_lock z) ?l"
    using assms(2) by (auto simp: flushing_def after_flush_def intro: release_flush revoke_flush)
  show ?thesis
  proof (rule zinv_view [OF assms(1) h])
    show "linv ?l" using linv_step [OF l i(1)] .
    have "flushed k (y_pc ?l d u) \<Longrightarrow> flushed k (y_pc (z_lock z) d u) \<or> k = lid \<and> d = c" for k d u
      using assms(2) by (auto simp: flushed_def flushing_def after_flush_def split: if_splits)
    with s show "\<forall>d t k. flushed k (y_pc ?l d t) \<longrightarrow> flushed k (y_pc (z_lock z) d t) \<and> (k, d) \<noteq> (lid, c) \<or>
      k = lid \<and> d = c \<and> empty_entry (x_cache (dorelease v (zview z c) lid) lid)" by blast
  qed (use s in auto)
qed

text \<open>At the beginning no lock is given out.\<close>

definition at_rest :: "exts \<Rightarrow> extentid \<Rightarrow> shown" where
  "at_rest e i = (xs_contents e i, Clean False)"

lemma zinv_init: "xs_ok e \<Longrightarrow> zinv (at_rest e) (zinit e)"
  using linv_init
  by (auto simp: zinv_def zinit_def zview_def xc_ok_def empty_entry_def lsys_init_def sc_holder_def lock_at_def
      free_lock_def abs_holder_def seen_as_def at_rest_def xs_contents_def)

lemma zinv_step: "zstep z z' \<Longrightarrow> zinv m z \<Longrightarrow> zinv m z'"
  by (induction rule: zstep.induct) (rule zinv_lock zinv_flush zinv_access; assumption)+

lemma zinv_reachable: "zreachable e z \<Longrightarrow> xs_ok e \<Longrightarrow> zinv (at_rest e) z"
  unfolding zreachable_def by (induction rule: rtranclp_induct) (auto intro: zinv_init zinv_step)

section \<open>Properties\<close>

text \<open>(C1) Coherence of the caches. In every run of the file service, with any number of clients and
  threads, whatever revoke and retry messages arrive and whatever calls to the extent server fail, the
  answers to all accesses that threads make in the critical section of the extent's lock are those of one
  copy of the extent. A read gives the contents that were written last by anyone, or fails because the server
  could not be asked, which happens only if the contents were not read or written since the lock was
  acquired. After a removal a read gives the removed contents until the lock is given back, and NOENT from
  then on. A size that is reported for an extent that is not removed is the size of these contents. A flush
  whose call does not reach the server makes the contents at the server the last ones.\<close>

theorem reads_are_coherent:
  assumes "xs_ok e" "zreachable e z"
  shows "coherent (at_rest e) (z_hist z)"
  using zinvD(2) [OF zinv_reachable [OF assms(2,1)]] .

theorem reads_are_coherent_witness:
  "\<exists>z. zreachable (extent_server_new 3) z \<and> z_hist z = [Put 7 [8], Got 7 xOK [8]] \<and>
     coherent (at_rest (extent_server_new 3)) (z_hist z)"
proof -
  let ?e = "extent_server_new 3" and ?v = "\<lparr>x_now = 5, x_srv_now = 6, x_net = Delivered\<rparr>"
  from crit_path obtain s1 s2 s3 s4 where st: "lstep lsys_init s1" "lstep s1 s2" "lstep s2 s3" "lstep s3 s4"
    and crit: "y_pc s4 ''a'' 0 = Crit 7"
    and pcs: "\<forall>s \<in> {lsys_init, s1, s2, s3}. \<forall>c t. y_pc s c t \<in> {Idle, AcqLoop 7, AcqCall 7, AcqRet 7 OK}"
    by (elim exE conjE) (rule that)
  let ?z = "\<lambda>l. (zinit ?e)\<lparr>z_lock := l\<rparr>"
  have nf: "\<not> flushing lid (y_pc s c t)" if "s \<in> {lsys_init, s1, s2, s3}" for s c t lid
    using bspec [OF pcs that, THEN spec, THEN spec, of c t] by (auto simp: flushing_def)
  have lk: "zstep (?z l) (?z l')" if "lstep l l'" "l \<in> {lsys_init, s1, s2, s3}" for l l'
    using zstep.lock [of "?z l" l'] that nf [OF that(2)] by simp
  have "zstep (?z lsys_init) (?z s1)" "zstep (?z s1) (?z s2)" "zstep (?z s2) (?z s3)" "zstep (?z s3) (?z s4)"
    using lk st by simp_all
  then have "zstep\<^sup>*\<^sup>* (?z lsys_init) (?z s4)"
    by (meson converse_rtranclp_into_rtranclp rtranclp.rtrancl_refl)
  moreover have "?z lsys_init = zinit ?e" by (simp add: zinit_def)
  ultimately have r: "zstep\<^sup>*\<^sup>* (zinit ?e) (?z s4)" by simp
  obtain x1 where x1: "xdo ?v (zview (?z s4) ''a'') 7 (DoPut [8]) = (Put 7 [8], x1)"
    by (simp add: xdo_def xc_put_def Let_def)
  let ?z1 = "set_view ''a'' x1 ((?z s4)\<lparr>z_hist := [Put 7 [8]]\<rparr>)"
  have z1: "zstep (?z s4) ?z1" using zstep.access [of "?z s4" "''a''" 0 7, OF _ x1] crit by (simp add: zinit_def)
  have "zview ?z1 ''a'' = x1" by (simp add: zview_def set_view_def)
  then obtain x2 where x2: "xdo ?v (zview ?z1 ''a'') 7 DoGet = (Got 7 xOK [8], x2)"
    using x1 by (auto simp: xdo_def xc_put_def xc_get_def xc_at_def Let_def)
  let ?z2 = "set_view ''a'' x2 (?z1\<lparr>z_hist := z_hist ?z1 @ [Got 7 xOK [8]]\<rparr>)"
  have "zstep ?z1 ?z2" by (rule zstep.access [OF _ x2]) (use crit in \<open>simp add: set_view_def\<close>)
  then have z: "zreachable ?e ?z2" using r z1 unfolding zreachable_def by (meson rtranclp.rtrancl_into_rtrancl)
  show ?thesis
    using reads_are_coherent [OF xs_ok_server_new z] z by (intro exI [of _ ?z2]) (simp add: set_view_def)
qed

end
