(* ===== verification/Dir_Format.thy ===== *)
theory Dir_Format
  imports Prelude
begin

text \<open>
  How \<^verbatim>\<open>yfs_client.cc\<close> keeps a directory in a string: \<^verbatim>\<open>inum/name/inum/name/...\<close>, inode numbers in
  decimal. Here are the string operations the code uses (those of \<^verbatim>\<open>std::string\<close> and of the number
  conversion of \<^verbatim>\<open>iostream\<close>), the conversions \<^verbatim>\<open>filename\<close> and \<^verbatim>\<open>n2i\<close>, the search for an entry and
  the loop of \<^verbatim>\<open>fuseserver_readdir\<close>, and what they do on strings of that form.
\<close>

section \<open>Strings\<close>

definition slash :: byte where "slash = 47"

text \<open>\<^verbatim>\<open>std::string::find\<close> of a string, \<^verbatim>\<open>rfind\<close> and \<^verbatim>\<open>find_first_of\<close> of a character; \<open>None\<close> is
  \<^verbatim>\<open>npos\<close>.\<close>

fun find_sub :: "'a list \<Rightarrow> 'a list \<Rightarrow> nat option" where
  "find_sub t [] = (if t = [] then Some 0 else None)"
| "find_sub t (x # xs) = (if take (length t) (x # xs) = t then Some 0 else map_option Suc (find_sub t xs))"

definition rfind_char :: "'a list \<Rightarrow> 'a \<Rightarrow> nat \<Rightarrow> nat option" where
  "rfind_char s c pos =
     (case filter (\<lambda>i. s ! i = c) [0..<min (Suc pos) (length s)] of [] \<Rightarrow> None | is \<Rightarrow> Some (last is))"

definition find_first_of :: "'a list \<Rightarrow> 'a \<Rightarrow> nat \<Rightarrow> nat option" where
  "find_first_of s c pos = find (\<lambda>i. s ! i = c) [pos..<length s]"

definition substr :: "'a list \<Rightarrow> nat \<Rightarrow> nat \<Rightarrow> 'a list res" where
  "substr s pos n = (if length s < pos then Inl OutOfRange else Inr (take n (drop pos s)))"

section \<open>Inode numbers in decimal\<close>

fun decimal :: "nat \<Rightarrow> byte list" where
  "decimal n = (if n < 10 then [48 + of_nat n] else decimal (n div 10) @ [48 + of_nat (n mod 10)])"

declare decimal.simps [simp del]

definition filename :: "u64 \<Rightarrow> byte list" where
  "filename i = decimal (unat i)"

definition isspace :: "byte \<Rightarrow> bool" where
  "isspace b \<longleftrightarrow> b = 32 \<or> 9 \<le> b \<and> b \<le> 13"

definition isdigit :: "byte \<Rightarrow> bool" where
  "isdigit b \<longleftrightarrow> 48 \<le> b \<and> b \<le> 57"

definition digits_val :: "byte list \<Rightarrow> nat" where
  "digits_val ds = foldl (\<lambda>v d. 10 * v + (unat d - 48)) 0 ds"

text \<open>Extraction of an \<^verbatim>\<open>unsigned long long\<close> from a stream: white space, a sign, digits; zero if there
  are none, the greatest value if there are too many.\<close>

definition n2i :: "byte list \<Rightarrow> u64" where
  "n2i s =
     (let t = dropWhile isspace s;
          neg = (t \<noteq> [] \<and> hd t = 45);
          u = (if t \<noteq> [] \<and> (hd t = 45 \<or> hd t = 43) then tl t else t);
          ds = takeWhile isdigit u; v = digits_val ds
      in if ds = [] then 0 else if 2 ^ 64 \<le> v then - 1 else if neg then - of_nat v else of_nat v)"

section \<open>Directories\<close>

type_synonym dirent = "u64 \<times> byte list"

definition dir_entry :: "dirent \<Rightarrow> byte list" where
  "dir_entry e = filename (fst e) @ [slash] @ snd e @ [slash]"

definition dir_bytes :: "dirent list \<Rightarrow> byte list" where
  "dir_bytes es = concat (map dir_entry es)"

text \<open>The pattern that is searched for, and where the entry begins whose name starts after the slash
  at \<open>found\<close>; \<open>found - 1\<close> is a \<^verbatim>\<open>size_t\<close>, so the search goes over the whole string for 0.\<close>

definition name_pattern :: "byte list \<Rightarrow> byte list" where
  "name_pattern name = [slash] @ name @ [slash]"

definition entry_left :: "byte list \<Rightarrow> nat \<Rightarrow> nat" where
  "entry_left b found =
     (case rfind_char b slash (if found = 0 then length b else found - 1) of None \<Rightarrow> 0 | Some l \<Rightarrow> Suc l)"

text \<open>The loop of \<^verbatim>\<open>fuseserver_readdir\<close>.\<close>

lemma find_first_of_Some: "find_first_of s c pos = Some i \<Longrightarrow> pos \<le> i \<and> i < length s \<and> s ! i = c"
  by (auto simp: find_first_of_def find_Some_iff)

function readdir_loop :: "byte list \<Rightarrow> nat \<Rightarrow> dirent list" where
  "readdir_loop buf left =
     (case find_first_of buf slash left of
        None \<Rightarrow> []
      | Some mid \<Rightarrow>
          (case find_first_of buf slash (Suc mid) of
             None \<Rightarrow> []
           | Some e \<Rightarrow>
               (n2i (take (mid - left) (drop left buf)), take (e - mid - 1) (drop (Suc mid) buf)) #
               readdir_loop buf (Suc e)))"
  by auto
termination
  by (relation "measure (\<lambda>(buf, left). length buf - left)") (auto dest!: find_first_of_Some)

declare readdir_loop.simps [simp del]

text \<open>A name as the code expects it: not empty and without a slash.\<close>

definition name_ok :: "byte list \<Rightarrow> bool" where
  "name_ok n \<longleftrightarrow> n \<noteq> [] \<and> slash \<notin> set n"

section \<open>Decimal numbers\<close>

lemma digit_char: "n < 10 \<Longrightarrow> isdigit (48 + of_nat n) \<and> unat (48 + of_nat n :: byte) - 48 = n"
proof -
  assume n: "n < 10"
  have u: "unat (48 + of_nat n :: byte) = 48 + n"
    using n by (simp add: unat_word_ariths unsigned_of_nat take_bit_nat_eq_self)
  with n show ?thesis by (simp add: isdigit_def word_le_nat_alt)
qed

lemma digit_not_special: "isdigit b \<Longrightarrow> \<not> isspace b \<and> b \<noteq> 45 \<and> b \<noteq> 43 \<and> b \<noteq> slash"
  by (auto simp: isdigit_def isspace_def slash_def word_le_nat_alt)

lemma decimal_digits: "decimal n \<noteq> [] \<and> (\<forall>b \<in> set (decimal n). isdigit b)"
proof (induction n rule: decimal.induct)
  case (1 n)
  then show ?case by (subst (1 2) decimal.simps) (auto simp: digit_char)
qed

lemma digits_val_snoc: "digits_val (ds @ [d]) = 10 * digits_val ds + (unat d - 48)"
  by (simp add: digits_val_def)

lemma digits_val_decimal: "digits_val (decimal n) = n"
proof (induction n rule: decimal.induct)
  case (1 n)
  show ?case
  proof (cases "n < 10")
    case True
    then show ?thesis using digit_char [of n] by (subst decimal.simps) (simp add: digits_val_def)
  next
    case False
    with 1 digit_char [of "n mod 10"] show ?thesis by (subst decimal.simps) (simp add: digits_val_snoc)
  qed
qed

lemma filename_nonempty [simp]: "filename i \<noteq> []"
  using decimal_digits by (simp add: filename_def)

lemma slash_notin_filename [simp]: "slash \<notin> set (filename i)"
  using decimal_digits digit_not_special by (auto simp: filename_def)

lemma n2i_filename [simp]: "n2i (filename i) = i"
proof -
  have d: "\<forall>b \<in> set (filename i). isdigit b" "filename i \<noteq> []" using decimal_digits by (simp_all add: filename_def)
  then have h: "isdigit (hd (filename i))" by simp
  have dw: "dropWhile isspace (filename i) = filename i"
    using d(2) digit_not_special [OF h] by (cases "filename i") simp_all
  have tw: "takeWhile isdigit (filename i) = filename i" using d(1) by (simp add: takeWhile_eq_all_conv)
  have "digits_val (filename i) = unat i" by (simp add: filename_def digits_val_decimal)
  moreover have "unat i < 2 ^ 64" using unsigned_less [of i] by simp
  moreover have "hd (filename i) \<noteq> 45 \<and> hd (filename i) \<noteq> 43" using digit_not_special [OF h] by simp
  ultimately show ?thesis using d(2) unfolding n2i_def dw Let_def by (simp add: tw del: takeWhile_eq_all_conv)
qed

section \<open>Searching\<close>

text \<open>A directory is a sequence of words, each ended by a slash.\<close>

definition join :: "byte list list \<Rightarrow> byte list" where
  "join us = concat (map (\<lambda>u. u @ [slash]) us)"

definition dir_words :: "dirent list \<Rightarrow> byte list list" where
  "dir_words es = concat (map (\<lambda>e. [filename (fst e), snd e]) es)"

fun word_pos :: "byte list \<Rightarrow> byte list list \<Rightarrow> nat option" where
  "word_pos n [] = None"
| "word_pos n (u # us) = (if u = n then Some 0 else map_option (\<lambda>k. k + length u + 1) (word_pos n us))"

lemma join_simps [simp]: "join [] = []" "join (u # us) = u @ slash # join us" "join (us @ vs) = join us @ join vs"
  by (simp_all add: join_def)

lemma dir_words_simps [simp]: "dir_words [] = []" "dir_words (e # es) = filename (fst e) # snd e # dir_words es"
  "dir_words (es @ fs) = dir_words es @ dir_words fs"
  by (simp_all add: dir_words_def)

lemma dir_bytes_simps [simp]: "dir_bytes [] = []" "dir_bytes (es @ fs) = dir_bytes es @ dir_bytes fs"
  "dir_bytes (e # es) = filename (fst e) @ slash # snd e @ slash # dir_bytes es"
  by (simp_all add: dir_bytes_def dir_entry_def)

lemma dir_bytes_join: "dir_bytes es = join (dir_words es)"
  by (induction es) simp_all

lemma find_sub_skip:
  assumes "c \<notin> set u"
  shows "find_sub (c # t) (u @ r) = map_option (\<lambda>k. k + length u) (find_sub (c # t) r)"
  using assms by (induction u) (auto simp: option.map_comp o_def option.map_ident)

lemma take_word:
  assumes "c \<notin> set n" "c \<notin> set u"
  shows "take (Suc (length n)) (u @ c # r) = n @ [c] \<longleftrightarrow> u = n"
  using assms
proof (induction n arbitrary: u)
  case Nil
  then show ?case by (cases u) auto
next
  case (Cons x n)
  then show ?case by (cases u) auto
qed

lemma find_sub_words:
  assumes "slash \<notin> set n" "\<forall>u \<in> set us. slash \<notin> set u"
  shows "find_sub (name_pattern n) (slash # join us) = word_pos n us"
  using assms(2)
proof (induction us)
  case (Cons u us)
  have "find_sub (name_pattern n) (u @ slash # join us) = map_option (\<lambda>k. k + length u) (word_pos n us)"
    using Cons find_sub_skip [of slash u "n @ [slash]" "slash # join us"] by (simp add: name_pattern_def)
  then show ?case
    using take_word [OF assms(1), of u "join us"] Cons.prems
    by (auto simp: name_pattern_def option.map_comp o_def intro!: map_option_cong)
qed (simp add: name_pattern_def)

lemma find_sub_join:
  assumes "slash \<notin> set n" "\<forall>v \<in> set (u # us). slash \<notin> set v"
  shows "find_sub (name_pattern n) (join (u # us)) = map_option (\<lambda>k. k + length u) (word_pos n us)"
  using assms find_sub_words [OF assms(1), of us] find_sub_skip [of slash u "n @ [slash]" "slash # join us"]
  by (simp add: name_pattern_def)

lemma word_pos_hit: "n \<notin> set us \<Longrightarrow> word_pos n (us @ n # vs) = Some (length (join us))"
  by (induction us) auto

lemma word_pos_miss: "n \<notin> set us \<Longrightarrow> word_pos n us = None"
  by (induction us) auto

lemma set_dir_words: "set (dir_words es) = filename ` fst ` set es \<union> snd ` set es"
  by (induction es) auto

lemma dir_words_slash:
  assumes "\<forall>e \<in> set es. name_ok (snd e)"
  shows "\<forall>u \<in> set (dir_words es). slash \<notin> set u \<and> u \<noteq> []"
proof
  fix u assume "u \<in> set (dir_words es)"
  then consider i where "u = filename i" | e where "e \<in> set es" "u = snd e" unfolding set_dir_words by blast
  then show "slash \<notin> set u \<and> u \<noteq> []"
  proof cases
    case (2 e)
    with assms show ?thesis by (simp add: name_ok_def)
  qed simp
qed

text \<open>Searching the last slash before a position in the word that follows \<open>p\<close>.\<close>

lemma rfind_char_before:
  assumes "c \<notin> set u" "u \<noteq> []" "p = [] \<or> last p = c"
  shows "rfind_char (p @ u @ r) c (length p + length u - 1) = (if p = [] then None else Some (length p - 1))"
proof -
  let ?s = "p @ u @ r" and ?n = "length p + length u"
  have m: "min (Suc (?n - 1)) (length ?s) = ?n" using assms(2) by (cases u) auto
  have up: "[0..<?n] = [0..<length p] @ [length p..<?n]" by (rule upt_add_eq_append) simp
  have u: "filter (\<lambda>i. ?s ! i = c) [length p..<?n] = []"
    using assms(1) by (auto simp: filter_empty_conv nth_append in_set_conv_nth)
  show ?thesis
  proof (cases "p = []")
    case True
    with u m show ?thesis by (simp add: rfind_char_def)
  next
    case False
    then have l: "[0..<length p] = [0..<length p - 1] @ [length p - 1]"
      by (cases "length p") simp_all
    have "?s ! (length p - 1) = c" using False assms(3) by (simp add: nth_append last_conv_nth)
    then have "filter (\<lambda>i. ?s ! i = c) [0..<?n] = filter (\<lambda>i. ?s ! i = c) [0..<length p - 1] @ [length p - 1]"
      unfolding up l filter_append u by simp
    moreover have "(case xs @ [x] of [] \<Rightarrow> None | is \<Rightarrow> Some (last is)) = Some x" for xs and x :: nat
      by (cases xs) simp_all
    ultimately show ?thesis using False m by (simp add: rfind_char_def)
  qed
qed

lemma join_Nil_iff [simp]: "join us = [] \<longleftrightarrow> us = []"
  by (cases us) simp_all

lemma last_join: "us \<noteq> [] \<Longrightarrow> last (join us) = slash"
  by (induction us) auto

lemma entry_left_word:
  assumes "slash \<notin> set u" "u \<noteq> []"
  shows "entry_left (join us @ u @ r) (length (join us) + length u) = length (join us)"
proof -
  have "join us = [] \<or> last (join us) = slash" using last_join by (cases "us = []") auto
  from rfind_char_before [OF assms this, of r] assms(2) show ?thesis by (auto simp: entry_left_def)
qed

text \<open>An entry is found where it is, provided no entry before it has that name and no inode number
  after the first reads like it.\<close>

lemma find_entry:
  assumes "\<forall>e \<in> set (es @ (i, n) # fs). name_ok (snd e)" "n \<notin> snd ` set es" "n \<notin> filename ` fst ` set (tl (es @ [(i, n)]))"
  shows "find_sub (name_pattern n) (dir_bytes (es @ (i, n) # fs)) = Some (length (dir_bytes es) + length (filename i))"
proof -
  let ?pre = "dir_words es @ [filename i]"
  have w: "dir_words (es @ (i, n) # fs) = ?pre @ n # dir_words fs" by simp
  obtain u us where u: "?pre = u # us" by (cases ?pre) auto
  have "n \<notin> set us"
  proof (cases es)
    case Nil
    with u show ?thesis by simp
  next
    case (Cons e es')
    then have us: "us = snd e # dir_words es' @ [filename i]" using u by simp
    with assms(2,3) Cons show ?thesis by (auto simp: set_dir_words)
  qed
  then have "word_pos n (us @ n # dir_words fs) = Some (length (join us))" by (rule word_pos_hit)
  moreover have "slash \<notin> set n" "\<forall>v \<in> set (u # us @ n # dir_words fs). slash \<notin> set v"
    using dir_words_slash [OF assms(1)] assms(1) unfolding w u by (auto simp: name_ok_def)
  moreover have "dir_bytes (es @ (i, n) # fs) = join (u # us @ n # dir_words fs)"
    unfolding dir_bytes_join w u by simp
  ultimately have "find_sub (name_pattern n) (dir_bytes (es @ (i, n) # fs)) = Some (length (join us) + length u)"
    using find_sub_join [of n u "us @ n # dir_words fs"] by simp
  moreover have "length (join us) + length u = length (dir_bytes es) + length (filename i)"
    using arg_cong [OF u, of "\<lambda>l. length (join l)"] by (simp add: dir_bytes_join)
  ultimately show ?thesis by simp
qed

lemma find_no_entry:
  assumes "\<forall>e \<in> set es. name_ok (snd e)" "n \<notin> snd ` set es" "n \<notin> filename ` fst ` set (tl es)" "slash \<notin> set n"
  shows "find_sub (name_pattern n) (dir_bytes es) = None"
proof (cases es)
  case Nil
  then show ?thesis by (simp add: name_pattern_def)
next
  case (Cons e es')
  have "n \<notin> set (snd e # dir_words es')" using assms(2,3) Cons by (auto simp: set_dir_words)
  from word_pos_miss [OF this] find_sub_join [OF assms(4), of "filename (fst e)" "snd e # dir_words es'"]
    dir_words_slash [OF assms(1)] Cons show ?thesis by (simp add: dir_bytes_join)
qed

lemma entry_left_entry: "entry_left (dir_bytes (es @ (i, n) # fs)) (length (dir_bytes es) + length (filename i)) = length (dir_bytes es)"
  using entry_left_word [of "filename i" "dir_words es"] by (simp add: dir_bytes_join)

section \<open>Listing\<close>

lemma find_first_of_word:
  assumes "c \<notin> set u"
  shows "find_first_of (p @ u @ c # r) c (length p) = Some (length p + length u)"
proof -
  let ?s = "p @ u @ c # r"
  have "[length p..<length ?s] = [length p..<length p + length u] @ [length p + length u..<length ?s]"
    using upt_add_eq_append [of "length p" "length p + length u" "Suc (length r)"] by (simp add: algebra_simps)
  moreover have "find (\<lambda>i. ?s ! i = c) [length p..<length p + length u] = None"
    using assms by (auto simp: find_None_iff nth_append in_set_conv_nth)
  moreover have "find (\<lambda>i. ?s ! i = c) [length p + length u..<length ?s] = Some (length p + length u)"
    by (subst upt_conv_Cons) (simp_all add: nth_append)
  moreover have "find P (xs @ ys) = (case find P xs of None \<Rightarrow> find P ys | Some x \<Rightarrow> Some x)" for P and xs ys :: "nat list"
    by (induction xs) auto
  ultimately show ?thesis by (simp add: find_first_of_def)
qed

lemma readdir_loop_entry:
  assumes "slash \<notin> set u" "slash \<notin> set n"
  shows "readdir_loop (p @ u @ slash # n @ slash # r) (length p) =
    (n2i u, n) # readdir_loop (p @ u @ slash # n @ slash # r) (length p + length u + length n + 2)"
proof -
  have 1: "find_first_of (p @ u @ slash # n @ slash # r) slash (length p) = Some (length p + length u)"
    using find_first_of_word [OF assms(1)] .
  have 2: "find_first_of (p @ u @ slash # n @ slash # r) slash (Suc (length p + length u)) =
      Some (Suc (length p + length u) + length n)"
    using find_first_of_word [OF assms(2), of "p @ u @ [slash]" r] by simp
  show ?thesis by (subst readdir_loop.simps) (simp add: 1 2)
qed

lemma readdir_loop_end: "readdir_loop p (length p) = []"
  by (subst readdir_loop.simps) (simp add: find_first_of_def)

lemma readdir_loop_entries:
  "\<forall>e \<in> set es. name_ok (snd e) \<Longrightarrow> readdir_loop (p @ dir_bytes es) (length p) = es"
proof (induction es arbitrary: p)
  case (Cons e es)
  obtain i n where e: "e = (i, n)" by (cases e)
  let ?q = "p @ filename i @ slash # n @ [slash]"
  have "slash \<notin> set n" using Cons.prems e by (simp add: name_ok_def)
  from readdir_loop_entry [OF slash_notin_filename [of i] this, of p "dir_bytes es"] Cons.IH [of ?q] Cons.prems e
  show ?case by (simp add: numeral_2_eq_2 algebra_simps)
qed (simp add: readdir_loop_end)

section \<open>Properties\<close>

text \<open>Listing a directory gives back its entries: the loop of \<^verbatim>\<open>fuseserver_readdir\<close> terminates on every
  string, and on a string built from entries whose names are not empty and have no slash it
  returns exactly these entries, in order, with their inode numbers.\<close>

theorem readdir_lists_entries:
  assumes "\<forall>e \<in> set es. name_ok (snd e)"
  shows "readdir_loop (dir_bytes es) 0 = es"
  using readdir_loop_entries [OF assms, of "[]"] by simp

theorem readdir_lists_entries_witness:
  "readdir_loop (dir_bytes [(12, [97]), (3000000000, [98, 99])]) 0 = [(12, [97]), (3000000000, [98, 99])]"
  by (rule readdir_lists_entries) (simp add: name_ok_def slash_def)

end
