(* ===== verification/Yfs_Client.thy ===== *)
theory Yfs_Client
  imports Dir_Format Extent_Client
begin

text \<open>
  The file system operations of \<^verbatim>\<open>yfs_client.h\<close> and \<^verbatim>\<open>yfs_client.cc\<close>. An operation is a function on the
  state of one client thread: its extent client, the locks it holds, and the log of what it locked,
  unlocked and used. What the surroundings decide (clocks, whether calls come back, random
  numbers, whether a revoke is pending when a lock is released) comes from the stream of
  environments in the state, one for each primitive step.
\<close>

section \<open>State and primitive steps\<close>

record yenv =
  ye_x :: xenv
  ye_rand :: u32
  ye_revoke :: bool

datatype lk_event = LAcq u64 | LRel u64 | LUse u64

record yst =
  ys_x :: xstate
  ys_held :: "u64 list"
  ys_log :: "lk_event list"
  ys_env :: "nat \<Rightarrow> yenv"
  ys_n :: nat

type_synonym 'a ym = "yst \<Rightarrow> ('a \<times> yst) res"

definition yreturn :: "'a \<Rightarrow> 'a ym" where
  "yreturn r s = Inr (r, s)"

definition ybind :: "'a ym \<Rightarrow> ('a \<Rightarrow> 'b ym) \<Rightarrow> 'b ym" where
  "ybind m k s = rbind (m s) (\<lambda>(r, s'). k r s')"

definition yfail :: "fault \<Rightarrow> 'a ym" where
  "yfail f s = Inl f"

definition yres :: "'a res \<Rightarrow> 'a ym" where
  "yres r s = rbind r (\<lambda>x. Inr (x, s))"

definition yassert :: "bool \<Rightarrow> unit ym" where
  "yassert p = yres (verify p)"

definition cur :: "yst \<Rightarrow> yenv" where
  "cur s = ys_env s (ys_n s)"

definition advance :: "xstate \<Rightarrow> lk_event \<Rightarrow> yst \<Rightarrow> yst" where
  "advance x ev s = s\<lparr>ys_x := x, ys_log := ys_log s @ [ev], ys_n := Suc (ys_n s)\<rparr>"

text \<open>The calls of the extent client.\<close>

definition ec_get :: "u64 \<Rightarrow> (int \<times> byte list) ym" where
  "ec_get i s = (case xc_get (ye_x (cur s)) (ys_x s) i [] of (r, b, x) \<Rightarrow> Inr ((r, b), advance x (LUse i) s))"

definition ec_getattr :: "u64 \<Rightarrow> (int \<times> attr) ym" where
  "ec_getattr i s =
     (case xc_getattr (ye_x (cur s)) (ys_x s) i zero_attr of (r, a, x) \<Rightarrow> Inr ((r, a), advance x (LUse i) s))"

definition ec_put :: "u64 \<Rightarrow> byte list \<Rightarrow> int ym" where
  "ec_put i b s = (case xc_put (ye_x (cur s)) (ys_x s) i b of (r, x) \<Rightarrow> Inr (r, advance x (LUse i) s))"

definition ec_remove :: "u64 \<Rightarrow> int ym" where
  "ec_remove i s = (case xc_remove (ys_x s) i of (r, x) \<Rightarrow> Inr (r, advance x (LUse i) s))"

text \<open>\<^verbatim>\<open>ScopedLockClient\<close>: the lock is taken, and given back when the block is left, whichever way. A
  thread that takes a lock it has waits for itself. Where a revoke is pending the lock client calls
  \<^verbatim>\<open>dorelease\<close>, which flushes the extent.\<close>

definition lc_acquire :: "u64 \<Rightarrow> unit ym" where
  "lc_acquire i s =
     (if i \<in> set (ys_held s) then Inl Deadlock
      else Inr ((), (advance (ys_x s) (LAcq i) s)\<lparr>ys_held := i # ys_held s\<rparr>))"

definition lc_release :: "u64 \<Rightarrow> unit ym" where
  "lc_release i s =
     (let x = (if ye_revoke (cur s) then snd (xc_flush (ye_x (cur s)) (ys_x s) i) else ys_x s)
      in Inr ((), (advance x (LRel i) s)\<lparr>ys_held := remove1 i (ys_held s)\<rparr>))"

definition scoped_lock :: "u64 \<Rightarrow> 'a ym \<Rightarrow> 'a ym" where
  "scoped_lock i m = ybind (lc_acquire i) (\<lambda>_. ybind m (\<lambda>r. ybind (lc_release i) (\<lambda>_. yreturn r)))"

section \<open>Inode numbers\<close>

abbreviation (input) yOK :: int where "yOK \<equiv> 0"
abbreviation (input) yNOENT :: int where "yNOENT \<equiv> 2"
abbreviation (input) yIOERR :: int where "yIOERR \<equiv> 3"
abbreviation (input) yEXIST :: int where "yEXIST \<equiv> 4"

definition isfile :: "u64 \<Rightarrow> bool" where
  "isfile i \<longleftrightarrow> i AND 0x80000000 \<noteq> 0"

definition isdir :: "u64 \<Rightarrow> bool" where
  "isdir i \<longleftrightarrow> \<not> isfile i"

text \<open>The \<^verbatim>\<open>int\<close> is widened to 64 bits with its sign before the mask.\<close>

definition rand_inum :: "bool \<Rightarrow> u64 ym" where
  "rand_inum file s =
     (let r = ye_rand (cur s);
          n = (r AND 0x7fffffff) OR (if file then push_bit 31 1 else 0)
      in Inr ((scast n :: u64) AND 0xffffffff, s\<lparr>ys_n := Suc (ys_n s)\<rparr>))"

section \<open>Attributes\<close>

record fileinfo =
  fi_size :: u64
  fi_atime :: u64
  fi_mtime :: u64
  fi_ctime :: u64

record dirinfo =
  di_atime :: u64
  di_mtime :: u64
  di_ctime :: u64

definition getfile :: "u64 \<Rightarrow> fileinfo \<Rightarrow> (int \<times> fileinfo) ym" where
  "getfile inum fin = scoped_lock inum (ybind (ec_getattr inum) (\<lambda>(r, a).
     if r \<noteq> xOK then yreturn (yIOERR, fin)
     else yreturn (yOK, \<lparr>fi_size = ucast (asize a), fi_atime = ucast (atime a), fi_mtime = ucast (mtime a),
       fi_ctime = ucast (ctime a)\<rparr>)))"

definition getdir :: "u64 \<Rightarrow> dirinfo \<Rightarrow> (int \<times> dirinfo) ym" where
  "getdir inum din = scoped_lock inum (ybind (ec_getattr inum) (\<lambda>(r, a).
     if r \<noteq> xOK then yreturn (yIOERR, din)
     else yreturn (yOK, \<lparr>di_atime = ucast (atime a), di_mtime = ucast (mtime a), di_ctime = ucast (ctime a)\<rparr>)))"

section \<open>Directories\<close>

definition create :: "u64 \<Rightarrow> byte list \<Rightarrow> bool \<Rightarrow> u64 \<Rightarrow> (int \<times> u64) ym" where
  "create parent name file ino =
     (if isdir parent then
        scoped_lock parent (ybind (ec_get parent) (\<lambda>(rs, b).
          if rs \<noteq> yOK then yreturn (rs, ino)
          else if find_sub (name_pattern name) b \<noteq> None then yreturn (yEXIST, ino)
          else ybind (rand_inum file) (\<lambda>num.
            let ino' = num AND 0xffffffff; b' = b @ filename num @ name_pattern name in
            scoped_lock num (ybind (ec_put num []) (\<lambda>rs.
              if rs \<noteq> yOK then yreturn (rs, ino')
              else ybind (ec_put parent b') (\<lambda>rs. if rs \<noteq> yOK then yreturn (rs, ino') else yreturn (yOK, ino')))))))
      else yreturn (yNOENT, ino))"

definition lookup :: "u64 \<Rightarrow> byte list \<Rightarrow> u64 \<Rightarrow> (bool \<times> u64) ym" where
  "lookup parent name ino =
     (if isdir parent then
        if length name < 1 then yreturn (True, ino)
        else scoped_lock parent (ybind (ec_get parent) (\<lambda>(rs, b).
          if rs \<noteq> yOK then yreturn (False, ino)
          else case find_sub (name_pattern name) b of
            None \<Rightarrow> yreturn (False, ino)
          | Some found \<Rightarrow>
              ybind (yassert (0 < found)) (\<lambda>_.
              let left = entry_left b found in
              ybind (yassert (left < found)) (\<lambda>_.
              ybind (yres (substr b left (found - left))) (\<lambda>w. yreturn (True, n2i w))))))
      else yreturn (False, ino))"

text \<open>The directory without the entry between two positions.\<close>

definition cut_entry :: "byte list \<Rightarrow> nat \<Rightarrow> nat \<Rightarrow> byte list" where
  "cut_entry b left stop = (if left \<noteq> 0 then take left b else []) @ (if stop < length b then drop stop b else [])"

definition unlink :: "u64 \<Rightarrow> byte list \<Rightarrow> int ym" where
  "unlink parent name =
     (if isdir parent then
        scoped_lock parent (ybind (ec_get parent) (\<lambda>(rs, b).
          if rs \<noteq> yOK then yreturn yNOENT
          else case find_sub (name_pattern name) b of
            None \<Rightarrow> yreturn yNOENT
          | Some found \<Rightarrow>
              let t = name_pattern name; left = entry_left b found in
              ybind (yassert (left < found)) (\<lambda>_.
              ybind (yres (substr b left (found - left))) (\<lambda>w.
              let ino = n2i w in
              scoped_lock ino (ybind (ec_remove ino) (\<lambda>rs.
                if rs \<noteq> xOK then yreturn yNOENT
                else
                  ybind (ec_put parent (cut_entry b left (found + length t))) (\<lambda>rs. if rs \<noteq> yOK then yreturn yNOENT else yreturn yOK)))))))
      else yreturn yNOENT)"

definition getdata :: "u64 \<Rightarrow> (int \<times> byte list) ym" where
  "getdata ino = scoped_lock ino (ec_get ino)"

section \<open>Contents of files\<close>

text \<open>\<^verbatim>\<open>size_t\<close> and \<^verbatim>\<open>off_t\<close> have 64 bits; an \<^verbatim>\<open>int\<close> that is used as the size of an array must not be
  negative, and \<^verbatim>\<open>bzero\<close> must stay in it.\<close>

definition zeros :: "u64 \<Rightarrow> u64 \<Rightarrow> byte list res" where
  "zeros alloc n =
     (let k = sint (ucast alloc :: u32) in
      if k < 0 then Inl BadAlloc
      else if nat k < unat n then Inl OutOfBounds
      else Inr (replicate (nat k) 0))"

definition yfs_read :: "u64 \<Rightarrow> u64 \<Rightarrow> u64 \<Rightarrow> byte list \<Rightarrow> (int \<times> byte list) ym" where
  "yfs_read ino sz off ret = scoped_lock ino (ybind (ec_get ino) (\<lambda>(rs, buf).
     if rs \<noteq> yOK then yreturn (rs, ret)
     else if of_nat (length buf) < off + sz then
       let reside = off + sz - of_nat (length buf) in
       ybind (yres (zeros reside reside)) (\<lambda>a.
       ybind (yres (substr buf (unat off) (unat (of_nat (length buf) - off :: u64)))) (\<lambda>w. yreturn (yOK, w @ a)))
     else ybind (yres (substr buf (unat off) (unat sz))) (\<lambda>w. yreturn (yOK, w))))"

definition write_at :: "byte list \<Rightarrow> byte list \<Rightarrow> nat \<Rightarrow> byte list" where
  "write_at ori buf uoff =
     (if uoff \<le> length ori \<or> uoff = 0 then
        take uoff ori @ buf @ (if uoff + length buf < length ori then drop (uoff + length buf) ori else [])
      else ori @ replicate (uoff - length ori) 0 @ buf)"

definition yfs_write :: "u64 \<Rightarrow> byte list \<Rightarrow> u64 \<Rightarrow> int ym" where
  "yfs_write ino buf off =
     (if sint off < 0 then yreturn yNOENT
      else
        let uoff = unat (ucast off :: u32) in
        scoped_lock ino (ybind (ec_get ino) (\<lambda>(rs, ori).
          if rs \<noteq> yOK then yreturn rs
          else ec_put ino (write_at ori buf uoff))))"

definition setattr :: "u64 \<Rightarrow> u64 \<Rightarrow> int ym" where
  "setattr fileno st_size = scoped_lock fileno (ybind (ec_get fileno) (\<lambda>(rs, buf).
     if rs \<noteq> yOK then yreturn rs
     else
       let sz = (of_nat (length buf) :: u32) in
       if uint sz < sint st_size then
         let n = st_size - ucast sz in
         ybind (yres (zeros n (scast (ucast n :: u32)))) (\<lambda>a. ec_put fileno (buf @ a))
       else ec_put fileno (take (unat st_size) buf)))"

section \<open>Specification notions\<close>

text \<open>Every call of the extent client comes back.\<close>

definition ys_ok :: "yst \<Rightarrow> bool" where
  "ys_ok s \<longleftrightarrow> xc_ok (ys_x s) \<and> (\<forall>n. x_net (ye_x (ys_env s n)) = Delivered)"

abbreviation ys_eff :: "yst \<Rightarrow> u64 \<rightharpoonup> byte list" where
  "ys_eff s \<equiv> eff (ys_x s)"

definition ys_known :: "yst \<Rightarrow> u64 set" where
  "ys_known s = dom (x_cache (ys_x s))"

text \<open>The operation returns, its result and the extents as the client's user sees them then satisfy
  \<open>Q\<close>, and everything else is kept in order.\<close>

definition does :: "'a ym \<Rightarrow> yst \<Rightarrow> ('a \<Rightarrow> (u64 \<rightharpoonup> byte list) \<Rightarrow> bool) \<Rightarrow> bool" where
  "does m s Q \<longleftrightarrow> (\<exists>r s'. m s = Inr (r, s') \<and> Q r (ys_eff s') \<and> ys_ok s' \<and> ys_held s' = ys_held s \<and>
     ys_env s' = ys_env s \<and> ys_known s \<subseteq> ys_known s' \<and> ys_n s \<le> ys_n s')"

text \<open>A log in which locks are taken and given back properly, and every extent is used only under
  its lock; the result is what is held afterwards.\<close>

fun disciplined :: "u64 list \<Rightarrow> lk_event list \<Rightarrow> u64 list option" where
  "disciplined H [] = Some H"
| "disciplined H (LAcq i # l) = (if i \<in> set H then None else disciplined (i # H) l)"
| "disciplined H (LRel i # l) = (if i \<in> set H then disciplined (remove1 i H) l else None)"
| "disciplined H (LUse i # l) = (if i \<in> set H then disciplined H l else None)"

definition safe :: "u64 set \<Rightarrow> 'a ym \<Rightarrow> bool" where
  "safe H m \<longleftrightarrow> (\<forall>s r s'. H \<subseteq> set (ys_held s) \<longrightarrow> m s = Inr (r, s') \<longrightarrow>
     ys_held s' = ys_held s \<and> (\<exists>l. ys_log s' = ys_log s @ l \<and> disciplined (ys_held s) l = Some (ys_held s)))"

text \<open>The directory can be searched for the name: its names have no slash, and no inode number of it
  but the first reads like the name.\<close>

definition searchable :: "dirent list \<Rightarrow> byte list \<Rightarrow> bool" where
  "searchable es n \<longleftrightarrow> name_ok n \<and> (\<forall>e \<in> set es. name_ok (snd e)) \<and> distinct (map snd es) \<and>
     n \<notin> filename ` fst ` set (tl es)"

text \<open>The inode number drawn from a random number.\<close>

definition inum_of :: "bool \<Rightarrow> u32 \<Rightarrow> u64" where
  "inum_of file r = (scast ((r AND 0x7fffffff) OR (if file then push_bit 31 1 else 0)) :: u64) AND 0xffffffff"

text \<open>The random numbers still to be drawn give inode numbers that are not in use.\<close>

definition fresh_inums :: "yst \<Rightarrow> bool \<Rightarrow> bool" where
  "fresh_inums s file \<longleftrightarrow> (\<forall>n \<ge> ys_n s. ys_eff s (inum_of file (ye_rand (ys_env s n))) = None)"

text \<open>A client that has just been started.\<close>

definition yfs_client_new :: "(nat \<Rightarrow> yenv) \<Rightarrow> exts \<Rightarrow> yst" where
  "yfs_client_new env e = \<lparr>ys_x = extent_client_new e, ys_held = [], ys_log = [], ys_env = env, ys_n = 0\<rparr>"

definition calm :: "nat \<Rightarrow> yenv" where
  "calm k = \<lparr>ye_x = \<lparr>x_now = 5, x_srv_now = 6, x_net = Delivered\<rparr>, ye_rand = 77, ye_revoke = (k mod 3 = 0)\<rparr>"

definition with_root :: "byte list \<Rightarrow> yst" where
  "with_root b = yfs_client_new calm (snd (xs_put 3 Map.empty 1 b))"

section \<open>Locks are held where extents are used\<close>

lemma disciplined_append:
  "disciplined H (l @ l') = (case disciplined H l of None \<Rightarrow> None | Some H' \<Rightarrow> disciplined H' l')"
  by (induction H l rule: disciplined.induct) auto

lemma safe_yreturn: "safe H (yreturn r)"
  by (auto simp: safe_def yreturn_def)

lemma safe_yres: "safe H (yres r)"
  by (auto simp: safe_def yres_def rbind_eq_Inr)

lemma safe_yassert: "safe H (yassert p)"
  by (simp add: yassert_def safe_yres)

lemma safe_ybind:
  assumes "safe H m" "\<And>r. safe H (k r)"
  shows "safe H (ybind m k)"
  unfolding safe_def
proof (intro allI impI)
  fix s r s' assume a: "H \<subseteq> set (ys_held s)" "ybind m k s = Inr (r, s')"
  then obtain q t where 1: "m s = Inr (q, t)" "k q t = Inr (r, s')" by (auto simp: ybind_def rbind_eq_Inr)
  from assms(1) a(1) 1(1) obtain l where l: "ys_held t = ys_held s" "ys_log t = ys_log s @ l"
    "disciplined (ys_held s) l = Some (ys_held s)" unfolding safe_def by blast
  from assms(2) [of q] a(1) 1(2) l(1) obtain l' where l': "ys_held s' = ys_held t" "ys_log s' = ys_log t @ l'"
    "disciplined (ys_held t) l' = Some (ys_held t)" unfolding safe_def by metis
  show "ys_held s' = ys_held s \<and> (\<exists>l. ys_log s' = ys_log s @ l \<and> disciplined (ys_held s) l = Some (ys_held s))"
    using l l' by (intro conjI exI [of _ "l @ l'"]) (simp_all add: disciplined_append)
qed

lemma safe_use:
  assumes "i \<in> H" "\<And>s. \<exists>r x. m s = Inr (r, advance x (LUse i) s)"
  shows "safe H m"
  unfolding safe_def
proof (intro allI impI)
  fix s r s' assume a: "H \<subseteq> set (ys_held s)" "m s = Inr (r, s')"
  then obtain x where "s' = advance x (LUse i) s" using assms(2) [of s] by auto
  then show "ys_held s' = ys_held s \<and> (\<exists>l. ys_log s' = ys_log s @ l \<and> disciplined (ys_held s) l = Some (ys_held s))"
    using assms(1) a(1) by (intro conjI exI [of _ "[LUse i]"]) (auto simp: advance_def)
qed

lemma safe_calls: "i \<in> H \<Longrightarrow> safe H (ec_get i)" "i \<in> H \<Longrightarrow> safe H (ec_getattr i)" "i \<in> H \<Longrightarrow> safe H (ec_put i b)"
  "i \<in> H \<Longrightarrow> safe H (ec_remove i)"
  by (rule safe_use, assumption, auto simp: ec_get_def ec_getattr_def ec_put_def ec_remove_def split: prod.splits)+

lemma safe_rand_inum: "safe H (rand_inum file)"
  by (auto simp: safe_def rand_inum_def Let_def)

lemma safe_scoped_lock:
  assumes "safe (insert i H) m"
  shows "safe H (scoped_lock i m)"
  unfolding safe_def
proof (intro allI impI)
  fix s r s' assume a: "H \<subseteq> set (ys_held s)" "scoped_lock i m s = Inr (r, s')"
  define s1 where "s1 = (advance (ys_x s) (LAcq i) s)\<lparr>ys_held := i # ys_held s\<rparr>"
  from a(2) obtain s2 where s: "i \<notin> set (ys_held s)" "m s1 = Inr (r, s2)" "lc_release i s2 = Inr ((), s')"
    by (auto simp: scoped_lock_def ybind_def lc_acquire_def yreturn_def rbind_eq_Inr s1_def split: if_splits)
  have s1: "ys_held s1 = i # ys_held s" "ys_log s1 = ys_log s @ [LAcq i]" by (simp_all add: s1_def advance_def)
  with assms a(1) s(2) obtain l where l: "ys_held s2 = i # ys_held s" "ys_log s2 = ys_log s1 @ l"
    "disciplined (i # ys_held s) l = Some (i # ys_held s)" unfolding safe_def by (metis insert_subset list.set_intros(1)
      list.simps(15) subset_insertI2)
  from s(3) l have "ys_held s' = ys_held s" "ys_log s' = ys_log s2 @ [LRel i]"
    by (auto simp: lc_release_def advance_def Let_def)
  with l s1 s(1) show "ys_held s' = ys_held s \<and> (\<exists>l. ys_log s' = ys_log s @ l \<and> disciplined (ys_held s) l = Some (ys_held s))"
    by (intro conjI exI [of _ "[LAcq i] @ l @ [LRel i]"]) (simp_all add: disciplined_append)
qed

lemmas safe_intros = safe_yreturn safe_yres safe_yassert safe_ybind safe_calls safe_rand_inum safe_scoped_lock

lemma safe_if: "safe H a \<Longrightarrow> safe H b \<Longrightarrow> safe H (if p then a else b)"
  by simp

lemma safe_option: "safe H a \<Longrightarrow> (\<And>x. safe H (f x)) \<Longrightarrow> safe H (case v of None \<Rightarrow> a | Some x \<Rightarrow> f x)"
  by (cases v) simp_all

lemma safe_prod: "(\<And>x y. safe H (f x y)) \<Longrightarrow> safe H (case v of (x, y) \<Rightarrow> f x y)"
  by (cases v) simp

lemmas safe_rules = safe_intros safe_if safe_option safe_prod

lemma safe_operations:
  "safe {} (getfile i fin)" "safe {} (getdir i din)" "safe {} (create p n file ino)" "safe {} (lookup p n ino)"
  "safe {} (unlink p n)" "safe {} (getdata i)" "safe {} (yfs_read i sz off ret)" "safe {} (yfs_write i buf off)"
  "safe {} (setattr i st)"
  unfolding getfile_def getdir_def create_def lookup_def unlink_def getdata_def yfs_read_def yfs_write_def setattr_def Let_def
  by (intro safe_rules; simp)+

section \<open>What the operations do\<close>

lemma advance_simps [simp]:
  "ys_x (advance x ev s) = x" "ys_held (advance x ev s) = ys_held s" "ys_env (advance x ev s) = ys_env s"
  "ys_n (advance x ev s) = Suc (ys_n s)"
  by (simp_all add: advance_def)

lemma ys_ok_net: "ys_ok s \<Longrightarrow> x_net (ye_x (cur s)) = Delivered"
  by (simp add: ys_ok_def cur_def)

lemma ybind_pure [simp]: "ybind (yreturn x) k = k x" "ybind (yres (Inr x)) k = k x" "ybind (yassert True) h = h ()"
  by (simp_all add: ybind_def yreturn_def yres_def yassert_def fun_eq_iff)

lemma does_yreturn: "ys_ok s \<Longrightarrow> Q r (ys_eff s) \<Longrightarrow> does (yreturn r) s Q"
  by (simp add: does_def yreturn_def)

lemma does_mono: "does m s Q \<Longrightarrow> (\<And>r e. Q r e \<Longrightarrow> Q' r e) \<Longrightarrow> does m s Q'"
  unfolding does_def by blast

lemma does_ybind:
  assumes "does m s R"
    and "\<And>r s'. R r (ys_eff s') \<Longrightarrow> ys_ok s' \<Longrightarrow> ys_held s' = ys_held s \<Longrightarrow> ys_env s' = ys_env s \<Longrightarrow>
      ys_known s \<subseteq> ys_known s' \<Longrightarrow> ys_n s \<le> ys_n s' \<Longrightarrow> does (k r) s' Q"
  shows "does (ybind m k) s Q"
proof -
  from assms(1) obtain r s' where s': "m s = Inr (r, s')" "R r (ys_eff s')" "ys_ok s'" "ys_held s' = ys_held s"
    "ys_env s' = ys_env s" "ys_known s \<subseteq> ys_known s'" "ys_n s \<le> ys_n s'" unfolding does_def by blast
  from assms(2) [OF s'(2-7)] s' show ?thesis unfolding does_def ybind_def by fastforce
qed

lemma does_get:
  assumes "ys_ok s" "ys_eff s i = Some b"
    and "\<And>s'. ys_ok s' \<Longrightarrow> ys_eff s' = ys_eff s \<Longrightarrow> ys_held s' = ys_held s \<Longrightarrow> ys_env s' = ys_env s \<Longrightarrow>
      ys_known s \<subseteq> ys_known s' \<Longrightarrow> ys_n s \<le> ys_n s' \<Longrightarrow> does (k (yOK, b)) s' Q"
  shows "does (ybind (ec_get i) k) s Q"
proof (rule does_ybind [where R = "\<lambda>r e. r = (yOK, b) \<and> e = ys_eff s"])
  from assms(1) xc_get_step [OF _ ys_ok_net [OF assms(1)] assms(2), of "[]"] obtain x where
    x: "xc_get (ye_x (cur s)) (ys_x s) i [] = (xOK, b, x)" "xc_ok x" "eff x = ys_eff s" "i \<in> dom (x_cache x)"
    "x_cache x = (x_cache (ys_x s))(i := x_cache x i)" by (auto simp: ys_ok_def)
  have "dom (x_cache (ys_x s)) \<subseteq> dom (x_cache x)" using x(4) by (subst x(5)) auto
  with x assms(1) show "does (ec_get i) s (\<lambda>r e. r = (yOK, b) \<and> e = ys_eff s)"
    by (simp add: does_def ec_get_def ys_ok_def ys_known_def)
qed (use assms(3) in auto)

lemma does_put: "ys_ok s \<Longrightarrow> Q yOK ((ys_eff s)(i \<mapsto> b)) \<Longrightarrow> does (ec_put i b) s Q"
  using xc_put_step [of "ys_x s" "ye_x (cur s)" i b] by (auto simp: does_def ec_put_def ys_ok_def ys_known_def)

lemma does_remove: "ys_ok s \<Longrightarrow> i \<in> ys_known s \<Longrightarrow> Q xOK ((ys_eff s)(i := None)) \<Longrightarrow> does (ec_remove i) s Q"
  using xc_remove_step [of "ys_x s" i] by (auto simp: does_def ec_remove_def ys_ok_def ys_known_def)

lemma does_rand:
  "ys_ok s \<Longrightarrow> Q (inum_of file (ye_rand (ys_env s (ys_n s)))) (ys_eff s) \<Longrightarrow> does (rand_inum file) s Q"
  by (simp add: does_def rand_inum_def inum_of_def cur_def ys_ok_def ys_known_def Let_def)

lemma lc_acquire_run:
  assumes "ys_ok s" "i \<notin> set (ys_held s)"
  shows "\<exists>s'. lc_acquire i s = Inr ((), s') \<and> ys_ok s' \<and> ys_eff s' = ys_eff s \<and> ys_held s' = i # ys_held s \<and>
    ys_env s' = ys_env s \<and> ys_known s' = ys_known s \<and> ys_n s \<le> ys_n s'"
  using assms by (simp add: lc_acquire_def ys_ok_def ys_known_def)

lemma lc_release_run:
  assumes "ys_ok s"
  shows "\<exists>s'. lc_release i s = Inr ((), s') \<and> ys_ok s' \<and> ys_eff s' = ys_eff s \<and> ys_held s' = remove1 i (ys_held s) \<and>
    ys_env s' = ys_env s \<and> ys_known s' = ys_known s \<and> ys_n s \<le> ys_n s'"
proof -
  obtain ret x where f: "xc_flush (ye_x (cur s)) (ys_x s) i = (ret, x)" by (cases "xc_flush (ye_x (cur s)) (ys_x s) i")
  have "xc_ok (ys_x s)" using assms by (simp add: ys_ok_def)
  with xc_flush_step [OF this f] xc_flush_delivered [OF this ys_ok_net [OF assms] f] assms f show ?thesis
    by (simp add: lc_release_def ys_ok_def ys_known_def Let_def)
qed

lemma does_scoped_lock:
  assumes "ys_ok s" "i \<notin> set (ys_held s)"
    and "\<And>s'. ys_ok s' \<Longrightarrow> ys_eff s' = ys_eff s \<Longrightarrow> ys_held s' = i # ys_held s \<Longrightarrow> ys_env s' = ys_env s \<Longrightarrow>
      ys_known s' = ys_known s \<Longrightarrow> ys_n s \<le> ys_n s' \<Longrightarrow> does m s' Q"
  shows "does (scoped_lock i m) s Q"
proof -
  from lc_acquire_run [OF assms(1,2)] obtain s1 where s1: "lc_acquire i s = Inr ((), s1)" "ys_ok s1" "ys_eff s1 = ys_eff s"
    "ys_held s1 = i # ys_held s" "ys_env s1 = ys_env s" "ys_known s1 = ys_known s" "ys_n s \<le> ys_n s1" by blast
  from assms(3) [OF s1(2-7)] obtain r s2 where s2: "m s1 = Inr (r, s2)" "ys_ok s2" "Q r (ys_eff s2)" "ys_held s2 = ys_held s1"
    "ys_env s2 = ys_env s1" "ys_known s1 \<subseteq> ys_known s2" "ys_n s1 \<le> ys_n s2" unfolding does_def by blast
  from lc_release_run [OF s2(2), of i] obtain s3 where s3: "lc_release i s2 = Inr ((), s3)" "ys_ok s3" "ys_eff s3 = ys_eff s2"
    "ys_held s3 = remove1 i (ys_held s2)" "ys_env s3 = ys_env s2" "ys_known s3 = ys_known s2" "ys_n s2 \<le> ys_n s3" by blast
  have "scoped_lock i m s = Inr (r, s3)" using s1(1) s2(1) s3(1) by (simp add: scoped_lock_def ybind_def yreturn_def)
  with s1 s2 s3 show ?thesis by (simp add: does_def)
qed

text \<open>Taking a lock and reading the extent it protects.\<close>

lemma does_locked_get:
  assumes "ys_ok s" "i \<notin> set (ys_held s)" "ys_eff s i = Some b"
    and "\<And>s'. ys_ok s' \<Longrightarrow> ys_eff s' = ys_eff s \<Longrightarrow> ys_held s' = i # ys_held s \<Longrightarrow> ys_env s' = ys_env s \<Longrightarrow>
      ys_known s \<subseteq> ys_known s' \<Longrightarrow> ys_n s \<le> ys_n s' \<Longrightarrow> does (k (yOK, b)) s' Q"
  shows "does (scoped_lock i (ybind (ec_get i) k)) s Q"
proof (rule does_scoped_lock [OF assms(1,2)])
  fix s1 assume s1: "ys_ok s1" "ys_eff s1 = ys_eff s" "ys_held s1 = i # ys_held s" "ys_env s1 = ys_env s"
    "ys_known s1 = ys_known s" "ys_n s \<le> ys_n s1"
  show "does (ybind (ec_get i) k) s1 Q"
    by (rule does_get [OF s1(1)]) (use s1 assms(3,4) in auto)
qed

text \<open>The same where the program stops.\<close>

lemma locked_get_fails:
  assumes "ys_ok s" "i \<notin> set (ys_held s)" "ys_eff s i = Some b" "\<And>s'. k (yOK, b) s' = Inl f"
  shows "scoped_lock i (ybind (ec_get i) k) s = Inl f"
proof -
  from lc_acquire_run [OF assms(1,2)] obtain s1 where s1: "lc_acquire i s = Inr ((), s1)" "ys_ok s1" "ys_eff s1 = ys_eff s" by blast
  have "does (ybind (ec_get i) yreturn) s1 (\<lambda>r e. r = (yOK, b))"
    by (rule does_get [OF s1(2)]) (use s1(3) assms(3) in \<open>auto intro: does_yreturn\<close>)
  then obtain s2 where "ec_get i s1 = Inr ((yOK, b), s2)"
    by (auto simp: does_def ybind_def yreturn_def rbind_eq_Inr)
  with s1(1) assms(4) show ?thesis by (simp add: scoped_lock_def ybind_def)
qed

subsection \<open>Directories\<close>

lemma searchable_split:
  assumes "searchable (es @ (i, n) # fs) n"
  shows "\<forall>e \<in> set (es @ (i, n) # fs). name_ok (snd e)" "n \<notin> snd ` set es" "n \<notin> filename ` fst ` set (tl (es @ [(i, n)]))"
proof -
  note a = assms [unfolded searchable_def]
  show "\<forall>e \<in> set (es @ (i, n) # fs). name_ok (snd e)" using a by (elim conjE)
  show "n \<notin> snd ` set es" using a by simp
  have "set (tl (es @ [(i, n)])) \<subseteq> set (tl (es @ (i, n) # fs))" by (cases es) auto
  then have "filename ` fst ` set (tl (es @ [(i, n)])) \<subseteq> filename ` fst ` set (tl (es @ (i, n) # fs))"
    by (intro image_mono)
  moreover have "n \<notin> filename ` fst ` set (tl (es @ (i, n) # fs))" using a by (elim conjE)
  ultimately show "n \<notin> filename ` fst ` set (tl (es @ [(i, n)]))" by (rule contra_subsetD)
qed

lemma searchable_none:
  "searchable es n \<Longrightarrow> n \<notin> snd ` set es \<Longrightarrow> find_sub (name_pattern n) (dir_bytes es) = None"
  by (rule find_no_entry) (simp_all add: searchable_def name_ok_def)

lemma searchable_hit:
  assumes "searchable (es @ (i, n) # fs) n"
  shows "find_sub (name_pattern n) (dir_bytes (es @ (i, n) # fs)) = Some (length (dir_bytes es) + length (filename i))"
    "entry_left (dir_bytes (es @ (i, n) # fs)) (length (dir_bytes es) + length (filename i)) = length (dir_bytes es)"
    "substr (dir_bytes (es @ (i, n) # fs)) (length (dir_bytes es)) (length (filename i)) = Inr (filename i)"
    "0 < length (filename i)"
  using find_entry [OF searchable_split [OF assms]] entry_left_entry by (simp_all add: substr_def)

lemma lookup_hit:
  assumes "ys_ok s" "p \<notin> set (ys_held s)" "isdir p" "ys_eff s p = Some (dir_bytes (es @ (i, n) # fs))"
    and "searchable (es @ (i, n) # fs) n"
  shows "does (lookup p n ino) s (\<lambda>r e. r = (True, i) \<and> e = ys_eff s)"
proof -
  let ?b = "dir_bytes (es @ (i, n) # fs)"
  have n: "n \<noteq> []" using assms(5) by (simp add: searchable_def name_ok_def)
  note h = searchable_hit [OF assms(5)]
  show ?thesis
    unfolding lookup_def using n assms(3)
    by (simp, intro does_locked_get [OF assms(1,2,4)])
      (use h in \<open>simp add: Let_def does_yreturn del: dir_bytes_simps\<close>)
qed

lemma lookup_miss:
  assumes "ys_ok s" "p \<notin> set (ys_held s)" "isdir p" "ys_eff s p = Some (dir_bytes es)" "searchable es n" "n \<notin> snd ` set es"
  shows "does (lookup p n ino) s (\<lambda>r e. r = (False, ino) \<and> e = ys_eff s)"
proof -
  have n: "n \<noteq> []" using assms(5) by (simp add: searchable_def name_ok_def)
  show ?thesis
    unfolding lookup_def using n assms(3)
    by (simp, intro does_locked_get [OF assms(1,2,4)])
      (use searchable_none [OF assms(5,6)] in \<open>simp add: does_yreturn\<close>)
qed

lemma create_existing:
  assumes "ys_ok s" "p \<notin> set (ys_held s)" "isdir p" "ys_eff s p = Some (dir_bytes (es @ (i, n) # fs))"
    and "searchable (es @ (i, n) # fs) n"
  shows "does (create p n file ino) s (\<lambda>r e. r = (yEXIST, ino) \<and> e = ys_eff s)"
  unfolding create_def using assms(3)
  by (simp, intro does_locked_get [OF assms(1,2,4)])
    (use searchable_hit [OF assms(5)] in \<open>simp add: does_yreturn del: dir_bytes_simps\<close>)

text \<open>Inode numbers of files and of directories.\<close>

lemma inum_of_bits: "bit (inum_of file r) k \<longleftrightarrow> k < 31 \<and> bit r k \<or> k = 31 \<and> file"
proof -
  have m: "(0xffffffff :: u64) = mask 32" "(0x7fffffff :: u32) = mask 31" by (simp_all add: mask_eq_exp_minus_1)
  define top where "top = (push_bit 31 1 :: u32)"
  have t: "bit top j \<longleftrightarrow> j = 31" for j unfolding top_def by (subst bit_push_bit_iff) (auto simp: bit_simps)
  show ?thesis unfolding inum_of_def m top_def [symmetric] by (cases "file") (auto simp: bit_simps t min_def)
qed

lemma inum_of_masked: "inum_of file r AND 0xffffffff = inum_of file r"
  by (simp add: inum_of_def ac_simps)

lemma isfile_inum_of: "isfile (inum_of file r) = file"
proof -
  have "isfile i \<longleftrightarrow> bit i 31" for i
    using and_exp_eq_0_iff_not_bit [of i 31] by (simp add: isfile_def)
  then show ?thesis by (simp add: inum_of_bits)
qed

lemma create_any:
  assumes "ys_ok s" "p \<notin> set (ys_held s)" "isdir p" "ys_eff s p = Some (dir_bytes es)" "searchable es n" "n \<notin> snd ` set es"
    and "\<forall>k \<ge> ys_n s. inum_of file (ye_rand (ys_env s k)) \<notin> insert p (set (ys_held s))"
  shows "does (create p n file ino) s (\<lambda>r e. \<exists>num k. r = (yOK, num) \<and> ys_n s \<le> k \<and> num = inum_of file (ye_rand (ys_env s k)) \<and>
    e = (ys_eff s)(num \<mapsto> [], p \<mapsto> dir_bytes (es @ [(num, n)])))" (is "does _ _ ?Q")
proof -
  note f = searchable_none [OF assms(5,6)]
  have "does (ybind (rand_inum file) (\<lambda>num.
            let ino' = num AND 0xffffffff; b' = dir_bytes es @ filename num @ name_pattern n in
            scoped_lock num (ybind (ec_put num []) (\<lambda>rs.
              if rs \<noteq> yOK then yreturn (rs, ino')
              else ybind (ec_put p b') (\<lambda>rs. if rs \<noteq> yOK then yreturn (rs, ino') else yreturn (yOK, ino')))))) s1 ?Q"
    if s1: "ys_ok s1" "ys_eff s1 = ys_eff s" "ys_held s1 = p # ys_held s" "ys_env s1 = ys_env s" "ys_n s \<le> ys_n s1" for s1
  proof (rule does_ybind [OF does_rand [OF s1(1)]])
    let ?R = "\<lambda>num e. (\<exists>k. num = inum_of file (ye_rand (ys_env s k)) \<and> ys_n s \<le> k) \<and> e = ys_eff s"
    show "?R (inum_of file (ye_rand (ys_env s1 (ys_n s1)))) (ys_eff s1)" using s1 by auto
    fix num s2 assume R: "?R num (ys_eff s2)" and s2: "ys_ok s2" "ys_held s2 = ys_held s1" "ys_env s2 = ys_env s1"
    from R obtain k where k: "num = inum_of file (ye_rand (ys_env s k))" "ys_eff s2 = ys_eff s" "ys_n s \<le> k" by blast
    have fresh: "num \<noteq> p" "\<exists>k \<ge> ys_n s. num = inum_of file (ye_rand (ys_env s k))" using assms(7) k(1,3) by auto
    have b: "dir_bytes es @ filename num @ name_pattern n = dir_bytes (es @ [(num, n)])" by (simp add: name_pattern_def)
    have m: "num AND 0xffffffff = num" using k(1) by (simp add: inum_of_masked)
    show "does (let ino' = num AND 0xffffffff; b' = dir_bytes es @ filename num @ name_pattern n in
            scoped_lock num (ybind (ec_put num []) (\<lambda>rs.
              if rs \<noteq> yOK then yreturn (rs, ino')
              else ybind (ec_put p b') (\<lambda>rs. if rs \<noteq> yOK then yreturn (rs, ino') else yreturn (yOK, ino'))))) s2 ?Q"
      unfolding Let_def b m
    proof (rule does_scoped_lock [OF s2(1)])
      show "num \<notin> set (ys_held s2)" using assms(7) s1(3) s2(2) k(1,3) by auto
      fix s3 assume s3: "ys_ok s3" "ys_eff s3 = ys_eff s2"
      show "does (ybind (ec_put num []) (\<lambda>rs. if rs \<noteq> yOK then yreturn (rs, num)
          else ybind (ec_put p (dir_bytes (es @ [(num, n)]))) (\<lambda>rs. if rs \<noteq> yOK then yreturn (rs, num) else yreturn (yOK, num)))) s3 ?Q"
        by (rule does_ybind [OF does_put [where Q = "\<lambda>r e. r = yOK \<and> e = (ys_eff s)(num \<mapsto> [])"]],
            use s3 k(2) in simp_all,
            rule does_ybind [OF does_put [where Q = "\<lambda>r e. r = yOK \<and>
              e = (ys_eff s)(num \<mapsto> [], p \<mapsto> dir_bytes (es @ [(num, n)]))"]],
            use fresh in \<open>simp_all add: does_yreturn\<close>)
    qed
  qed
  then show ?thesis
    unfolding create_def using assms(3) f
    by (simp, intro does_locked_get [OF assms(1,2,4)]) simp
qed

lemma create_new:
  assumes "ys_ok s" "ys_held s = []" "isdir p" "ys_eff s p = Some (dir_bytes es)" "searchable es n" "n \<notin> snd ` set es"
    and "fresh_inums s file"
  shows "does (create p n file ino) s (\<lambda>r e. \<exists>num. r = (yOK, num) \<and> isfile num = file \<and> ys_eff s num = None \<and>
    e = (ys_eff s)(num \<mapsto> [], p \<mapsto> dir_bytes (es @ [(num, n)])))"
proof -
  have f: "ys_eff s (inum_of file (ye_rand (ys_env s k))) = None" if "ys_n s \<le> k" for k
    using assms(7) that by (simp add: fresh_inums_def)
  have "inum_of file (ye_rand (ys_env s k)) \<noteq> p" if "ys_n s \<le> k" for k using f [OF that] assms(4) by auto
  then have a: "\<forall>k \<ge> ys_n s. inum_of file (ye_rand (ys_env s k)) \<notin> insert p (set (ys_held s))" using assms(2,4) by auto
  have "p \<notin> set (ys_held s)" using assms(2) by simp
  then show ?thesis
    by (rule does_mono [OF create_any [OF assms(1) _ assms(3-6) a]]) (use f in \<open>auto simp: isfile_inum_of\<close>)
qed

lemma unlink_hit:
  assumes "ys_ok s" "p \<notin> set (ys_held s)" "isdir p" "ys_eff s p = Some (dir_bytes (es @ (i, n) # fs))"
    and "searchable (es @ (i, n) # fs) n" "i \<noteq> p" "i \<notin> set (ys_held s)" "i \<in> ys_known s"
  shows "does (unlink p n) s (\<lambda>r e. r = yOK \<and> e = (ys_eff s)(i := None, p \<mapsto> dir_bytes (es @ fs)))" (is "does _ _ ?Q")
proof -
  let ?b = "dir_bytes (es @ (i, n) # fs)" and ?l = "length (dir_bytes es)" and ?t = "length (name_pattern n)"
  let ?f = "?l + length (filename i)"
  note h = searchable_hit [OF assms(5)]
  have after: "cut_entry ?b ?l (?f + ?t) = dir_bytes (es @ fs)"
    by (simp add: cut_entry_def name_pattern_def)
  have *: "does (scoped_lock i (ybind (ec_remove i) (\<lambda>rs. if rs \<noteq> xOK then yreturn yNOENT
      else ybind (ec_put p a) (\<lambda>rs. if rs \<noteq> yOK then yreturn yNOENT else yreturn yOK)))) s1 ?Q"
    if s1: "ys_ok s1" "ys_eff s1 = ys_eff s" "ys_held s1 = p # ys_held s" "ys_known s \<subseteq> ys_known s1" and a: "a = dir_bytes (es @ fs)" for s1 a
  proof (rule does_scoped_lock [OF s1(1)])
    show "i \<notin> set (ys_held s1)" using assms(6,7) s1(3) by simp
    fix s2 assume s2: "ys_ok s2" "ys_eff s2 = ys_eff s1" "ys_known s2 = ys_known s1"
    show "does (ybind (ec_remove i) (\<lambda>rs. if rs \<noteq> xOK then yreturn yNOENT
      else ybind (ec_put p a) (\<lambda>rs. if rs \<noteq> yOK then yreturn yNOENT else yreturn yOK))) s2 ?Q"
      by (rule does_ybind [OF does_remove [where Q = "\<lambda>r e. r = xOK \<and> e = (ys_eff s)(i := None)"]],
          use s2 s1 assms(8) a in auto,
          rule does_ybind [OF does_put [where Q = "\<lambda>r e. r = yOK \<and> e = (ys_eff s)(i := None, p \<mapsto> dir_bytes (es @ fs))"]],
          use a in \<open>simp_all add: does_yreturn\<close>)
  qed
  show ?thesis
    unfolding unlink_def if_P [OF assms(3)]
  proof (rule does_locked_get [OF assms(1,2,4)], goal_cases)
    case (1 s1)
    from * [OF 1(1-3,5) after] h show ?case by (simp add: Let_def del: dir_bytes_simps)
  qed
qed

lemma unlink_miss:
  assumes "ys_ok s" "p \<notin> set (ys_held s)" "isdir p" "ys_eff s p = Some (dir_bytes es)" "searchable es n" "n \<notin> snd ` set es"
  shows "does (unlink p n) s (\<lambda>r e. r = yNOENT \<and> e = ys_eff s)"
  unfolding unlink_def using assms(3)
  by (simp, intro does_locked_get [OF assms(1,2,4)]) (use searchable_none [OF assms(5,6)] in \<open>simp add: does_yreturn\<close>)

subsection \<open>Contents of files\<close>

lemma sint_nonneg:
  assumes "unat (w :: u64) < 2 ^ 63"
  shows "0 \<le> sint w"
proof -
  have "\<not> bit (unat w) 63" using assms by (simp add: bit_iff_odd)
  then have "\<not> bit w 63" by (simp add: bit_unsigned_iff)
  then show ?thesis using bit_last_iff [of w] by simp
qed

lemma sint_small:
  assumes "unat (w :: u64) < 2 ^ 31"
  shows "sint (ucast w :: u32) = int (unat w)"
proof -
  have "unat (ucast w :: u32) = unat w" using assms by (simp add: unsigned_ucast_eq take_bit_nat_eq_self)
  then have u: "uint (ucast w :: u32) = int (unat w)" by (metis uint_nat)
  have st: "signed_take_bit 31 k = k" if "0 \<le> k" "k < 2 ^ 31" for k :: int
    using that by (intro signed_take_bit_int_eq_self) simp_all
  have "int (unat w) < 2 ^ 31" using assms by (simp only: of_nat_less_numeral_power_cancel_iff)
  then have "signed_take_bit 31 (int (unat w)) = int (unat w)" by (rule st [OF of_nat_0_le_iff])
  then show ?thesis by (simp only: sint_uint u) simp
qed

lemma write_at_length: "length (write_at ori buf k) = max (length ori) (k + length buf)"
  by (auto simp: write_at_def)

lemma write_at_nth:
  assumes "j < length (write_at ori buf k)"
  shows "write_at ori buf k ! j =
    (if k \<le> j \<and> j < k + length buf then buf ! (j - k) else if j < length ori then ori ! j else 0)"
  using assms by (auto simp: write_at_def nth_append not_less min_def)

lemma write_at_read: "take (length buf) (drop k (write_at ori buf k)) = buf"
  by (auto simp: write_at_def)

lemma does_write:
  assumes "ys_ok s" "ino \<notin> set (ys_held s)" "ys_eff s ino = Some ori" "0 \<le> sint off"
  shows "does (yfs_write ino buf off) s
    (\<lambda>r e. r = yOK \<and> e = (ys_eff s)(ino \<mapsto> write_at ori buf (unat (ucast off :: u32))))"
  unfolding yfs_write_def Let_def using assms(4)
  by (simp, intro does_locked_get [OF assms(1-3)]) (simp add: does_put)

lemma does_read:
  assumes "ys_ok s" "ino \<notin> set (ys_held s)" "ys_eff s ino = Some buf" "unat off + unat sz \<le> length buf" "length buf < 2 ^ 64"
  shows "does (yfs_read ino sz off ret) s (\<lambda>r e. r = (yOK, take (unat sz) (drop (unat off) buf)) \<and> e = ys_eff s)"
proof -
  have u: "unat (of_nat (length buf) :: u64) = length buf" using assms(5) by (simp add: unsigned_of_nat take_bit_nat_eq_self)
  have "unat (off + sz) = unat off + unat sz" using assms(4,5) by (simp add: unat_word_ariths)
  then have "\<not> of_nat (length buf) < off + sz" using assms(4) u by (simp add: word_less_nat_alt)
  moreover have "substr buf (unat off) (unat sz) = Inr (take (unat sz) (drop (unat off) buf))" using assms(4) by (simp add: substr_def)
  ultimately show ?thesis
    unfolding yfs_read_def by (intro does_locked_get [OF assms(1-3)]) (simp add: does_yreturn)
qed

lemma with_root_simps [simp]:
  "ys_ok (with_root b)" "ys_held (with_root b) = []" "ys_env (with_root b) = calm" "ys_eff (with_root b) = [1 \<mapsto> b]"
proof -
  let ?e = "snd (xs_put 3 Map.empty 1 b)"
  have "xs_ok ?e" by (intro xs_put_ok) (simp add: xs_ok_def)
  from xc_ok_new [OF this] show "ys_ok (with_root b)" by (simp add: ys_ok_def with_root_def yfs_client_new_def calm_def)
  show "ys_eff (with_root b) = [1 \<mapsto> b]"
    by (simp add: with_root_def yfs_client_new_def eff_new xs_put_contents xs_contents_def [of Map.empty] fun_eq_iff)
qed (simp_all add: with_root_def yfs_client_new_def)

lemma isdir_1 [simp]: "isdir 1"
  by (simp add: isdir_def isfile_def)

section \<open>Properties\<close>

text \<open>(C21) Every operation of the file system uses an extent only while it holds the lock of that extent,
  never takes a lock it has, and gives back every lock it takes, on every path, errors and failing
  calls included: the log of each operation is disciplined. This is the discipline under which the
  caches are coherent.\<close>

theorem extents_used_under_locks:
  "safe {} (getfile i fin) \<and> safe {} (getdir i din) \<and> safe {} (create p n file ino) \<and> safe {} (lookup p n ino) \<and>
   safe {} (unlink p n) \<and> safe {} (getdata i) \<and> safe {} (yfs_read i sz off ret) \<and> safe {} (yfs_write i buf off) \<and>
   safe {} (setattr i st)"
  by (intro conjI safe_operations)

lemma lookup_does:
  assumes "ys_ok s" "ys_held s = []" "isdir p" "ys_eff s p = Some (dir_bytes es)" "searchable es n"
  shows "does (lookup p n ino) s (\<lambda>r e. e = ys_eff s \<and>
    r = (case map_of (map prod.swap es) n of None \<Rightarrow> (False, ino) | Some i \<Rightarrow> (True, i)))"
proof (cases "map_of (map prod.swap es) n")
  case None
  then have "n \<notin> snd ` set es" by (force simp: map_of_eq_None_iff image_iff)
  with lookup_miss [OF assms(1) _ assms(3-5)] assms(2) None show ?thesis by (simp add: conj_commute)
next
  case (Some i)
  from map_of_SomeD [OF this] have "(i, n) \<in> set es" by auto
  then obtain as bs where es: "es = as @ (i, n) # bs" by (meson split_list)
  with lookup_hit [OF assms(1) _ assms(3), of as i n bs] assms Some show ?thesis by (simp add: conj_commute)
qed

text \<open>Looking up a name answers as the directory says: found with its inode number if there is an
  entry, not found otherwise, with the inode number left alone. The directory must be one that the
  search can handle: no inode number in it but the first reads like the name.\<close>

theorem lookup_correct:
  assumes "ys_ok s" "ys_held s = []" "isdir p" "ys_eff s p = Some (dir_bytes es)" "searchable es n"
  shows "does (lookup p n ino) s (\<lambda>r e. e = ys_eff s \<and>
    r = (case map_of (map prod.swap es) n of None \<Rightarrow> (False, ino) | Some i \<Rightarrow> (True, i)))"
  using assms by (rule lookup_does)

theorem lookup_correct_witness:
  "does (lookup 1 [98] 0) (with_root (dir_bytes [(12, [97]), (34, [98])])) (\<lambda>r e. e = ys_eff (with_root (dir_bytes [(12, [97]), (34, [98])])) \<and> r = (True, 34))"
proof -
  let ?es = "[(12, [97]), (34, [98])] :: dirent list"
  have "searchable ?es [98]"
    by (simp add: searchable_def name_ok_def slash_def filename_def decimal.simps)
  from lookup_correct [OF with_root_simps(1,2) isdir_1 _ this, where ino = 0] show ?thesis by simp
qed

lemma create_does:
  assumes "ys_ok s" "ys_held s = []" "isdir p" "ys_eff s p = Some (dir_bytes es)" "searchable es n" "fresh_inums s file"
  shows "does (create p n file ino) s (\<lambda>r e. if n \<in> snd ` set es then r = (yEXIST, ino) \<and> e = ys_eff s
    else \<exists>num. r = (yOK, num) \<and> isfile num = file \<and> ys_eff s num = None \<and>
      e = (ys_eff s)(num \<mapsto> [], p \<mapsto> dir_bytes (es @ [(num, n)])))"
proof (cases "n \<in> snd ` set es")
  case True
  then obtain i where "(i, n) \<in> set es" by auto
  then obtain as bs where es: "es = as @ (i, n) # bs" by (meson split_list)
  with create_existing [OF assms(1) _ assms(3), of as i n bs] assms True show ?thesis by simp
next
  case False
  with create_new [OF assms(1-5) False assms(6)] show ?thesis by simp
qed

text \<open>(C18) Creating a file or directory with a name the directory does not have adds exactly one entry at
  the end of the directory, with an inode number of the right kind that was not in use, and an
  empty extent for it; with a name the directory has it changes nothing and answers EXIST. The
  random numbers drawn must not be numbers in use.\<close>

theorem create_adds_entry:
  assumes "ys_ok s" "ys_held s = []" "isdir p" "ys_eff s p = Some (dir_bytes es)" "searchable es n" "fresh_inums s file"
  shows "does (create p n file ino) s (\<lambda>r e. if n \<in> snd ` set es then r = (yEXIST, ino) \<and> e = ys_eff s
    else \<exists>num. r = (yOK, num) \<and> isfile num = file \<and> ys_eff s num = None \<and>
      e = (ys_eff s)(num \<mapsto> [], p \<mapsto> dir_bytes (es @ [(num, n)])))"
  using assms by (rule create_does)

lemma fresh_with_root: "inum_of file 77 \<noteq> 1 \<Longrightarrow> fresh_inums (with_root b) file"
  by (simp add: fresh_inums_def calm_def)

theorem create_adds_entry_witness:
  "does (create 1 [98] True 0) (with_root (dir_bytes [(12, [97])]))
     (\<lambda>r e. \<exists>num. r = (yOK, num) \<and> isfile num \<and> e 1 = Some (dir_bytes [(12, [97]), (num, [98])]))"
proof -
  let ?es = "[(12, [97])] :: dirent list"
  have s: "searchable ?es [98]"
    by (simp add: searchable_def name_ok_def slash_def)
  have "inum_of True 77 \<noteq> 1" using isfile_inum_of [of True 77] isdir_1 by (auto simp: isdir_def)
  from create_adds_entry [OF with_root_simps(1,2) isdir_1 _ s fresh_with_root [OF this], where ino = 0]
  show ?thesis by (rule does_mono) (auto split: if_splits)
qed

lemma unlink_does:
  assumes "ys_ok s" "ys_held s = []" "isdir p" "ys_eff s p = Some (dir_bytes es)" "searchable es n"
    and "\<forall>i. (i, n) \<in> set es \<longrightarrow> i \<noteq> p \<and> i \<in> ys_known s"
  shows "does (unlink p n) s (\<lambda>r e. case map_of (map prod.swap es) n of
      None \<Rightarrow> r = yNOENT \<and> e = ys_eff s
    | Some i \<Rightarrow> r = yOK \<and> e = (ys_eff s)(i := None, p \<mapsto> dir_bytes (filter (\<lambda>d. snd d \<noteq> n) es)))"
proof (cases "map_of (map prod.swap es) n")
  case None
  then have "n \<notin> snd ` set es" by (force simp: map_of_eq_None_iff image_iff)
  with unlink_miss [OF assms(1) _ assms(3-5)] assms(2) None show ?thesis by simp
next
  case (Some i)
  from map_of_SomeD [OF this] have i: "(i, n) \<in> set es" by auto
  then obtain as bs where es: "es = as @ (i, n) # bs" by (meson split_list)
  have d: "distinct (map snd es)" using assms(5) by (simp add: searchable_def)
  have "filter (\<lambda>d. snd d \<noteq> n) as = as" "filter (\<lambda>d. snd d \<noteq> n) bs = bs"
    using d by (auto simp: es filter_id_conv image_iff)
  then have "filter (\<lambda>d. snd d \<noteq> n) es = as @ bs" by (simp add: es)
  with unlink_hit [OF assms(1) _ assms(3), of as i n bs] assms i Some show ?thesis by (simp add: es)
qed

text \<open>(C19) Unlinking a name the directory has removes exactly its entry, whatever its place in the directory,
  and its extent; unlinking a name it does not have changes nothing and answers NOENT. The extent
  must be one the client has an entry for, as it has after a lookup through FUSE.\<close>

theorem unlink_removes_entry:
  assumes "ys_ok s" "ys_held s = []" "isdir p" "ys_eff s p = Some (dir_bytes es)" "searchable es n"
    and "\<forall>i. (i, n) \<in> set es \<longrightarrow> i \<noteq> p \<and> i \<in> ys_known s"
  shows "does (unlink p n) s (\<lambda>r e. case map_of (map prod.swap es) n of
      None \<Rightarrow> r = yNOENT \<and> e = ys_eff s
    | Some i \<Rightarrow> r = yOK \<and> e = (ys_eff s)(i := None, p \<mapsto> dir_bytes (filter (\<lambda>d. snd d \<noteq> n) es)))"
  using assms by (rule unlink_does)

lemma known_root: "\<exists>s. ys_ok s \<and> ys_held s = [] \<and> ys_eff s = [1 \<mapsto> b] \<and> 12 \<in> ys_known s"
proof -
  let ?s = "(with_root b)\<lparr>ys_x := set_entry 12 xcache_new (ys_x (with_root b))\<rparr>"
  have x: "xc_ok (ys_x (with_root b))" using with_root_simps(1) by (simp add: ys_ok_def)
  have n: "x_cache (ys_x (with_root b)) 12 = None" by (simp add: with_root_def yfs_client_new_def extent_client_new_def)
  from xc_remove_unknown [OF x n] have "xc_ok (ys_x ?s)" "ys_eff ?s = [1 \<mapsto> b]" by (auto simp: xc_remove_def n)
  with with_root_simps(1) [of b] show ?thesis by (intro exI [of _ ?s]) (simp add: ys_ok_def ys_known_def)
qed

theorem unlink_removes_entry_witness:
  "\<exists>s. ys_eff s 1 = Some (dir_bytes [(12, [97]), (34, [98])]) \<and>
     does (unlink 1 [97]) s (\<lambda>r e. r = yOK \<and> e 12 = None \<and> e 1 = Some (dir_bytes [(34, [98])]))"
proof -
  let ?es = "[(12, [97]), (34, [98])] :: dirent list"
  from known_root [of "dir_bytes ?es"] obtain s where s: "ys_ok s" "ys_held s = []" "ys_eff s 1 = Some (dir_bytes ?es)"
    "12 \<in> ys_known s" by auto
  have "searchable ?es [97]" by (simp add: searchable_def name_ok_def slash_def filename_def decimal.simps)
  from unlink_removes_entry [OF s(1,2) isdir_1 s(3) this] s(4)
  have "does (unlink 1 [97]) s (\<lambda>r e. r = yOK \<and> e = (ys_eff s)(12 := None, 1 \<mapsto> dir_bytes [(34, [98])]))"
    by (simp del: dir_bytes_simps)
  then have "does (unlink 1 [97]) s (\<lambda>r e. r = yOK \<and> e 12 = None \<and> e 1 = Some (dir_bytes [(34, [98])]))"
    by (rule does_mono) simp
  with s(3) show ?thesis by blast
qed

text \<open>(C20) What is written is read back: after a write below 4 GiB the file has the new bytes at the
  offset, keeps all others, is filled up with zeros where the write is past its end, and a read of
  the same range returns what was written.\<close>

theorem write_then_read:
  assumes "ys_ok s" "ys_held s = []" "ys_eff s ino = Some ori" "length ori < 2 ^ 64" "unat off + length buf < 2 ^ 32"
  shows "does (ybind (yfs_write ino buf off) (\<lambda>_. yfs_read ino (of_nat (length buf)) off ret)) s
    (\<lambda>r e. r = (yOK, buf) \<and> (\<exists>c. e = (ys_eff s)(ino \<mapsto> c) \<and> length c = max (length ori) (unat off + length buf) \<and>
      (\<forall>j < length c. c ! j = (if unat off \<le> j \<and> j < unat off + length buf then buf ! (j - unat off)
        else if j < length ori then ori ! j else 0))))"
proof -
  let ?c = "write_at ori buf (unat off)"
  have u: "unat (ucast off :: u32) = unat off" using assms(5) by (simp add: unsigned_ucast_eq take_bit_nat_eq_self)
  have p: "0 \<le> sint off"
    by (rule sint_nonneg) (use assms(5) in simp)
  have l: "unat (of_nat (length buf) :: u64) = length buf" using assms(5) by (simp add: unsigned_of_nat take_bit_nat_eq_self)
  show ?thesis
  proof (rule does_ybind [OF does_write [OF assms(1) _ assms(3) p]], goal_cases)
    case (2 r s1)
    then have e: "ys_eff s1 ino = Some ?c" by (simp add: u)
    have c: "unat off + unat (of_nat (length buf) :: u64) \<le> length ?c" "length ?c < 2 ^ 64"
      using assms(4,5) by (simp_all add: write_at_length l)
    show ?case
      by (rule does_mono [OF does_read [OF 2(2) _ e c]])
        (use 2 assms(2) in \<open>auto simp: u l write_at_read write_at_length write_at_nth\<close>)
  qed (use assms(2) in simp)
qed

theorem write_then_read_witness:
  "does (ybind (yfs_write 1 [7, 8] 3) (\<lambda>_. yfs_read 1 (of_nat (length [7, 8 :: byte])) 3 [])) (with_root [1, 2])
     (\<lambda>r e. r = (yOK, [7, 8]) \<and> (\<exists>c. e = [1 \<mapsto> [1, 2], 1 \<mapsto> c] \<and> length c = 5 \<and> c ! 2 = 0))"
  by (rule does_mono [OF write_then_read [of "with_root [1, 2]" 1 "[1, 2]" 3 "[7, 8]"]]) auto

text \<open>A name that reads like an inode number is found although no entry has it: the search for
  \<^verbatim>\<open>/name/\<close> does not tell names from inode numbers, so in a directory with a second entry the
  decimal inode number of that entry is taken for a name; \<^verbatim>\<open>lookup\<close> answers found, with the number
  it reads from the first entry's name, and \<^verbatim>\<open>create\<close> refuses the name as existing.\<close>

theorem inode_number_found_as_name:
  assumes "ys_ok s" "ys_held s = []" "isdir p" "ys_eff s p = Some (dir_bytes ((i, a) # (j, b) # es))"
    and "\<forall>d \<in> set ((i, a) # (j, b) # es). name_ok (snd d)" "a \<noteq> filename j"
  shows "does (lookup p (filename j) ino) s (\<lambda>r e. r = (True, n2i a)) \<and>
    does (create p (filename j) file ino) s (\<lambda>r e. r = (yEXIST, ino) \<and> e = ys_eff s)"
proof -
  let ?n = "filename j" and ?b = "dir_bytes ((i, a) # (j, b) # es)"
  let ?us = "[filename i]" and ?f = "length (join [filename i]) + length a"
  have ok: "slash \<notin> set a" "a \<noteq> []" "slash \<notin> set b" using assms(5) by (simp_all add: name_ok_def)
  have w: "dir_words ((i, a) # (j, b) # es) = filename i # a # filename j # b # dir_words es" by simp
  have "\<forall>v \<in> set (filename i # a # filename j # b # dir_words es). slash \<notin> set v"
    using dir_words_slash [OF assms(5)] unfolding w by blast
  from find_sub_join [OF slash_notin_filename [of j] this] assms(6)
  have f: "find_sub (name_pattern ?n) ?b = Some ?f" unfolding dir_bytes_join w by simp
  have b: "?b = join ?us @ a @ (slash # join (filename j # b # dir_words es))" unfolding dir_bytes_join w by simp
  have l: "entry_left ?b ?f = length (join ?us)" unfolding b by (rule entry_left_word [OF ok(1,2)])
  have sub: "substr ?b (length (join ?us)) (length a) = Inr a" unfolding b by (simp add: substr_def)
  have "does (lookup p ?n ino) s (\<lambda>r e. r = (True, n2i a))"
    unfolding lookup_def if_P [OF assms(3)]
    by (simp, intro does_locked_get [OF assms(1) _ assms(4)])
      (use f l sub ok(2) assms(2) in \<open>simp_all add: Let_def does_yreturn del: dir_bytes_simps join_simps\<close>)
  moreover have "does (create p ?n file ino) s (\<lambda>r e. r = (yEXIST, ino) \<and> e = ys_eff s)"
    unfolding create_def if_P [OF assms(3)]
    by (intro does_locked_get [OF assms(1) _ assms(4)])
      (use f assms(2) in \<open>simp_all add: does_yreturn del: dir_bytes_simps join_simps\<close>)
  ultimately show ?thesis ..
qed

theorem inode_number_found_as_name_witness:
  "does (lookup 1 (filename 34) 0) (with_root (dir_bytes [(12, [97]), (34, [98])])) (\<lambda>r e. r = (True, n2i [97]))"
proof -
  have "[97] \<noteq> filename 34" by (simp add: filename_def decimal.simps)
  from inode_number_found_as_name [OF with_root_simps(1,2) isdir_1 _ _ this, where i = 12 and b = "[98]" and es = "[]" and ino = 0] show ?thesis
    by (simp add: name_ok_def slash_def)
qed

text \<open>Reading past the end of a file ends the client: \<^verbatim>\<open>read\<close> takes the tail of the contents from the
  offset, and \<^verbatim>\<open>std::string::substr\<close> throws if the offset is greater than the size; nothing catches
  the exception.\<close>

theorem read_past_end_throws:
  assumes "ys_ok s" "ys_held s = []" "ys_eff s ino = Some buf" "length buf < unat off" "unat off + unat sz < 2 ^ 31"
  shows "yfs_read ino sz off ret s = Inl OutOfRange"
proof -
  let ?n = "of_nat (length buf) :: u64"
  have u: "unat ?n = length buf" using assms(4,5) by (simp add: unsigned_of_nat take_bit_nat_eq_self)
  have s: "unat (off + sz) = unat off + unat sz" using assms(5) by (simp add: unat_word_ariths)
  then have lt: "?n < off + sz" using assms(4) u by (simp add: word_less_nat_alt)
  let ?d = "off + sz - ?n"
  have d: "unat ?d = unat off + unat sz - length buf" using lt s u by (simp add: unat_sub less_imp_le)
  then have "sint (ucast ?d :: u32) = int (unat ?d)" using assms(5) by (intro sint_small) simp
  then have z: "zeros ?d ?d = Inr (replicate (unat ?d) 0)" by (simp add: zeros_def)
  have "substr buf (unat off) k = Inl OutOfRange" for k using assms(4) by (simp add: substr_def)
  with lt z show ?thesis
    unfolding yfs_read_def by (intro locked_get_fails [OF assms(1) _ assms(3)]) (simp_all add: assms(2) Let_def yres_def ybind_def)
qed

theorem read_past_end_throws_witness:
  "yfs_read 1 10 5 [] (with_root [1, 2]) = Inl OutOfRange"
  by (rule read_past_end_throws [where buf = "[1, 2]"]) simp_all

text \<open>The offset of a write is cut to 32 bits: a write at or past 4 GiB goes to the offset modulo
  \<open>2 ^ 32\<close> and overwrites the file there.\<close>

theorem write_offset_truncated:
  assumes "ys_ok s" "ys_held s = []" "ys_eff s ino = Some ori" "0 \<le> sint off"
  shows "does (yfs_write ino buf off) s (\<lambda>r e. r = yOK \<and> e = (ys_eff s)(ino \<mapsto> write_at ori buf (unat off mod 2 ^ 32)))"
proof -
  have "unat (ucast off :: u32) = unat off mod 2 ^ 32" by (simp add: unsigned_ucast_eq take_bit_eq_mod)
  with does_write [OF assms(1) _ assms(3,4), of buf] assms(2) show ?thesis by simp
qed

theorem write_offset_truncated_witness:
  "does (yfs_write 1 [9] 4294967296) (with_root [1, 2]) (\<lambda>r e. r = yOK \<and> e = [1 \<mapsto> [1, 2], 1 \<mapsto> [9, 2]])"
proof -
  have "0 \<le> sint (4294967296 :: u64)" by (rule sint_nonneg) simp
  from write_offset_truncated [OF with_root_simps(1,2) _ this, of "[1, 2]" 1 "[1, 2]" "[9]"] show ?thesis
    by (simp add: write_at_def)
qed

text \<open>A random inode number is not checked for being in use: if the number drawn is that of a file,
  \<^verbatim>\<open>create\<close> succeeds and empties the file.\<close>

theorem create_may_overwrite:
  assumes "ys_ok s" "ys_held s = []" "isdir p" "ys_eff s p = Some (dir_bytes es)" "searchable es n" "n \<notin> snd ` set es"
    and "\<forall>k. inum_of file (ye_rand (ys_env s k)) = num" "num \<noteq> p"
  shows "does (create p n file ino) s (\<lambda>r e. r = (yOK, num) \<and> e = (ys_eff s)(num \<mapsto> [], p \<mapsto> dir_bytes (es @ [(num, n)])))"
  by (rule does_mono [OF create_any [OF assms(1) _ assms(3-6)]]) (use assms(2,7,8) in auto)

theorem create_may_overwrite_witness:
  "does (create 1 [98] True 0) ((with_root (dir_bytes [(inum_of True 77, [97])]))\<lparr>ys_x := extent_client_new
      (snd (xs_put 3 (snd (xs_put 3 Map.empty 1 (dir_bytes [(inum_of True 77, [97])]))) (inum_of True 77) [5, 6]))\<rparr>)
    (\<lambda>r e. r = (yOK, inum_of True 77) \<and> e (inum_of True 77) = Some [])"
proof -
  let ?i = "inum_of True 77" and ?es = "[(inum_of True 77, [97])] :: dirent list"
  let ?x = "snd (xs_put 3 (snd (xs_put 3 Map.empty 1 (dir_bytes ?es))) ?i [5, 6])"
  let ?s = "(with_root (dir_bytes ?es))\<lparr>ys_x := extent_client_new ?x\<rparr>"
  have i: "?i \<noteq> 1" using isfile_inum_of [of True 77] isdir_1 by (auto simp: isdir_def)
  have x: "xs_ok ?x" by (intro xs_put_ok) (simp add: xs_ok_def)
  have e: "ys_eff ?s 1 = Some (dir_bytes ?es)" using i by (simp add: eff_new xs_put_contents del: dir_bytes_simps)
  have s: "ys_ok ?s" "ys_held ?s = []" using xc_ok_new [OF x] with_root_simps(1) by (simp_all add: ys_ok_def del: dir_bytes_simps)
  have n: "searchable ?es [98]" by (simp add: searchable_def name_ok_def slash_def)
  have k: "\<forall>k. inum_of True (ye_rand (ys_env ?s k)) = ?i" by (simp add: calm_def)
  have "does (create 1 [98] True 0) ?s (\<lambda>r e. r = (yOK, ?i) \<and> e = (ys_eff ?s)(?i \<mapsto> [], 1 \<mapsto> dir_bytes (?es @ [(?i, [98])])))"
    by (rule create_may_overwrite [OF s isdir_1 e n _ k i]) simp
  then show ?thesis by (rule does_mono) (use i in simp)
qed

end
