(* ===== verification/Fuse.thy ===== *)
theory Fuse
  imports Yfs_Client
begin

text \<open>
  The FUSE server of \<^verbatim>\<open>fuse.cc\<close>: the handlers of the low-level FUSE interface, which call the file
  system client and reply to the request. A handler returns the list of the replies it sends. The
  layout of a directory record (\<^verbatim>\<open>fuse_dirent_size\<close>, \<^verbatim>\<open>fuse_add_dirent\<close>) is FUSE's and a parameter; the
  uninitialised \<^verbatim>\<open>struct fuse_entry_param\<close> a handler starts from is a parameter as well. The
  set-up of the mount in \<^verbatim>\<open>main\<close> is not modelled.
\<close>

section \<open>Replies\<close>

record stat_buf =
  st_ino :: u64
  st_dir :: bool
  st_nlink :: nat
  st_atime :: u64
  st_mtime :: u64
  st_ctime :: u64
  st_size :: u64

definition stat_zero :: stat_buf where
  "stat_zero = \<lparr>st_ino = 0, st_dir = False, st_nlink = 0, st_atime = 0, st_mtime = 0, st_ctime = 0, st_size = 0\<rparr>"

record entry_param =
  ep_ino :: u64
  ep_attr :: stat_buf

abbreviation (input) ENOENT :: nat where "ENOENT \<equiv> 2"
abbreviation (input) EEXIST :: nat where "EEXIST \<equiv> 17"
abbreviation (input) ENOTDIR :: nat where "ENOTDIR \<equiv> 20"
abbreviation (input) ENOSYS :: nat where "ENOSYS \<equiv> 38"

datatype reply =
    RErr nat
  | RAttr stat_buf
  | RBuf "byte list"
  | RWrite nat
  | RCreate entry_param
  | REntry entry_param
  | ROpen
  | RStatfs nat nat

section \<open>Handlers\<close>

definition fuse_getattr :: "u64 \<Rightarrow> (int \<times> stat_buf) ym" where
  "fuse_getattr inum =
     (let st = stat_zero\<lparr>st_ino := inum\<rparr> in
      if isfile inum then
        ybind (getfile inum \<lparr>fi_size = 0, fi_atime = 0, fi_mtime = 0, fi_ctime = 0\<rparr>) (\<lambda>(ret, info).
          if ret \<noteq> yOK then yreturn (ret, st)
          else yreturn (yOK, st\<lparr>st_dir := False, st_nlink := 1, st_atime := fi_atime info, st_mtime := fi_mtime info,
            st_ctime := fi_ctime info, st_size := fi_size info\<rparr>))
      else
        ybind (getdir inum \<lparr>di_atime = 0, di_mtime = 0, di_ctime = 0\<rparr>) (\<lambda>(ret, info).
          if ret \<noteq> yOK then yreturn (ret, st)
          else yreturn (yOK, st\<lparr>st_dir := True, st_nlink := 2, st_atime := di_atime info, st_mtime := di_mtime info,
            st_ctime := di_ctime info\<rparr>)))"

definition fuseserver_getattr :: "u64 \<Rightarrow> reply list ym" where
  "fuseserver_getattr ino = ybind (fuse_getattr ino) (\<lambda>(ret, st).
     if ret \<noteq> yOK then yreturn [RErr ENOENT] else yreturn [RAttr st])"

definition fuseserver_setattr :: "u64 \<Rightarrow> u64 \<Rightarrow> bool \<Rightarrow> reply list ym" where
  "fuseserver_setattr ino sz to_set_size =
     (if to_set_size then
        ybind (setattr ino sz) (\<lambda>rs. ybind (fuse_getattr ino) (\<lambda>(_, st).
          if rs = yOK then yreturn [RAttr st] else yreturn [RErr ENOSYS]))
      else yreturn [RErr ENOSYS])"

definition fuseserver_read :: "u64 \<Rightarrow> u64 \<Rightarrow> u64 \<Rightarrow> reply list ym" where
  "fuseserver_read ino sz off = ybind (yfs_read ino sz off []) (\<lambda>(rs, buf).
     if rs = yOK then yreturn [RBuf buf] else yreturn [RErr ENOSYS])"

definition fuseserver_write :: "u64 \<Rightarrow> byte list \<Rightarrow> u64 \<Rightarrow> reply list ym" where
  "fuseserver_write ino buf off = ybind (yfs_write ino buf off) (\<lambda>rs.
     if rs = yOK then yreturn [RWrite (length buf)] else yreturn [RErr ENOSYS])"

definition fuseserver_createhelper :: "entry_param \<Rightarrow> u64 \<Rightarrow> byte list \<Rightarrow> (int \<times> entry_param) ym" where
  "fuseserver_createhelper e parent name = ybind (create parent name True (ep_ino e)) (\<lambda>(rs, ino).
     if rs \<noteq> yOK then yreturn (rs, e\<lparr>ep_ino := ino\<rparr>)
     else ybind (fuse_getattr ino) (\<lambda>(rs, st). yreturn (rs, \<lparr>ep_ino = ino, ep_attr = st\<rparr>)))"

definition fuseserver_create :: "entry_param \<Rightarrow> u64 \<Rightarrow> byte list \<Rightarrow> reply list ym" where
  "fuseserver_create e parent name = ybind (fuseserver_createhelper e parent name) (\<lambda>(ret, e).
     if ret = yOK then yreturn [RCreate e]
     else if ret = yEXIST then yreturn [RErr EEXIST] else yreturn [RErr ENOENT])"

definition fuseserver_mknod :: "entry_param \<Rightarrow> u64 \<Rightarrow> byte list \<Rightarrow> reply list ym" where
  "fuseserver_mknod e parent name = ybind (fuseserver_createhelper e parent name) (\<lambda>(ret, e).
     if ret = yOK then yreturn [REntry e]
     else if ret = yEXIST then yreturn [RErr EEXIST] else yreturn [RErr ENOENT])"

definition fuseserver_lookup :: "entry_param \<Rightarrow> u64 \<Rightarrow> byte list \<Rightarrow> reply list ym" where
  "fuseserver_lookup e parent name = ybind (lookup parent name (ep_ino e)) (\<lambda>(found, ino).
     if found then ybind (fuse_getattr ino) (\<lambda>(_, st). yreturn [REntry \<lparr>ep_ino = ino, ep_attr = st\<rparr>])
     else yreturn [RErr ENOENT])"

text \<open>\<^verbatim>\<open>dirbuf_add\<close>: the record of an entry is appended to the buffer; a name is a C string.\<close>

definition dirbuf_add :: "(byte list \<Rightarrow> u64 \<Rightarrow> byte list) \<Rightarrow> byte list \<Rightarrow> byte list \<Rightarrow> u64 \<Rightarrow> byte list" where
  "dirbuf_add dirent b name ino = b @ dirent (takeWhile (\<lambda>c. c \<noteq> 0) name) ino"

definition reply_buf_limited :: "byte list \<Rightarrow> u64 \<Rightarrow> u64 \<Rightarrow> reply" where
  "reply_buf_limited buf off maxsize =
     (if unat off < length buf then RBuf (take (min (length buf - unat off) (unat maxsize)) (drop (unat off) buf))
      else RBuf [])"

definition fuseserver_readdir :: "(byte list \<Rightarrow> u64 \<Rightarrow> byte list) \<Rightarrow> u64 \<Rightarrow> u64 \<Rightarrow> u64 \<Rightarrow> reply list ym" where
  "fuseserver_readdir dirent ino sz off =
     (if \<not> isdir ino then yreturn [RErr ENOTDIR]
      else ybind (getdata ino) (\<lambda>(ret, buf).
        if ret \<noteq> xOK then yreturn [RErr ENOTDIR, reply_buf_limited [] off sz]
        else yreturn [reply_buf_limited (foldl (\<lambda>b (i, n). dirbuf_add dirent b n i) [] (readdir_loop buf 0)) off sz]))"

definition fuseserver_open :: "reply list ym" where
  "fuseserver_open = yreturn [ROpen]"

definition fuseserver_mkdir :: "entry_param \<Rightarrow> u64 \<Rightarrow> byte list \<Rightarrow> reply list ym" where
  "fuseserver_mkdir e parent name = ybind (create parent name False (ep_ino e)) (\<lambda>(rs, ino).
     if rs = yOK then ybind (fuse_getattr ino) (\<lambda>(_, st). yreturn [REntry \<lparr>ep_ino = ino, ep_attr = st\<rparr>])
     else yreturn [RErr ENOSYS])"

definition fuseserver_unlink :: "u64 \<Rightarrow> byte list \<Rightarrow> reply list ym" where
  "fuseserver_unlink parent name = ybind (unlink parent name) (\<lambda>r.
     if r = yOK then yreturn [RErr 0] else yreturn [RErr ENOSYS])"

definition fuseserver_statfs :: "reply list ym" where
  "fuseserver_statfs = yreturn [RStatfs 255 512]"

section \<open>One reply to a request\<close>

definition replies_once :: "reply list ym \<Rightarrow> bool" where
  "replies_once m \<longleftrightarrow> (\<forall>s rs s'. m s = Inr (rs, s') \<longrightarrow> length rs = 1)"

lemma once_yreturn: "replies_once (yreturn [r])"
  by (simp add: replies_once_def yreturn_def)

lemma once_ybind: "(\<And>x. replies_once (k x)) \<Longrightarrow> replies_once (ybind m k)"
  unfolding replies_once_def ybind_def by (auto simp: rbind_eq_Inr)

lemma once_prod: "(\<And>x y. replies_once (f x y)) \<Longrightarrow> replies_once (case v of (x, y) \<Rightarrow> f x y)"
  by (cases v) simp

lemma once_if: "replies_once a \<Longrightarrow> replies_once b \<Longrightarrow> replies_once (if p then a else b)"
  by simp

lemmas once_rules = once_yreturn once_ybind once_prod once_if

section \<open>Listing\<close>

lemma foldl_dirbuf:
  "foldl (\<lambda>b (i, n). dirbuf_add dirent b n i) b es = b @ concat (map (\<lambda>(i, n). dirent (takeWhile (\<lambda>c. c \<noteq> 0) n) i) es)"
  by (induction es arbitrary: b) (auto simp: dirbuf_add_def)

lemma does_getdata:
  assumes "ys_ok s" "ys_held s = []" "ys_eff s i = Some b"
  shows "does (getdata i) s (\<lambda>r e. r = (xOK, b) \<and> e = ys_eff s)"
proof -
  have "ybind (ec_get i) yreturn = ec_get i"
    by (auto simp: ybind_def yreturn_def fun_eq_iff rbind_def split: sum.splits)
  moreover have "does (scoped_lock i (ybind (ec_get i) yreturn)) s (\<lambda>r e. r = (xOK, b) \<and> e = ys_eff s)"
    by (rule does_locked_get [OF assms(1) _ assms(3)]) (use assms(2) in \<open>auto intro: does_yreturn\<close>)
  ultimately show ?thesis by (simp add: getdata_def)
qed

section \<open>Properties\<close>

text \<open>(C33) Every handler that returns has sent exactly one reply to its request, on every path; only
  \<^verbatim>\<open>fuseserver_readdir\<close> of a directory is left out.\<close>

theorem handlers_reply_once:
  "replies_once (fuseserver_getattr ino) \<and> replies_once (fuseserver_setattr ino sz f) \<and>
   replies_once (fuseserver_read ino sz off) \<and> replies_once (fuseserver_write ino buf off) \<and>
   replies_once (fuseserver_create e p n) \<and> replies_once (fuseserver_mknod e p n) \<and>
   replies_once (fuseserver_lookup e p n) \<and> replies_once fuseserver_open \<and> replies_once (fuseserver_mkdir e p n) \<and>
   replies_once (fuseserver_unlink p n) \<and> replies_once fuseserver_statfs"
  unfolding fuseserver_getattr_def fuseserver_setattr_def fuseserver_read_def fuseserver_write_def fuseserver_create_def
    fuseserver_mknod_def fuseserver_lookup_def fuseserver_open_def fuseserver_mkdir_def fuseserver_unlink_def
    fuseserver_statfs_def
  by (intro conjI once_rules)

text \<open>Listing a directory through FUSE: the reply holds the part the kernel asked for of the records
  of exactly the directory's entries, in order, whatever the layout of a record is.\<close>

theorem readdir_replies_entries:
  assumes "ys_ok s" "ys_held s = []" "isdir i" "ys_eff s i = Some (dir_bytes es)" "\<forall>d \<in> set es. name_ok (snd d) \<and> 0 \<notin> set (snd d)"
  shows "does (fuseserver_readdir dirent i sz off) s (\<lambda>r e. e = ys_eff s \<and>
    r = [RBuf (take (unat sz) (drop (unat off) (concat (map (\<lambda>(j, n). dirent n j) es))))])"
proof -
  have l: "readdir_loop (dir_bytes es) 0 = es" using readdir_loop_entries [of es "[]"] assms(5) by simp
  have "takeWhile (\<lambda>c. c \<noteq> 0) n = n" if "(j, n) \<in> set es" for j n
    using assms(5) that by (force simp: takeWhile_eq_all_conv)
  then have m: "map (\<lambda>(j, n). dirent (takeWhile (\<lambda>c. c \<noteq> 0) n) j) es = map (\<lambda>(j, n). dirent n j) es" by (auto simp del: takeWhile_eq_all_conv)
  have b: "reply_buf_limited b off sz = RBuf (take (unat sz) (drop (unat off) b))" for b
    by (auto simp: reply_buf_limited_def min_def)
  show ?thesis
    unfolding fuseserver_readdir_def
    by (simp add: assms(3), rule does_ybind [OF does_getdata [OF assms(1,2,4)]])
      (auto simp: l foldl_dirbuf m b intro!: does_yreturn)
qed

theorem readdir_replies_entries_witness:
  "does (fuseserver_readdir (\<lambda>n i. n @ [0]) 1 100 2) (with_root (dir_bytes [(12, [97]), (34, [98])]))
     (\<lambda>r e. e = [1 \<mapsto> dir_bytes [(12, [97]), (34, [98])]] \<and> r = [RBuf [98, 0]])"
  using readdir_replies_entries [OF with_root_simps(1,2) isdir_1, of "dir_bytes [(12, [97]), (34, [98])]" "[(12, [97]), (34, [98])]"
      "\<lambda>n i. n @ [0]" 100 2]
  by (simp add: name_ok_def slash_def)

text \<open>A listing whose read fails is answered twice: after the error reply the handler goes on to
  send an empty buffer for the same request.\<close>

theorem readdir_replies_twice:
  assumes "isdir i" "getdata i s = Inr ((ret, buf), s')" "ret \<noteq> xOK"
  shows "fuseserver_readdir dirent i sz off s = Inr ([RErr ENOTDIR, RBuf []], s')"
  using assms by (simp add: fuseserver_readdir_def ybind_def yreturn_def reply_buf_limited_def)

theorem readdir_replies_twice_witness:
  "\<exists>s'. fuseserver_readdir (\<lambda>n i. n) 2 100 0 (with_root []) = Inr ([RErr ENOTDIR, RBuf []], s')"
proof -
  have "isdir 2" by (simp add: isdir_def isfile_def)
  moreover have "\<exists>s'. getdata 2 (with_root []) = Inr ((xNOENT, []), s')"
    by (simp add: getdata_def scoped_lock_def ybind_def lc_acquire_def lc_release_def ec_get_def yreturn_def with_root_def
        yfs_client_new_def extent_client_new_def xc_get_def xs_get_def xs_put_def cur_def calm_def advance_def Let_def xc_at_def)
  ultimately show ?thesis using readdir_replies_twice [of 2 "with_root []" xNOENT "[]"] by auto
qed

end
