(* ===== verification/Thr_Pool.thy ===== *)
theory Thr_Pool
  imports Prelude "HOL-Library.Multiset"
begin

text \<open>
  The bounded queue of \<^verbatim>\<open>rpc/fifo.h\<close> and the thread pool of \<^verbatim>\<open>rpc/thr_pool.h\<close> and \<^verbatim>\<open>rpc/thr_pool.cc\<close>.
  An operation of the queue that would wait on a condition variable is \<open>None\<close>. The pool is a step
  relation over the queue, the workers and the destructor; a job is taken to be any value, and the
  poison pill, a job with a null function, is \<open>None\<close>.

  The locale \<open>fifo_queue\<close> is what the pool relies on; it is interpreted on the queue of the code.
\<close>

section \<open>The queue\<close>

record 'a fifo =
  f_q :: "'a list"
  f_max :: u32

definition fifo_new :: "u32 \<Rightarrow> 'a fifo" where
  "fifo_new limit = \<lparr>f_q = [], f_max = limit\<rparr>"

text \<open>The result type is \<^verbatim>\<open>bool\<close>.\<close>

definition fifo_size :: "'a fifo \<Rightarrow> bool" where
  "fifo_size s \<longleftrightarrow> length (f_q s) \<noteq> 0"

definition enq :: "'a fifo \<Rightarrow> 'a \<Rightarrow> bool \<Rightarrow> (bool \<times> 'a fifo) option" where
  "enq s e blocking =
     (if f_max s = 0 \<or> length (f_q s) < unat (f_max s) then Some (True, s\<lparr>f_q := f_q s @ [e]\<rparr>)
      else if blocking then None
      else Some (False, s))"

definition deq :: "'a fifo \<Rightarrow> ('a \<times> 'a fifo) option" where
  "deq s = (case f_q s of [] \<Rightarrow> None | e # q \<Rightarrow> Some (e, s\<lparr>f_q := q\<rparr>))"

section \<open>The pool\<close>

datatype 'j worker = WIdle | WRun 'j | WDead

text \<open>The pool with its workers; \<open>p_closing\<close> says that the destructor has been called, \<open>p_pills\<close> how many
  pills it has queued, \<open>p_joined\<close> that it has joined all workers. The jobs that \<^verbatim>\<open>addJob\<close> accepted and
  that workers took are recorded in order, and the jobs that have returned.\<close>

record 'j pool =
  p_q :: "'j option fifo"
  p_n :: nat
  p_block :: bool
  p_work :: "nat \<Rightarrow> 'j worker"
  p_closing :: bool
  p_pills :: nat
  p_joined :: bool
  p_accepted :: "'j list"
  p_started :: "'j list"
  p_finished :: "'j list"

definition pool_new :: "nat \<Rightarrow> bool \<Rightarrow> 'j pool" where
  "pool_new sz blocking =
     \<lparr>p_q = fifo_new (of_nat (100 * sz)), p_n = sz, p_block = blocking, p_work = (\<lambda>_. WIdle),
      p_closing = False, p_pills = 0, p_joined = False, p_accepted = [], p_started = [], p_finished = []\<rparr>"

definition addJob :: "'j pool \<Rightarrow> 'j \<Rightarrow> (bool \<times> 'j pool) option" where
  "addJob p j =
     (case enq (p_q p) (Some j) (p_block p) of
        None \<Rightarrow> None
      | Some (ok, q) \<Rightarrow> Some (ok, p\<lparr>p_q := q, p_accepted := p_accepted p @ (if ok then [j] else [])\<rparr>))"

text \<open>\<^verbatim>\<open>takeJob\<close> by worker \<open>i\<close>: it runs the job it got, or dies of the pill.\<close>

definition takeJob :: "'j pool \<Rightarrow> nat \<Rightarrow> 'j pool option" where
  "takeJob p i =
     (case deq (p_q p) of
        None \<Rightarrow> None
      | Some (Some j, q) \<Rightarrow> Some (p\<lparr>p_q := q, p_work := (p_work p)(i := WRun j), p_started := p_started p @ [j]\<rparr>)
      | Some (None, q) \<Rightarrow> Some (p\<lparr>p_q := q, p_work := (p_work p)(i := WDead)\<rparr>))"

definition poison :: "'j pool \<Rightarrow> 'j pool option" where
  "poison p =
     (case enq (p_q p) None True of None \<Rightarrow> None | Some (_, q) \<Rightarrow> Some (p\<lparr>p_q := q, p_pills := Suc (p_pills p)\<rparr>))"

inductive pstep :: "'j pool \<Rightarrow> 'j pool \<Rightarrow> bool" where
  add: "\<not> p_closing p \<Longrightarrow> addJob p j = Some (ok, p') \<Longrightarrow> pstep p p'"
| take: "i < p_n p \<Longrightarrow> p_work p i = WIdle \<Longrightarrow> takeJob p i = Some p' \<Longrightarrow> pstep p p'"
| finish: "i < p_n p \<Longrightarrow> p_work p i = WRun j \<Longrightarrow>
    pstep p (p\<lparr>p_work := (p_work p)(i := WIdle), p_finished := p_finished p @ [j]\<rparr>)"
| close: "\<not> p_closing p \<Longrightarrow> pstep p (p\<lparr>p_closing := True\<rparr>)"
| pill: "p_closing p \<Longrightarrow> p_pills p < p_n p \<Longrightarrow> poison p = Some p' \<Longrightarrow> pstep p p'"
| join: "p_closing p \<Longrightarrow> \<not> p_joined p \<Longrightarrow> p_pills p = p_n p \<Longrightarrow> \<forall>i < p_n p. p_work p i = WDead \<Longrightarrow> pstep p (p\<lparr>p_joined := True\<rparr>)"

section \<open>The contract of the queue\<close>

locale fifo_queue =
  fixes contents :: "'q \<Rightarrow> 'a list"
    and put :: "'q \<Rightarrow> 'a \<Rightarrow> bool \<Rightarrow> (bool \<times> 'q) option"
    and take :: "'q \<Rightarrow> ('a \<times> 'q) option"
  assumes put_ok: "put s e b = Some (ok, s') \<Longrightarrow> contents s' = contents s @ (if ok then [e] else [])"
    and put_blocking: "put s e True = Some (ok, s') \<Longrightarrow> ok"
    and take_ok: "take s = Some (e, s') \<Longrightarrow> contents s = e # contents s'"
    and take_blocks: "take s = None \<Longrightarrow> contents s = []"
begin

text \<open>Through any sequence of operations, what comes out followed by what is left is what was there
  followed by what went in.\<close>

fun qrun :: "'q \<Rightarrow> ('a \<times> bool) option list \<Rightarrow> ('a list \<times> 'a list \<times> 'q)" where
  "qrun s [] = ([], [], s)"
| "qrun s (Some (e, b) # ops) =
     (case put s e b of
        None \<Rightarrow> qrun s ops
      | Some (ok, s') \<Rightarrow> (case qrun s' ops of (xs, ys, t) \<Rightarrow> ((if ok then [e] else []) @ xs, ys, t)))"
| "qrun s (None # ops) =
     (case take s of None \<Rightarrow> qrun s ops | Some (e, s') \<Rightarrow> (case qrun s' ops of (xs, ys, t) \<Rightarrow> (xs, e # ys, t)))"

lemma first_in_first_out:
  "qrun s ops = (xs, ys, t) \<Longrightarrow> contents s @ xs = ys @ contents t"
proof (induction ops arbitrary: s xs ys)
  case (Cons op ops)
  show ?case
  proof (cases op)
    case None
    with Cons show ?thesis by (auto dest!: take_ok split: option.splits prod.splits)
  next
    case (Some x)
    obtain e b where x: "x = (e, b)" by (cases x)
    show ?thesis
    proof (cases "put s e b")
      case None
      with Cons Some x show ?thesis by simp
    next
      case (Some y)
      obtain ok s' where y: "y = (ok, s')" by (cases y)
      obtain us vs where q: "qrun s' ops = (us, vs, t)" "xs = (if ok then [e] else []) @ us" "ys = vs"
        using Cons.prems \<open>op = Some x\<close> x Some y by (auto split: prod.splits)
      from Cons.IH [OF q(1)] put_ok [of s e b ok s'] Some y q show ?thesis by (cases ok) auto
    qed
  qed
qed simp

end

interpretation fq: fifo_queue f_q enq deq
  by unfold_locales (auto simp: enq_def deq_def split: if_splits list.splits)

section \<open>The invariant of the pool\<close>

definition dead_count :: "'j pool \<Rightarrow> nat" where
  "dead_count p = card {i. i < p_n p \<and> p_work p i = WDead}"

definition job_of :: "'j worker \<Rightarrow> 'j multiset" where
  "job_of w = (case w of WRun j \<Rightarrow> {#j#} | _ \<Rightarrow> {#})"

definition running :: "'j pool \<Rightarrow> 'j multiset" where
  "running p = (\<Sum>i < p_n p. job_of (p_work p i))"

text \<open>The queue holds accepted jobs not yet taken, in order, and behind them the pills not yet taken.\<close>

definition pool_ok :: "'j pool \<Rightarrow> bool" where
  "pool_ok p \<longleftrightarrow>
     (\<exists>js k. f_q (p_q p) = map Some js @ replicate k None \<and> p_accepted p = p_started p @ js \<and>
        dead_count p + k = p_pills p \<and> (0 < dead_count p \<longrightarrow> js = [])) \<and>
     p_pills p \<le> p_n p \<and> (0 < p_pills p \<longrightarrow> p_closing p) \<and>
     (p_joined p \<longrightarrow> p_closing p \<and> p_pills p = p_n p \<and> (\<forall>i < p_n p. p_work p i = WDead))"

lemmas pool_defs = addJob_def takeJob_def poison_def

lemma pool_okI:
  "f_q (p_q p) = map Some js @ replicate k None \<Longrightarrow> p_accepted p = p_started p @ js \<Longrightarrow>
   dead_count p + k = p_pills p \<Longrightarrow> (0 < dead_count p \<longrightarrow> js = []) \<Longrightarrow> p_pills p \<le> p_n p \<Longrightarrow>
   (0 < p_pills p \<longrightarrow> p_closing p) \<Longrightarrow>
   (p_joined p \<longrightarrow> p_closing p \<and> p_pills p = p_n p \<and> (\<forall>i < p_n p. p_work p i = WDead)) \<Longrightarrow> pool_ok p"
  unfolding pool_ok_def by (intro conjI exI [of _ js] exI [of _ k]) simp_all

lemma pool_okE:
  assumes "pool_ok p"
  obtains js k where "f_q (p_q p) = map Some js @ replicate k None" "p_accepted p = p_started p @ js"
    "dead_count p + k = p_pills p" "0 < dead_count p \<longrightarrow> js = []" "p_pills p \<le> p_n p" "0 < p_pills p \<longrightarrow> p_closing p"
    "p_joined p \<longrightarrow> p_closing p \<and> p_pills p = p_n p \<and> (\<forall>i < p_n p. p_work p i = WDead)"
  using assms unfolding pool_ok_def by (elim conjE exE) simp

lemma dead_count_irrelevant [simp]:
  "dead_count (p\<lparr>p_q := q\<rparr>) = dead_count p" "dead_count (p\<lparr>p_accepted := a\<rparr>) = dead_count p"
  "dead_count (p\<lparr>p_started := b\<rparr>) = dead_count p" "dead_count (p\<lparr>p_pills := n\<rparr>) = dead_count p"
  "dead_count (p\<lparr>p_closing := c\<rparr>) = dead_count p" "dead_count (p\<lparr>p_joined := c\<rparr>) = dead_count p"
  "dead_count (p\<lparr>p_finished := f\<rparr>) = dead_count p"
  by (simp_all add: dead_count_def)

lemma dead_count_alive:
  assumes "p_work p i \<noteq> WDead" "w \<noteq> WDead"
  shows "dead_count (p\<lparr>p_work := (p_work p)(i := w)\<rparr>) = dead_count p"
proof -
  have "{j. j < p_n p \<and> ((p_work p)(i := w)) j = WDead} = {j. j < p_n p \<and> p_work p j = WDead}" using assms by auto
  then show ?thesis by (simp add: dead_count_def)
qed

lemma dead_count_dies:
  assumes "i < p_n p" "p_work p i \<noteq> WDead"
  shows "dead_count (p\<lparr>p_work := (p_work p)(i := WDead)\<rparr>) = Suc (dead_count p)"
proof -
  have "{j. j < p_n p \<and> ((p_work p)(i := WDead)) j = WDead} = insert i {j. j < p_n p \<and> p_work p j = WDead}"
    using assms by auto
  then show ?thesis using assms(2) by (simp add: dead_count_def)
qed

lemma dead_count_all: "\<forall>i < p_n p. p_work p i = WDead \<Longrightarrow> dead_count p = p_n p"
proof -
  assume "\<forall>i < p_n p. p_work p i = WDead"
  then have "{i. i < p_n p \<and> p_work p i = WDead} = {..<p_n p}" by auto
  then show ?thesis by (simp add: dead_count_def)
qed

lemma pool_ok_new: "pool_ok (pool_new sz b)"
  by (rule pool_okI [of _ "[]" 0]) (simp_all add: pool_new_def fifo_new_def dead_count_def)

lemma pool_ok_step:
  assumes "pstep p p'" "pool_ok p"
  shows "pool_ok p'"
  using assms(2)
proof (rule pool_okE)
  fix js k
  assume ok: "f_q (p_q p) = map Some js @ replicate k None" "p_accepted p = p_started p @ js"
    "dead_count p + k = p_pills p" "0 < dead_count p \<longrightarrow> js = []" "p_pills p \<le> p_n p" "0 < p_pills p \<longrightarrow> p_closing p"
    "p_joined p \<longrightarrow> p_closing p \<and> p_pills p = p_n p \<and> (\<forall>i < p_n p. p_work p i = WDead)"
  from assms(1) show ?thesis
  proof cases
    case (add j ok')
    then obtain q where q: "enq (p_q p) (Some j) (p_block p) = Some (ok', q)"
      "p' = p\<lparr>p_q := q, p_accepted := p_accepted p @ (if ok' then [j] else [])\<rparr>"
      by (auto simp: pool_defs split: option.splits)
    show ?thesis
      by (rule pool_okI [of _ "js @ (if ok' then [j] else [])" k]) (use q ok add fq.put_ok [OF q(1)] in auto)
  next
    case (take i)
    have alive: "p_work p i \<noteq> WDead" using take by simp
    show ?thesis
    proof (cases js)
      case (Cons j js')
      then have "deq (p_q p) = Some (Some j, (p_q p)\<lparr>f_q := map Some js' @ replicate k None\<rparr>)" using ok(1) by (simp add: deq_def)
      with take(3) have p': "p' = p\<lparr>p_q := (p_q p)\<lparr>f_q := map Some js' @ replicate k None\<rparr>,
        p_work := (p_work p)(i := WRun j), p_started := p_started p @ [j]\<rparr>" by (simp add: takeJob_def)
      then have d: "dead_count p' = dead_count p" using dead_count_alive [OF alive, of "WRun j"] by (simp add: dead_count_def)
      show ?thesis
        by (rule pool_okI [of _ js' k]) (use p' ok Cons take d in \<open>auto simp del: dead_count_irrelevant\<close>)
    next
      case Nil
      then obtain k' where k: "k = Suc k'" using take(3) ok(1) by (cases k) (auto simp: takeJob_def deq_def)
      with Nil ok(1) have "deq (p_q p) = Some (None, (p_q p)\<lparr>f_q := replicate k' None\<rparr>)" by (simp add: deq_def)
      with take(3) have p': "p' = p\<lparr>p_q := (p_q p)\<lparr>f_q := replicate k' None\<rparr>, p_work := (p_work p)(i := WDead)\<rparr>"
        by (simp add: takeJob_def)
      then have d: "dead_count p' = Suc (dead_count p)" using dead_count_dies [OF take(1) alive] by (simp add: dead_count_def)
      show ?thesis by (rule pool_okI [of _ "[]" k']) (use p' ok Nil take k d in auto)
    qed
  next
    case (finish i j)
    then have alive: "p_work p i \<noteq> WDead" by simp
    then have d: "dead_count p' = dead_count p"
      using finish(1) dead_count_alive [OF alive, of WIdle] by (simp add: dead_count_def)
    show ?thesis by (rule pool_okI [of _ js k]) (use ok finish d in auto)
  next
    case close
    show ?thesis by (rule pool_okI [of _ js k]) (use ok close in auto)
  next
    case pill
    then obtain q b where q: "enq (p_q p) None True = Some (b, q)" "p' = p\<lparr>p_q := q, p_pills := Suc (p_pills p)\<rparr>"
      by (auto simp: pool_defs split: option.splits)
    have "f_q q = map Some js @ replicate (Suc k) None"
      using fq.put_ok [OF q(1)] fq.put_blocking [OF q(1)] ok(1) by (simp add: replicate_append_same)
    then show ?thesis by (intro pool_okI [of _ js "Suc k"]) (use q ok pill in auto)
  next
    case join
    show ?thesis by (rule pool_okI [of _ js k]) (use ok join in auto)
  qed
qed

definition preachable :: "nat \<Rightarrow> bool \<Rightarrow> 'j pool \<Rightarrow> bool" where
  "preachable sz b p \<longleftrightarrow> pstep\<^sup>*\<^sup>* (pool_new sz b) p"


lemma preachable_ok: "preachable sz b p \<Longrightarrow> pool_ok p"
  unfolding preachable_def by (induction rule: rtranclp_induct) (auto intro: pool_ok_new pool_ok_step)

lemma preachable_n: "preachable sz b p \<Longrightarrow> p_n p = sz"
  unfolding preachable_def
proof (induction rule: rtranclp_induct)
  case (step p p')
  from step.hyps(2) have "p_n p' = p_n p"
    by cases (auto simp: pool_defs split: option.splits prod.splits)
  with step.IH show ?case by simp
qed (simp add: pool_new_def)

section \<open>Every job that started is running or has returned\<close>

lemma running_upd:
  assumes "i < p_n p" "p_n p' = p_n p" "p_work p' = (p_work p)(i := w)"
  shows "running p' + job_of (p_work p i) = running p + job_of w"
proof -
  have "(\<Sum>j < p_n p. job_of (((p_work p)(i := w)) j)) = job_of w + (\<Sum>j \<in> {..<p_n p} - {i}. job_of (p_work p j))"
    using assms(1) by (simp add: sum.remove [of _ i])
  moreover have "(\<Sum>j < p_n p. job_of (p_work p j)) = job_of (p_work p i) + (\<Sum>j \<in> {..<p_n p} - {i}. job_of (p_work p j))"
    using assms(1) by (simp add: sum.remove [of _ i])
  ultimately show ?thesis using assms(2,3) by (simp add: running_def)
qed

lemma running_same: "p_n p' = p_n p \<Longrightarrow> p_work p' = p_work p \<Longrightarrow> running p' = running p"
  by (simp add: running_def)

definition jobs_ok :: "'j pool \<Rightarrow> bool" where
  "jobs_ok p \<longleftrightarrow> mset (p_started p) = mset (p_finished p) + running p"

lemma jobs_ok_step:
  assumes "pstep p p'" "jobs_ok p"
  shows "jobs_ok p'"
  using assms(1)
proof cases
  case (take i)
  from take(3) show ?thesis
    using assms(2) running_upd [OF take(1), of p'] take(2)
    by (auto simp: jobs_ok_def pool_defs job_of_def split: option.splits prod.splits)
next
  case (finish i j)
  then have "running p' + {#j#} = running p" using running_upd [OF finish(2), of p' WIdle] by (simp add: job_of_def)
  with assms(2) finish show ?thesis by (auto simp: jobs_ok_def add.commute)
qed (use assms(2) running_same [of p' p] in \<open>auto simp: jobs_ok_def pool_defs split: option.splits prod.splits\<close>)

lemma preachable_jobs: "preachable sz b p \<Longrightarrow> jobs_ok p"
  unfolding preachable_def
proof (induction rule: rtranclp_induct)
  case base
  show ?case by (simp add: jobs_ok_def running_def pool_new_def job_of_def)
qed (rule jobs_ok_step)

lemma joined_all_started:
  assumes "pool_ok p" "p_joined p" "0 < p_n p"
  shows "p_started p = p_accepted p"
  using assms(1)
proof (rule pool_okE)
  fix js k
  assume ok: "p_accepted p = p_started p @ js" "0 < dead_count p \<longrightarrow> js = []"
    "p_joined p \<longrightarrow> p_closing p \<and> p_pills p = p_n p \<and> (\<forall>i < p_n p. p_work p i = WDead)"
  with assms(2,3) dead_count_all [of p] show ?thesis by simp
qed

text \<open>(C25) The pool runs every job it accepted exactly once: in every run of a pool with at least one
  worker, jobs are started in the order in which \<^verbatim>\<open>addJob\<close> accepted them, none twice, and when the
  destructor has joined the workers every accepted job has been started and has returned.\<close>

theorem pool_runs_every_job:
  assumes "preachable sz b p"
  shows "\<exists>js. p_accepted p = p_started p @ js \<and> (p_joined p \<and> 0 < sz \<longrightarrow> js = [] \<and> mset (p_finished p) = mset (p_accepted p))"
proof -
  from preachable_ok [OF assms] obtain js where js: "p_accepted p = p_started p @ js" by (rule pool_okE)
  have "js = [] \<and> mset (p_finished p) = mset (p_accepted p)" if j: "p_joined p" "0 < sz"
  proof -
    have n: "p_n p = sz" by (rule preachable_n [OF assms])
    from joined_all_started [OF preachable_ok [OF assms] j(1)] j(2) n have a: "p_started p = p_accepted p" by simp
    from preachable_ok [OF assms] j(1) have "\<forall>i < p_n p. p_work p i = WDead" by (simp add: pool_ok_def)
    then have "running p = {#}" by (simp add: running_def job_of_def)
    with preachable_jobs [OF assms] have f: "mset (p_finished p) = mset (p_started p)" by (simp add: jobs_ok_def)
    have "js = []" using js unfolding a by simp
    with f a show ?thesis by simp
  qed
  with js show ?thesis by blast
qed

text \<open>A run of a pool with one worker that accepts one job and is then destroyed.\<close>

definition demo :: "nat option list \<Rightarrow> nat worker \<Rightarrow> bool \<Rightarrow> nat \<Rightarrow> bool \<Rightarrow> nat list \<Rightarrow> nat list \<Rightarrow> nat list \<Rightarrow> nat pool" where
  "demo q w c k jd a s f =
     \<lparr>p_q = \<lparr>f_q = q, f_max = 100\<rparr>, p_n = 1, p_block = False, p_work = (\<lambda>_. WIdle)(0 := w), p_closing = c, p_pills = k,
      p_joined = jd, p_accepted = a, p_started = s, p_finished = f\<rparr>"

lemma demo_new: "pool_new 1 False = demo [] WIdle False 0 False [] [] []"
  by (simp add: pool_new_def demo_def fifo_new_def fun_eq_iff)

lemma demo_run:
  "preachable 1 False (demo [None] WIdle True 1 False [7] [7] [7])"
  "preachable 1 False (demo [] WDead True 1 True [7] [7] [7])"
proof -
  note defs = demo_def pool_defs enq_def deq_def fun_upd_def fun_eq_iff
  have 1: "pstep (demo [] WIdle False 0 False [] [] []) (demo [Some 7] WIdle False 0 False [7] [] [])"
    by (rule pstep.add [where j = 7 and ok = True]) (simp_all add: defs)
  have 2: "pstep (demo [Some 7] WIdle False 0 False [7] [] []) (demo [] (WRun 7) False 0 False [7] [7] [])"
    by (rule pstep.take [where i = 0]) (simp_all add: defs)
  have 3: "pstep (demo [] (WRun 7) False 0 False [7] [7] []) (demo [] WIdle False 0 False [7] [7] [7])"
    using pstep.finish [of 0 "demo [] (WRun 7) False 0 False [7] [7] []" 7] by (simp add: demo_def)
  have 4: "pstep (demo [] WIdle False 0 False [7] [7] [7]) (demo [] WIdle True 0 False [7] [7] [7])"
    using pstep.close [of "demo [] WIdle False 0 False [7] [7] [7]"] by (simp add: demo_def)
  have 5: "pstep (demo [] WIdle True 0 False [7] [7] [7]) (demo [None] WIdle True 1 False [7] [7] [7])"
    by (rule pstep.pill) (simp_all add: defs)
  have 6: "pstep (demo [None] WIdle True 1 False [7] [7] [7]) (demo [] WDead True 1 False [7] [7] [7])"
    by (rule pstep.take [where i = 0]) (simp_all add: defs)
  have 7: "pstep (demo [] WDead True 1 False [7] [7] [7]) (demo [] WDead True 1 True [7] [7] [7])"
    using pstep.join [of "demo [] WDead True 1 False [7] [7] [7]"] by (simp add: demo_def)
  show a: "preachable 1 False (demo [None] WIdle True 1 False [7] [7] [7])"
    unfolding preachable_def demo_new by (rule converse_rtranclp_into_rtranclp 1 2 3 4 5 rtranclp.rtrancl_refl)+
  from rtranclp.rtrancl_into_rtrancl [OF rtranclp.rtrancl_into_rtrancl [OF a [unfolded preachable_def] 6] 7]
  show "preachable 1 False (demo [] WDead True 1 True [7] [7] [7])" unfolding preachable_def .
qed

theorem pool_runs_every_job_witness:
  "\<exists>js. [7] = [7] @ js \<and> mset (p_finished (demo [] WDead True 1 True [7] [7] [7])) = {#7#}"
  using pool_runs_every_job [OF demo_run(2)] by (auto simp: demo_def)

section \<open>The destructor returns\<close>

text \<open>What is left to do once the destructor has been called.\<close>

definition pool_left :: "'j pool \<Rightarrow> nat" where
  "pool_left p = 3 * length (f_q (p_q p)) + 4 * (p_n p - p_pills p) + 2 * size (running p) + (if p_joined p then 0 else 1)"

lemma closing_step_decreases:
  assumes "pstep p p'" "p_closing p"
  shows "pool_left p' < pool_left p"
  using assms(1)
proof cases
  case (take i)
  from take(3) show ?thesis
    using running_upd [OF take(1), of p'] take(2)
    by (auto simp: pool_left_def pool_defs job_of_def deq_def split: option.splits prod.splits list.splits)
next
  case (finish i j)
  then have "running p' + {#j#} = running p" using running_upd [OF finish(2), of p' WIdle] by (simp add: job_of_def)
  then have "size (running p) = Suc (size (running p'))" by (metis size_add_mset union_mset_add_mset_right add.right_neutral)
  with finish show ?thesis by (simp add: pool_left_def)
next
  case pill
  then show ?thesis
    using running_same [of p' p] by (auto simp: pool_left_def pool_defs enq_def split: if_splits)
next
  case join
  then show ?thesis using running_same [of p' p] by (simp add: pool_left_def)
qed (use assms(2) in auto)

lemma alive_worker:
  assumes "dead_count p < p_n p"
  shows "\<exists>i < p_n p. p_work p i \<noteq> WDead"
  using assms dead_count_all [of p] by fastforce

lemma closing_step_possible:
  assumes "pool_ok p" "p_closing p" "\<not> p_joined p"
  shows "\<exists>p'. pstep p p'"
  using assms(1)
proof (rule pool_okE)
  fix js k
  assume ok: "f_q (p_q p) = map Some js @ replicate k None" "dead_count p + k = p_pills p" "p_pills p \<le> p_n p"
  have go: "\<exists>p'. pstep p p'" if i: "i < p_n p" "p_work p i \<noteq> WDead" and q: "f_q (p_q p) \<noteq> []" for i
  proof (cases "p_work p i")
    case WIdle
    obtain x xs where "f_q (p_q p) = x # xs" using q by (cases "f_q (p_q p)") auto
    then obtain p' where "takeJob p i = Some p'" by (cases x) (auto simp: takeJob_def deq_def)
    with pstep.take [OF i(1) WIdle] show ?thesis by blast
  next
    case (WRun j)
    from pstep.finish [OF i(1) this] show ?thesis by blast
  qed (use i in simp)
  show ?thesis
  proof (cases "p_pills p < p_n p")
    case True
    show ?thesis
    proof (cases "poison p")
      case (Some p')
      from pstep.pill [OF assms(2) True this] show ?thesis by blast
    next
      case None
      then have "f_q (p_q p) \<noteq> []" by (auto simp: poison_def enq_def word_neq_0_conv unat_gt_0 split: if_splits)
      with go alive_worker [of p] ok(2) True show ?thesis by force
    qed
  next
    case False
    with ok(3) have n: "p_pills p = p_n p" by simp
    show ?thesis
    proof (cases "\<forall>i < p_n p. p_work p i = WDead")
      case True
      from pstep.join [OF assms(2,3) n this] show ?thesis by blast
    next
      case False
      then obtain i where i: "i < p_n p" "p_work p i \<noteq> WDead" by blast
      have "{j. j < p_n p \<and> p_work p j = WDead} \<subset> {..<p_n p}" using i by auto
      then have "dead_count p < p_n p" unfolding dead_count_def using psubset_card_mono [of "{..<p_n p}"] by simp
      with ok(1,2) n have "f_q (p_q p) \<noteq> []" by auto
      with go [OF i] show ?thesis .
    qed
  qed
qed

text \<open>(C26) The destructor of the pool returns, whatever is queued and whether or not the queue is full,
  as long as the jobs return: once it has been called every step of a worker or of the destructor
  brings the end nearer, and until it has joined all workers some step is possible.\<close>

theorem pool_destructor_returns:
  assumes "preachable sz b p" "p_closing p"
  shows "(\<forall>p'. pstep p p' \<longrightarrow> pool_left p' < pool_left p) \<and> (\<not> p_joined p \<longrightarrow> (\<exists>p'. pstep p p'))"
  using closing_step_decreases [OF _ assms(2)] closing_step_possible [OF preachable_ok [OF assms(1)] assms(2)] by blast


theorem pool_destructor_returns_witness:
  "\<exists>p'. pstep (demo [None] WIdle True 1 False [7] [7] [7]) p' \<and> pool_left p' < pool_left (demo [None] WIdle True 1 False [7] [7] [7])"
  using pool_destructor_returns [OF demo_run(1)] by (auto simp: demo_def)

end
