(* ===== verification/Call_Timeout.thy ===== *)
theory Call_Timeout
  imports Prelude "HOL-Library.Signed_Division"
begin

text \<open>
  The time arithmetic at the end of \<^verbatim>\<open>rpc/rpc.cc\<close> and the waiting loop of \<^verbatim>\<open>rpcc::call1\<close>, which sends the
  request, waits for the reply with a deadline that doubles, and sends again on a new connection if
  the old one died.

  The fields of a \<^verbatim>\<open>timespec\<close> are integers: on the 64-bit platforms of the program they do not overflow
  for the clock values that occur. The timeouts are \<^verbatim>\<open>int\<close>s, and the shift that doubles one faults when
  it leaves the type. What the loop sees of the world in one round is a \<open>round\<close>: the connection
  attempt, how often and with which flag \<^verbatim>\<open>pthread_cond_timedwait\<close> wakes up before the deadline, the
  flag at the deadline, and how much later the clock is read again. \<open>None\<close> is a loop that has not
  ended within its fuel.
\<close>

section \<open>Time\<close>

record timespec =
  tv_sec :: int
  tv_nsec :: int

definition cmp_timespec :: "timespec \<Rightarrow> timespec \<Rightarrow> int" where
  "cmp_timespec a b =
     (if tv_sec a > tv_sec b then 1
      else if tv_sec a < tv_sec b then -1
      else if tv_nsec a > tv_nsec b then 1
      else if tv_nsec a < tv_nsec b then -1
      else 0)"

function carry :: "timespec \<Rightarrow> timespec" where
  "carry t =
     (if tv_nsec t > 1000000000 then carry \<lparr>tv_sec = tv_sec t + 1, tv_nsec = tv_nsec t - 1000000000\<rparr> else t)"
  by pat_completeness auto
termination by (relation "measure (\<lambda>t. nat (tv_nsec t))") auto

declare carry.simps [simp del]

definition add_timespec :: "timespec \<Rightarrow> int \<Rightarrow> timespec res" where
  "add_timespec a b =
     (let r = \<lparr>tv_sec = tv_sec a + b sdiv 1000, tv_nsec = tv_nsec a + (b smod 1000) * 1000000\<rparr> in
      if tv_nsec r \<ge> 0 then Inr (carry r) else Inl Abort)"

text \<open>\<^verbatim>\<open>diff\<close> is an \<^verbatim>\<open>int\<close>: what is assigned to it is cut to 32 bits.\<close>

definition as_int :: "int \<Rightarrow> int" where
  "as_int x = sint (word_of_int x :: u32)"

definition diff_timespec :: "timespec \<Rightarrow> timespec \<Rightarrow> int res" where
  "diff_timespec e s =
     (let diff = as_int (if tv_sec e > tv_sec s then (tv_sec e - tv_sec s) * 1000 else 0) in
      if diff \<noteq> 0 \<or> tv_sec e = tv_sec s then
        Inr (as_int (if tv_nsec e > tv_nsec s then diff + (tv_nsec e - tv_nsec s) sdiv 1000000
             else diff - (tv_nsec s - tv_nsec e) sdiv 1000000))
      else Inl Abort)"

text \<open>The instant a \<^verbatim>\<open>timespec\<close> stands for, in nanoseconds, and the reading of the clock at an instant.\<close>

definition instant :: "timespec \<Rightarrow> int" where
  "instant t = tv_sec t * 1000000000 + tv_nsec t"

definition clock :: "int \<Rightarrow> timespec" where
  "clock v = \<lparr>tv_sec = v div 1000000000, tv_nsec = v mod 1000000000\<rparr>"

section \<open>The waiting loop\<close>

definition to_max :: int where "to_max = 120000"
definition to_min :: int where "to_min = 1000"

record round =
  r_delay :: nat
  r_conn :: bool
  r_done :: bool
  r_wakes :: "bool list"
  r_last :: bool
  r_dead :: bool

text \<open>The inner loop: it waits until the flag is set or the deadline has passed. With a nanosecond field
  outside its range \<^verbatim>\<open>pthread_cond_timedwait\<close> fails at once and keeps the mutex, so the flag stays as
  it is.\<close>

definition valid_deadline :: "timespec \<Rightarrow> bool" where
  "valid_deadline t \<longleftrightarrow> 0 \<le> tv_nsec t \<and> tv_nsec t < 1000000000"

fun wait_reply :: "nat \<Rightarrow> timespec \<Rightarrow> bool list \<Rightarrow> bool \<Rightarrow> bool \<Rightarrow> bool option" where
  "wait_reply 0 dl ws fl done = None"
| "wait_reply (Suc n) dl ws fl done =
     (if done then Some True
      else if \<not> valid_deadline dl then wait_reply n dl ws fl done
      else case ws of [] \<Rightarrow> Some fl | w # ws \<Rightarrow> wait_reply n dl ws fl w)"

text \<open>The outer loop from the instant \<open>now\<close>. It gives whether the reply came, how often the request was
  handed to a connection, and an instant that has passed at the end.\<close>

record wait_state =
  w_now :: int
  w_final :: timespec
  w_to :: int
  w_transmit :: bool
  w_ch :: bool
  w_sent :: nat

definition shift_to :: "int \<Rightarrow> int res" where
  "shift_to t = (if 0 \<le> t \<and> 2 * t < 2 ^ 31 then Inr (2 * t) else Inl SignedOverflow)"

fun call1_loop ::
  "bool \<Rightarrow> bool \<Rightarrow> (nat \<Rightarrow> round) \<Rightarrow> nat \<Rightarrow> nat \<Rightarrow> wait_state \<Rightarrow> (bool \<times> nat \<times> int) res option" where
  "call1_loop retrans reachable env 0 i w = None"
| "call1_loop retrans reachable env (Suc n) i w =
     (let r = env i;
          ch = (if w_transmit w then w_ch w \<or> r_conn r else w_ch w);
          sent = (if w_transmit w \<and> ch \<and> reachable then Suc (w_sent w) else w_sent w)
      in
      if tv_sec (w_final w) = 0 then Some (Inr (False, sent, w_now w))
      else
        let now = w_now w + int (r_delay r) in
        case add_timespec (clock now) (w_to w) of
          Inl f \<Rightarrow> Some (Inl f)
        | Inr next \<Rightarrow>
            (let late = cmp_timespec next (w_final w) > 0;
                 dl = (if late then w_final w else next);
                 fin = (if late then (w_final w)\<lparr>tv_sec := 0\<rparr> else w_final w)
             in
             case wait_reply n dl (r_wakes r) (r_last r) (r_done r) of
               None \<Rightarrow> None
             | Some True \<Rightarrow> Some (Inr (True, sent, now))
             | Some False \<Rightarrow>
                 (case shift_to (w_to w) of
                    Inl f \<Rightarrow> Some (Inl f)
                  | Inr to \<Rightarrow>
                      call1_loop retrans reachable env n (Suc i)
                        \<lparr>w_now = max now (instant dl), w_final = fin, w_to = to,
                         w_transmit = retrans \<and> (\<not> ch \<or> r_dead r), w_ch = ch, w_sent = sent\<rparr>)))"

definition call1_wait ::
  "bool \<Rightarrow> bool \<Rightarrow> (nat \<Rightarrow> round) \<Rightarrow> nat \<Rightarrow> int \<Rightarrow> int \<Rightarrow> (bool \<times> nat \<times> int) res option" where
  "call1_wait retrans reachable env n start to =
     (case add_timespec (clock start) to of
        Inl f \<Rightarrow> Some (Inl f)
      | Inr fin \<Rightarrow> call1_loop retrans reachable env n 0
          \<lparr>w_now = start, w_final = fin, w_to = to_min, w_transmit = True, w_ch = False, w_sent = 0\<rparr>)"

section \<open>The arithmetic\<close>

lemma instant_carry [simp]: "instant (carry t) = instant t"
  by (induction t rule: carry.induct) (subst carry.simps, simp add: instant_def algebra_simps)

lemma carry_range: "0 \<le> tv_nsec t \<Longrightarrow> 0 \<le> tv_nsec (carry t) \<and> tv_nsec (carry t) \<le> 1000000000"
  by (induction t rule: carry.induct) (subst (1 2) carry.simps, simp)

lemma instant_clock [simp]: "instant (clock v) = v"
  by (simp add: instant_def clock_def)

lemma clock_range: "0 \<le> tv_nsec (clock v)" "tv_nsec (clock v) < 1000000000"
  by (simp_all add: clock_def)

lemma sdiv_smod_nonneg: "0 \<le> b \<Longrightarrow> b sdiv 1000 = b div (1000::int)" "0 \<le> b \<Longrightarrow> b smod 1000 = b mod (1000::int)"
  by (simp_all add: signed_divide_int_def signed_modulo_int_def minus_mult_div_eq_mod sgn_if)

lemma add_timespec_ok:
  assumes "0 \<le> b" "0 \<le> tv_nsec a"
  shows "\<exists>r. add_timespec a b = Inr r \<and> instant r = instant a + b * 1000000 \<and> 0 \<le> tv_nsec r \<and> tv_nsec r \<le> 1000000000"
proof -
  let ?r = "\<lparr>tv_sec = tv_sec a + b div 1000, tv_nsec = tv_nsec a + (b mod 1000) * 1000000\<rparr>"
  have r: "0 \<le> tv_nsec ?r" using assms(2) by simp
  have "b * 1000000 = (b div 1000) * 1000000000 + (b mod 1000) * 1000000"
    using div_mult_mod_eq [of b 1000] by (smt (verit) mult.assoc distrib_right)
  then have "instant ?r = instant a + b * 1000000" by (simp add: instant_def algebra_simps)
  with r carry_range [OF r] show ?thesis
    using assms(1) by (simp add: add_timespec_def Let_def sdiv_smod_nonneg)
qed

text \<open>With a whole number of seconds the nanoseconds stay as they are.\<close>

lemma add_timespec_seconds:
  assumes "0 \<le> b" "b mod 1000 = 0" "0 \<le> tv_nsec a" "tv_nsec a < 1000000000"
  shows "add_timespec a b = Inr (a\<lparr>tv_sec := tv_sec a + b div 1000\<rparr>)"
  using assms by (cases a) (simp add: add_timespec_def Let_def sdiv_smod_nonneg carry.simps)

lemma cmp_later:
  assumes "instant b < instant a" "0 \<le> tv_nsec a" "tv_nsec a \<le> 1000000000" "0 \<le> tv_nsec b"
  shows "cmp_timespec a b = 1"
  using assms by (auto simp: cmp_timespec_def instant_def)

lemma cmp_not_later:
  assumes "\<not> 0 < cmp_timespec a b" "0 \<le> tv_nsec a" "tv_nsec a \<le> 1000000000" "0 \<le> tv_nsec b"
  shows "instant a \<le> instant b"
  using assms cmp_later [of b a] by fastforce

section \<open>The call returns\<close>

lemma wait_reply_returns:
  "valid_deadline dl \<Longrightarrow> length ws < n \<Longrightarrow> \<exists>b. wait_reply n dl ws fl d = Some b"
proof (induction ws arbitrary: n d)
  case Nil
  then obtain n' where "n = Suc n'" by (cases n) auto
  with Nil show ?case by auto
next
  case (Cons w ws)
  then obtain n' where n: "n = Suc n'" "length ws < n'" by (cases n) auto
  with Cons.IH [OF Cons.prems(1) n(2), of w] Cons.prems(1) show ?case by auto
qed

lemma wait_reply_stuck:
  "\<not> valid_deadline dl \<Longrightarrow> wait_reply n dl ws fl False = None"
  by (induction n) auto

lemma shift_to_ok: "i \<le> 20 \<Longrightarrow> shift_to (1000 * 2 ^ i) = Inr (1000 * 2 ^ Suc i)"
  using power_increasing [of i 20 "2 :: int"] by (simp add: shift_to_def)

text \<open>The state in round \<open>i\<close> as long as the final deadline has not been reached.\<close>

definition wait_ok :: "int \<Rightarrow> timespec \<Rightarrow> nat \<Rightarrow> wait_state \<Rightarrow> bool" where
  "wait_ok start fin i w \<longleftrightarrow>
     w_final w = fin \<and> w_to w = 1000 * 2 ^ i \<and> start + 1000 * (2 ^ i - 1) * 1000000 \<le> w_now w"

lemma round_deadline:
  "add_timespec (clock now) (1000 * 2 ^ i) = Inr ((clock now)\<lparr>tv_sec := tv_sec (clock now) + 2 ^ i\<rparr>)"
  using add_timespec_seconds [of "1000 * 2 ^ i" "clock now"] clock_range [of now] by simp

text \<open>One round: it ends with the reply; or with the final deadline passed; or the loop goes on, and then
  the deadline of the round was not after the final one.\<close>

lemma call1_round:
  assumes "valid_deadline fin" "tv_sec fin \<noteq> 0" "i \<le> 20" "length (r_wakes (env i)) \<le> n" "wait_ok start fin i w"
  obtains (replied) s t where "call1_loop rt rb env (Suc (Suc n)) i w = Some (Inr (True, s, t))" "s \<le> Suc (w_sent w)"
  | (expired) s t where "call1_loop rt rb env (Suc (Suc n)) i w = Some (Inr (False, s, t))" "s \<le> w_sent w + 2" "instant fin \<le> t"
  | (again) w' where "call1_loop rt rb env (Suc (Suc n)) i w = call1_loop rt rb env (Suc n) (Suc i) w'"
      "wait_ok start fin (Suc i) w'" "w_sent w' \<le> Suc (w_sent w)" "start + 1000 * (2 ^ Suc i - 1) * 1000000 \<le> instant fin"
proof -
  let ?r = "env i"
  define now where "now = w_now w + int (r_delay ?r)"
  define nxt where "nxt = (clock now)\<lparr>tv_sec := tv_sec (clock now) + 2 ^ i\<rparr>"
  define late where "late \<longleftrightarrow> cmp_timespec nxt fin > 0"
  define dl where "dl = (if late then fin else nxt)"
  define ch where "ch = (if w_transmit w then w_ch w \<or> r_conn ?r else w_ch w)"
  define sent where "sent = (if w_transmit w \<and> ch \<and> rb then Suc (w_sent w) else w_sent w)"
  have w: "w_final w = fin" "w_to w = 1000 * 2 ^ i" "start + 1000 * (2 ^ i - 1) * 1000000 \<le> now"
    using assms(5) by (auto simp: wait_ok_def now_def)
  have nxt: "valid_deadline nxt" "instant nxt = now + 1000 * 2 ^ i * 1000000"
    using clock_range [of now] instant_clock [of now] by (auto simp: nxt_def valid_deadline_def instant_def algebra_simps)
  have "valid_deadline dl" using assms(1) nxt(1) by (simp add: dl_def)
  then obtain b where b: "wait_reply (Suc n) dl (r_wakes ?r) (r_last ?r) (r_done ?r) = Some b"
    using wait_reply_returns [of dl "r_wakes ?r" "Suc n"] assms(4) by fastforce
  have sent: "sent \<le> Suc (w_sent w)" by (simp add: sent_def)
  let ?w = "\<lambda>fin. \<lparr>w_now = max now (instant dl), w_final = fin, w_to = 1000 * 2 ^ Suc i,
    w_transmit = rt \<and> (\<not> ch \<or> r_dead ?r), w_ch = ch, w_sent = sent\<rparr>"
  have loop: "call1_loop rt rb env (Suc (Suc n)) i w =
      (if b then Some (Inr (True, sent, now))
       else call1_loop rt rb env (Suc n) (Suc i) (?w (if late then fin\<lparr>tv_sec := 0\<rparr> else fin)))"
    using assms(2) b
    unfolding call1_loop.simps(2) [of rt rb env "Suc n"] Let_def w now_def [symmetric] round_deadline nxt_def [symmetric]
      late_def [symmetric] sum.case dl_def [symmetric] ch_def [symmetric] sent_def [symmetric] shift_to_ok [OF assms(3)]
    by simp
  show ?thesis
  proof (cases b)
    case True
    with loop sent replied show ?thesis by simp
  next
    case b: False
    show ?thesis
    proof (cases late)
      case True
      then have "call1_loop rt rb env (Suc (Suc n)) i w = call1_loop rt rb env (Suc n) (Suc i) (?w (fin\<lparr>tv_sec := 0\<rparr>))"
        using loop b by simp
      then obtain s where "call1_loop rt rb env (Suc (Suc n)) i w = Some (Inr (False, s, max now (instant dl)))" "s \<le> Suc sent"
        by (simp add: Let_def)
      with sent True expired [of s "max now (instant dl)"] show ?thesis by (simp add: dl_def)
    next
      case False
      then have "instant nxt \<le> instant fin" using nxt(1) assms(1) cmp_not_later [of nxt fin] by (simp add: late_def valid_deadline_def)
      with w(3) nxt(2) have le: "start + 1000 * (2 ^ Suc i - 1) * 1000000 \<le> instant fin" by (simp add: algebra_simps)
      have "wait_ok start fin (Suc i) (?w fin)"
        using w(3) nxt(2) False by (simp add: wait_ok_def dl_def algebra_simps)
      with loop b False sent le again [of "?w fin"] show ?thesis by simp
    qed
  qed
qed

lemma call1_loop_returns:
  assumes "valid_deadline fin" "tv_sec fin \<noteq> 0" "instant fin < start + 1000 * 2 ^ (i + d) * 1000000" "i + d \<le> 20"
    and "\<forall>j. length (r_wakes (env j)) \<le> m" "wait_ok start fin i w"
  shows "\<exists>b s t. call1_loop rt rb env (m + d + 2) i w = Some (Inr (b, s, t)) \<and> s \<le> w_sent w + d + 2 \<and> (b \<or> instant fin \<le> t)"
  using assms(3,4,6)
proof (induction d arbitrary: i w)
  case 0
  have "i \<le> 20" using 0 by simp
  from assms(1,2) this assms(5) [rule_format, of i] 0(3) show ?case
  proof (cases rule: call1_round [where rt = rt and rb = rb])
    case (again w')
    then have "start + 1000 * (2 ^ Suc i - 1) * 1000000 < start + 1000 * 2 ^ i * 1000000" using 0(1) by simp
    then have "(2 :: int) ^ i < 1" by simp
    moreover have "(0 :: int) < 2 ^ i" by simp
    ultimately have False by linarith
    then show ?thesis ..
  qed fastforce+
next
  case (Suc d)
  have "i \<le> 20" "length (r_wakes (env i)) \<le> m + Suc d"
    using Suc.prems(2) spec [OF assms(5), of i] by simp_all
  from assms(1,2) this Suc.prems(3) show ?case
  proof (cases rule: call1_round [where rt = rt and rb = rb])
    case (again w')
    with Suc.IH [of "Suc i" w'] Suc.prems(1,2) show ?thesis by fastforce
  qed fastforce+
qed

text \<open>(C27) A call returns. With a timeout of a whole number of seconds, below \<open>1000 * 2 ^ k\<close> milliseconds, and at
  most \<open>m\<close> wake-ups in a round, the waiting loop of \<^verbatim>\<open>call1\<close> ends after at most \<open>k + 2\<close> rounds whatever the
  connections do, and doubling the deadline never overflows. It hands the request to a connection at
  most once a round, and it gives up only when the whole timeout has passed. For the default timeout
  of 120 seconds \<open>k\<close> is 7.\<close>

theorem call_returns:
  assumes "1000000000 \<le> start" "0 \<le> to" "to mod 1000 = 0" "to < 1000 * 2 ^ k" "k \<le> 20"
    and "\<forall>j. length (r_wakes (env j)) \<le> m"
  shows "\<exists>replied sent end. call1_wait rt rb env (m + k + 2) start to = Some (Inr (replied, sent, end)) \<and>
    sent \<le> k + 2 \<and> (replied \<or> start + to * 1000000 \<le> end)"
proof -
  define fin where "fin = (clock start)\<lparr>tv_sec := tv_sec (clock start) + to div 1000\<rparr>"
  have a: "add_timespec (clock start) to = Inr fin"
    unfolding fin_def by (rule add_timespec_seconds) (use assms(2,3) clock_range [of start] in auto)
  have v: "valid_deadline fin" using clock_range [of start] by (simp add: fin_def valid_deadline_def)
  have "0 < start div 1000000000" "0 \<le> to div 1000" using assms(1,2) by (auto simp: pos_imp_zdiv_pos_iff)
  then have nz: "tv_sec fin \<noteq> 0" by (simp add: fin_def clock_def)
  have i: "instant fin = start + to * 1000000"
    using assms(2) a add_timespec_ok [of to "clock start"] clock_range [of start] by auto
  let ?w = "\<lparr>w_now = start, w_final = fin, w_to = to_min, w_transmit = True, w_ch = False, w_sent = 0\<rparr>"
  have w: "wait_ok start fin 0 ?w" by (simp add: wait_ok_def to_min_def)
  have "instant fin < start + 1000 * 2 ^ (0 + k) * 1000000" using assms(4) i by simp
  from call1_loop_returns [OF v nz this _ assms(6) w, of rt rb] assms(5) i a show ?thesis by (simp add: call1_wait_def)
qed

definition silent :: "nat \<Rightarrow> round" where
  "silent i = \<lparr>r_delay = 5, r_conn = True, r_done = False, r_wakes = [False], r_last = False, r_dead = True\<rparr>"

theorem call_returns_witness:
  "\<exists>replied sent end. call1_wait True True silent 10 1700000000123456789 to_max = Some (Inr (replied, sent, end)) \<and>
     sent \<le> 9 \<and> (replied \<or> 1700000000123456789 + to_max * 1000000 \<le> end)"
  using call_returns [of 1700000000123456789 to_max 7 silent 1 True True] by (simp add: to_max_def silent_def)

text \<open>(C37) \<^verbatim>\<open>add_timespec\<close> may leave a full second in the nanoseconds: it does when the milliseconds of the
  timeout complete the second of the clock. Then \<^verbatim>\<open>pthread_cond_timedwait\<close> rejects the deadline, and since
  \<^verbatim>\<open>call1\<close> only leaves its inner loop for \<^verbatim>\<open>ETIMEDOUT\<close>, a call without a reply at that point never returns.\<close>

theorem full_second_never_times_out:
  assumes "0 < b" "b < 1000" "s \<noteq> 0" "env 0 = (silent 0)\<lparr>r_delay := 0\<rparr>"
  shows "add_timespec \<lparr>tv_sec = s, tv_nsec = 1000000000 - b * 1000000\<rparr> b = Inr \<lparr>tv_sec = s, tv_nsec = 1000000000\<rparr> \<and>
    (\<forall>n. call1_wait rt rb env n (s * 1000000000 + 1000000000 - b * 1000000) b = None)"
proof -
  have b: "b sdiv 1000 = 0" "b smod 1000 = b" using assms(1,2) by (simp_all add: sdiv_smod_nonneg)
  have a: "add_timespec \<lparr>tv_sec = s, tv_nsec = 1000000000 - b * 1000000\<rparr> b = Inr \<lparr>tv_sec = s, tv_nsec = 1000000000\<rparr>"
    using assms(1,2) by (simp add: add_timespec_def b Let_def carry.simps)
  let ?v = "s * 1000000000 + 1000000000 - b * 1000000"
  have "?v div 1000000000 = s" "?v mod 1000000000 = 1000000000 - b * 1000000"
    using assms(1,2) by (auto intro: int_div_pos_eq [where r = "1000000000 - b * 1000000"] int_mod_pos_eq [where q = s])
  then have c: "clock ?v = \<lparr>tv_sec = s, tv_nsec = 1000000000 - b * 1000000\<rparr>" by (simp add: clock_def)
  have "call1_wait rt rb env n ?v b = None" for n
  proof (cases n)
    case (Suc n')
    have r: "add_timespec (clock ?v) 1000 = Inr \<lparr>tv_sec = s + 1, tv_nsec = 1000000000 - b * 1000000\<rparr>"
      unfolding c using add_timespec_seconds [of 1000] assms(1,2) by simp
    have late: "0 < cmp_timespec \<lparr>tv_sec = s + 1, tv_nsec = 1000000000 - b * 1000000\<rparr> \<lparr>tv_sec = s, tv_nsec = 1000000000\<rparr>"
      by (simp add: cmp_timespec_def)
    have st: "wait_reply n' \<lparr>tv_sec = s, tv_nsec = 1000000000\<rparr> [False] False False = None"
      by (rule wait_reply_stuck) (simp add: valid_deadline_def)
    show ?thesis
      using Suc assms(3,4) r late st unfolding call1_wait_def c a by (simp add: Let_def silent_def to_min_def c)
  qed (simp add: call1_wait_def c a)
  with a show ?thesis by blast
qed


theorem full_second_never_times_out_witness:
  "add_timespec \<lparr>tv_sec = 1700000000, tv_nsec = 500000000\<rparr> 500 = Inr \<lparr>tv_sec = 1700000000, tv_nsec = 1000000000\<rparr> \<and>
    (\<forall>n. call1_wait True True (\<lambda>_. (silent 0)\<lparr>r_delay := 0\<rparr>) n 1700000000500000000 500 = None)"
  using full_second_never_times_out [of 500 1700000000 "\<lambda>_. (silent 0)\<lparr>r_delay := 0\<rparr>" True True] by simp

end
