(* ===== verification/Poll_Manager.thy ===== *)
theory Poll_Manager
  imports Prelude
begin

text \<open>
  The poll manager of \<^verbatim>\<open>rpc/pollmgr.h\<close> and \<^verbatim>\<open>rpc/pollmgr.cc\<close>: the two implementations of its interface
  \<^verbatim>\<open>aio_mgr\<close>, on \<^verbatim>\<open>select\<close> and on \<^verbatim>\<open>epoll\<close>, the table of callbacks, and the loop of the poll thread with
  the operations that other threads run beside it.

  Descriptors are numbers and callback objects are numbers. An \<^verbatim>\<open>fd_set\<close> is a set of descriptors, and the
  wake-up pipe is the number of bytes in it. What \<^verbatim>\<open>select\<close> and \<^verbatim>\<open>epoll_wait\<close> return is an argument; the
  interest list that \<^verbatim>\<open>epoll_ctl\<close> keeps in the kernel is part of the state.

  The locale \<open>aio_mgr\<close> is the contract of the interface; both implementations are shown to keep it.
\<close>

datatype poll_flag = CB_NONE | CB_RDONLY | CB_WRONLY | CB_RDWR | CB_MASK

fun flag_val :: "poll_flag \<Rightarrow> u32" where
  "flag_val CB_NONE = 0"
| "flag_val CB_RDONLY = 1"
| "flag_val CB_WRONLY = 16"
| "flag_val CB_RDWR = 17"
| "flag_val CB_MASK = NOT 17"

definition MAX_POLL_FDS :: nat where "MAX_POLL_FDS = 128"

section \<open>The implementation on select\<close>

record saio =
  s_rfds :: "nat set"
  s_wfds :: "nat set"
  s_high :: nat
  s_pipe :: nat
  s_bytes :: nat

definition select_new :: "nat \<Rightarrow> saio" where
  "select_new pipe = \<lparr>s_rfds = {pipe}, s_wfds = {}, s_high = pipe, s_pipe = pipe, s_bytes = 0\<rparr>"

definition sel_watch :: "saio \<Rightarrow> nat \<Rightarrow> poll_flag \<Rightarrow> saio res" where
  "sel_watch s fd flag =
     (let s1 = (if s_high s \<le> fd then s\<lparr>s_high := fd\<rparr> else s);
          s2 = (if flag = CB_RDONLY then s1\<lparr>s_rfds := insert fd (s_rfds s1)\<rparr>
                else if flag = CB_WRONLY then s1\<lparr>s_wfds := insert fd (s_wfds s1)\<rparr>
                else s1\<lparr>s_rfds := insert fd (s_rfds s1), s_wfds := insert fd (s_wfds s1)\<rparr>)
      in Inr (s2\<lparr>s_bytes := Suc (s_bytes s2)\<rparr>))"

definition sel_is_watched :: "saio \<Rightarrow> nat \<Rightarrow> poll_flag \<Rightarrow> bool" where
  "sel_is_watched s fd flag =
     (if flag = CB_RDONLY then fd \<in> s_rfds s
      else if flag = CB_WRONLY then fd \<in> s_wfds s
      else fd \<in> s_rfds s \<and> fd \<in> s_wfds s)"

text \<open>The loop that looks for the highest descriptor left.\<close>

definition new_high :: "saio \<Rightarrow> nat" where
  "new_high s =
     fold (\<lambda>i h. if i \<in> s_rfds s then i else if i \<in> s_wfds s then i else h) [0..<Suc (s_high s)] (s_pipe s)"

definition sel_clear :: "saio \<Rightarrow> nat \<Rightarrow> poll_flag \<Rightarrow> saio res" where
  "sel_clear s fd flag =
     (case flag of
        CB_RDONLY \<Rightarrow> Inr (s\<lparr>s_rfds := s_rfds s - {fd}\<rparr>)
      | CB_WRONLY \<Rightarrow> Inr (s\<lparr>s_wfds := s_wfds s - {fd}\<rparr>)
      | CB_RDWR \<Rightarrow> Inr (s\<lparr>s_wfds := s_wfds s - {fd}, s_rfds := s_rfds s - {fd}\<rparr>)
      | _ \<Rightarrow> Inl Abort)"

definition sel_unwatch :: "saio \<Rightarrow> nat \<Rightarrow> poll_flag \<Rightarrow> (bool \<times> saio) res" where
  "sel_unwatch s fd flag =
     rbind (sel_clear s fd flag)
     (\<lambda>s1. let none = (fd \<notin> s_rfds s1 \<and> fd \<notin> s_wfds s1);
               s2 = (if none \<and> fd = s_high s1 then s1\<lparr>s_high := new_high s1\<rparr> else s1);
               s3 = (if flag = CB_RDWR then s2\<lparr>s_bytes := Suc (s_bytes s2)\<rparr> else s2)
           in Inr (none, s3))"

text \<open>\<^verbatim>\<open>wait_ready\<close> copies the sets and the bound, and then goes through the sets that \<^verbatim>\<open>select\<close> left.\<close>

datatype sel_ret = SelReady "nat set" "nat set" | SelEintr | SelError

definition sel_snapshot :: "saio \<Rightarrow> nat set \<times> nat set \<times> nat" where
  "sel_snapshot s = (s_rfds s, s_wfds s, s_high s)"

definition sel_collect :: "nat \<Rightarrow> nat \<Rightarrow> nat set \<Rightarrow> nat set \<Rightarrow> nat list \<times> nat list" where
  "sel_collect pipe high tr tw =
     (let other = (\<lambda>fd. \<not> (fd = pipe \<and> fd \<in> tr)) in
      (filter (\<lambda>fd. other fd \<and> fd \<in> tr) [0..<Suc high], filter (\<lambda>fd. other fd \<and> fd \<in> tw) [0..<Suc high]))"

definition sel_ready :: "saio \<Rightarrow> nat \<Rightarrow> sel_ret \<Rightarrow> (nat list \<times> nat list \<times> saio) res" where
  "sel_ready s high ret =
     (case ret of
        SelError \<Rightarrow> Inl Abort
      | SelEintr \<Rightarrow> Inr ([], [], s)
      | SelReady tr tw \<Rightarrow>
          (case sel_collect (s_pipe s) high tr tw of
             (rs, ws) \<Rightarrow>
               if s_pipe s \<in> tr \<and> s_pipe s \<le> high then
                 if s_bytes s = 0 then Inl Abort else Inr (rs, ws, s\<lparr>s_bytes := s_bytes s - 1\<rparr>)
               else Inr (rs, ws, s)))"

section \<open>The implementation on epoll\<close>

datatype ctl_op = EPOLL_CTL_ADD | EPOLL_CTL_MOD | EPOLL_CTL_DEL

abbreviation (input) EPOLLIN :: u32 where "EPOLLIN \<equiv> 1"
abbreviation (input) EPOLLOUT :: u32 where "EPOLLOUT \<equiv> 4"
abbreviation (input) EPOLLET :: u32 where "EPOLLET \<equiv> 0x80000000"

record epoll =
  e_status :: "nat \<Rightarrow> u32"
  e_kernel :: "nat \<rightharpoonup> u32"

definition epoll_new :: epoll where
  "epoll_new = \<lparr>e_status = (\<lambda>_. 0), e_kernel = Map.empty\<rparr>"

text \<open>\<^verbatim>\<open>epoll_ctl\<close> refuses to add a descriptor it has and to change or delete one it has not.\<close>

definition epoll_ctl :: "epoll \<Rightarrow> ctl_op \<Rightarrow> nat \<Rightarrow> u32 \<Rightarrow> epoll res" where
  "epoll_ctl e op fd ev =
     (case op of
        EPOLL_CTL_ADD \<Rightarrow> if e_kernel e fd = None then Inr (e\<lparr>e_kernel := (e_kernel e)(fd \<mapsto> ev)\<rparr>) else Inl Abort
      | EPOLL_CTL_MOD \<Rightarrow> if e_kernel e fd = None then Inl Abort else Inr (e\<lparr>e_kernel := (e_kernel e)(fd \<mapsto> ev)\<rparr>)
      | EPOLL_CTL_DEL \<Rightarrow> if e_kernel e fd = None then Inl Abort else Inr (e\<lparr>e_kernel := (e_kernel e)(fd := None)\<rparr>))"

definition poll_flag_to_event :: "poll_flag \<Rightarrow> u32" where
  "poll_flag_to_event flag =
     (if flag = CB_RDONLY then EPOLLIN else if flag = CB_WRONLY then EPOLLOUT else EPOLLIN OR EPOLLOUT)"

definition status_events :: "u32 \<Rightarrow> u32" where
  "status_events st =
     (let ev = EPOLLET;
          ev = (if st AND flag_val CB_RDONLY \<noteq> 0 then ev OR EPOLLIN else ev)
      in if st AND flag_val CB_WRONLY \<noteq> 0 then ev OR EPOLLOUT else ev)"

definition ep_watch :: "epoll \<Rightarrow> nat \<Rightarrow> poll_flag \<Rightarrow> epoll res" where
  "ep_watch e fd flag =
     rbind (verify (fd < MAX_POLL_FDS)) (\<lambda>_.
     let op = (if e_status e fd \<noteq> 0 then EPOLL_CTL_MOD else EPOLL_CTL_ADD);
         st = e_status e fd OR flag_val flag;
         e1 = e\<lparr>e_status := (e_status e)(fd := st)\<rparr>
     in rbind (verify (flag = CB_RDWR \<longrightarrow> status_events st = EPOLLET OR EPOLLIN OR EPOLLOUT)) (\<lambda>_.
        epoll_ctl e1 op fd (status_events st)))"

definition ep_unwatch :: "epoll \<Rightarrow> nat \<Rightarrow> poll_flag \<Rightarrow> (bool \<times> epoll) res" where
  "ep_unwatch e fd flag =
     rbind (verify (fd < MAX_POLL_FDS)) (\<lambda>_.
     let st = e_status e fd AND NOT (flag_val flag);
         op = (if st \<noteq> 0 then EPOLL_CTL_MOD else EPOLL_CTL_DEL);
         e1 = e\<lparr>e_status := (e_status e)(fd := st)\<rparr>
     in rbind (verify (flag = CB_RDWR \<longrightarrow> op = EPOLL_CTL_DEL)) (\<lambda>_.
        rbind (epoll_ctl e1 op fd (status_events st)) (\<lambda>e2. Inr (op = EPOLL_CTL_DEL, e2))))"

definition ep_is_watched :: "epoll \<Rightarrow> nat \<Rightarrow> poll_flag \<Rightarrow> bool res" where
  "ep_is_watched e fd flag =
     rbind (verify (fd < MAX_POLL_FDS)) (\<lambda>_. Inr (e_status e fd AND flag_val CB_MASK = flag_val flag))"

text \<open>\<^verbatim>\<open>wait_ready\<close> on what \<^verbatim>\<open>epoll_wait\<close> returned.\<close>

definition ep_ready :: "(nat \<times> u32) list \<Rightarrow> nat list \<times> nat list" where
  "ep_ready evs =
     (map fst (filter (\<lambda>(fd, ev). ev AND EPOLLIN \<noteq> 0) evs), map fst (filter (\<lambda>(fd, ev). ev AND EPOLLOUT \<noteq> 0) evs))"

section \<open>The contract of the interface\<close>

text \<open>What is watched is a set of descriptors to read and a set to write.\<close>

definition rd :: "poll_flag \<Rightarrow> bool" where "rd flag \<longleftrightarrow> flag = CB_RDONLY \<or> flag = CB_RDWR"
definition wr :: "poll_flag \<Rightarrow> bool" where "wr flag \<longleftrightarrow> flag = CB_WRONLY \<or> flag = CB_RDWR"

type_synonym interest = "nat \<Rightarrow> bool \<times> bool"

definition add_interest :: "interest \<Rightarrow> nat \<Rightarrow> poll_flag \<Rightarrow> interest" where
  "add_interest w fd flag = w(fd := (fst (w fd) \<or> rd flag, snd (w fd) \<or> wr flag))"

definition del_interest :: "interest \<Rightarrow> nat \<Rightarrow> poll_flag \<Rightarrow> interest" where
  "del_interest w fd flag = w(fd := (fst (w fd) \<and> \<not> rd flag, snd (w fd) \<and> \<not> wr flag))"

datatype aio_op = Watch nat poll_flag | Unwatch nat poll_flag

text \<open>A sequence of operations as the callers make it: only the three proper flags, only descriptors
  below the limit, and a descriptor is given up only when it is watched.\<close>

fun proper :: "interest \<Rightarrow> aio_op list \<Rightarrow> bool" where
  "proper w [] \<longleftrightarrow> True"
| "proper w (Watch fd flag # ops) \<longleftrightarrow> (rd flag \<or> wr flag) \<and> fd < MAX_POLL_FDS \<and> proper (add_interest w fd flag) ops"
| "proper w (Unwatch fd flag # ops) \<longleftrightarrow>
     (rd flag \<or> wr flag) \<and> fd < MAX_POLL_FDS \<and> w fd \<noteq> (False, False) \<and> proper (del_interest w fd flag) ops"

fun interest_run :: "interest \<Rightarrow> aio_op list \<Rightarrow> bool list \<times> interest" where
  "interest_run w [] = ([], w)"
| "interest_run w (Watch fd flag # ops) = interest_run (add_interest w fd flag) ops"
| "interest_run w (Unwatch fd flag # ops) =
     (case interest_run (del_interest w fd flag) ops of (bs, w') \<Rightarrow> ((del_interest w fd flag fd = (False, False)) # bs, w'))"

fun aio_run ::
  "('s \<Rightarrow> nat \<Rightarrow> poll_flag \<Rightarrow> 's res) \<Rightarrow> ('s \<Rightarrow> nat \<Rightarrow> poll_flag \<Rightarrow> (bool \<times> 's) res) \<Rightarrow> 's \<Rightarrow> aio_op list \<Rightarrow>
   (bool list \<times> 's) res" where
  "aio_run watch unwatch s [] = Inr ([], s)"
| "aio_run watch unwatch s (Watch fd flag # ops) = rbind (watch s fd flag) (\<lambda>s'. aio_run watch unwatch s' ops)"
| "aio_run watch unwatch s (Unwatch fd flag # ops) =
     rbind (unwatch s fd flag) (\<lambda>(b, s'). rbind (aio_run watch unwatch s' ops) (\<lambda>(bs, t). Inr (b # bs, t)))"

locale aio_mgr =
  fixes ok :: "'s \<Rightarrow> bool"
    and interest :: "'s \<Rightarrow> interest"
    and watch :: "'s \<Rightarrow> nat \<Rightarrow> poll_flag \<Rightarrow> 's res"
    and unwatch :: "'s \<Rightarrow> nat \<Rightarrow> poll_flag \<Rightarrow> (bool \<times> 's) res"
  assumes watch_law: "ok s \<Longrightarrow> rd flag \<or> wr flag \<Longrightarrow> fd < MAX_POLL_FDS \<Longrightarrow>
      \<exists>s'. watch s fd flag = Inr s' \<and> ok s' \<and> interest s' = add_interest (interest s) fd flag"
    and unwatch_law: "ok s \<Longrightarrow> rd flag \<or> wr flag \<Longrightarrow> fd < MAX_POLL_FDS \<Longrightarrow> interest s fd \<noteq> (False, False) \<Longrightarrow>
      \<exists>s'. unwatch s fd flag = Inr (del_interest (interest s) fd flag fd = (False, False), s') \<and> ok s' \<and>
        interest s' = del_interest (interest s) fd flag"
begin

lemma run_law:
  "ok s \<Longrightarrow> proper (interest s) ops \<Longrightarrow>
   \<exists>t. aio_run watch unwatch s ops = Inr (fst (interest_run (interest s) ops), t) \<and> ok t \<and>
     interest t = snd (interest_run (interest s) ops)"
proof (induction ops arbitrary: s)
  case (Cons op ops)
  show ?case
  proof (cases op)
    case (Watch fd flag)
    with Cons.prems obtain s' where "watch s fd flag = Inr s'" "ok s'" "interest s' = add_interest (interest s) fd flag"
      using watch_law [of s flag fd] by auto
    with Cons.IH [of s'] Cons.prems Watch show ?thesis by simp
  next
    case (Unwatch fd flag)
    with Cons.prems obtain s' where "unwatch s fd flag = Inr (del_interest (interest s) fd flag fd = (False, False), s')"
      "ok s'" "interest s' = del_interest (interest s) fd flag"
      using unwatch_law [of s flag fd] by auto
    with Cons.IH [of s'] Cons.prems Unwatch show ?thesis by (auto split: prod.splits)
  qed
qed simp

end

section \<open>Both implementations keep the contract\<close>

text \<open>On select: the bound covers every descriptor in the sets, so that \<^verbatim>\<open>select\<close> looks at all of them.\<close>

definition sel_ok :: "saio \<Rightarrow> bool" where
  "sel_ok s \<longleftrightarrow> (\<forall>fd \<in> s_rfds s \<union> s_wfds s. fd \<le> s_high s)"

definition sel_interest :: "saio \<Rightarrow> interest" where
  "sel_interest s = (\<lambda>fd. (fd \<in> s_rfds s, fd \<in> s_wfds s))"

lemma fold_highest:
  assumes "fd < n" "P fd"
  shows "fd \<le> fold (\<lambda>i h. if P i then i else h) [0..<n] h0"
  using assms(1)
proof (induction n)
  case (Suc n)
  then show ?case using assms(2) by (cases "fd = n") (auto simp: less_Suc_eq)
qed simp

lemma new_high_covers:
  assumes "sel_ok s" "fd \<in> s_rfds s \<union> s_wfds s"
  shows "fd \<le> new_high s"
proof -
  have f: "(\<lambda>i h. if i \<in> s_rfds s then i else if i \<in> s_wfds s then i else h) =
    (\<lambda>i h. if i \<in> s_rfds s \<union> s_wfds s then i else h)" by (auto simp: fun_eq_iff)
  from assms have "fd < Suc (s_high s)" by (auto simp: sel_ok_def less_Suc_eq_le)
  from fold_highest [OF this, of "\<lambda>i. i \<in> s_rfds s \<union> s_wfds s"] assms(2)
  show ?thesis unfolding new_high_def f by blast
qed

lemma sel_watch_ok:
  assumes "sel_ok s" "sel_watch s fd flag = Inr s'"
  shows "sel_ok s'" "s_pipe s' = s_pipe s" "s_bytes s' = Suc (s_bytes s)" "s_rfds s \<subseteq> s_rfds s'"
    "s_rfds s' \<subseteq> insert fd (s_rfds s)" "s_wfds s' \<subseteq> insert fd (s_wfds s)"
proof -
  have h: "s_high s \<le> s_high s'" "fd \<le> s_high s'"
    using assms(2) by (auto simp: sel_watch_def Let_def split: if_splits)
  show f: "s_pipe s' = s_pipe s" "s_bytes s' = Suc (s_bytes s)" "s_rfds s \<subseteq> s_rfds s'"
    "s_rfds s' \<subseteq> insert fd (s_rfds s)" "s_wfds s' \<subseteq> insert fd (s_wfds s)"
    using assms(2) by (auto simp: sel_watch_def Let_def split: if_splits)
  show "sel_ok s'"
    unfolding sel_ok_def
  proof
    fix x assume "x \<in> s_rfds s' \<union> s_wfds s'"
    with f(4,5) have "x = fd \<or> x \<in> s_rfds s \<union> s_wfds s" by blast
    with assms(1) h show "x \<le> s_high s'" by (auto simp: sel_ok_def ball_Un intro: order_trans [OF _ h(1)])
  qed
qed

lemma sel_unwatch_ok:
  assumes "sel_ok s" "sel_unwatch s fd flag = Inr (b, s')"
  shows "sel_ok s'" "s_pipe s' = s_pipe s" "s_bytes s' = s_bytes s + (if flag = CB_RDWR then 1 else 0)"
    "s_rfds s - {fd} \<subseteq> s_rfds s'" "s_rfds s' \<subseteq> s_rfds s" "s_wfds s' \<subseteq> s_wfds s"
    "flag = CB_RDWR \<Longrightarrow> fd \<notin> s_rfds s' \<union> s_wfds s'"
proof -
  obtain s1 where c: "sel_clear s fd flag = Inr s1" using assms(2) by (auto simp: sel_unwatch_def rbind_eq_Inr)
  then have "sel_ok s1" "s_pipe s1 = s_pipe s" "s_bytes s1 = s_bytes s" "s_rfds s - {fd} \<subseteq> s_rfds s1"
    "s_rfds s1 \<subseteq> s_rfds s" "s_wfds s1 \<subseteq> s_wfds s" "flag = CB_RDWR \<Longrightarrow> fd \<notin> s_rfds s1 \<union> s_wfds s1"
    using assms(1) by (auto simp: sel_clear_def sel_ok_def split: poll_flag.splits)
  moreover have "s_rfds s' = s_rfds s1" "s_wfds s' = s_wfds s1" "s_pipe s' = s_pipe s1"
    "s_bytes s' = s_bytes s1 + (if flag = CB_RDWR then 1 else 0)" "s_high s' = s_high s1 \<or> s_high s' = new_high s1"
    using assms(2) c by (auto simp: sel_unwatch_def Let_def split: if_splits)
  ultimately have s1: "sel_ok s1" "s_pipe s1 = s_pipe s" "s_bytes s1 = s_bytes s" "s_rfds s - {fd} \<subseteq> s_rfds s1"
    "s_rfds s1 \<subseteq> s_rfds s" "s_wfds s1 \<subseteq> s_wfds s" "flag = CB_RDWR \<Longrightarrow> fd \<notin> s_rfds s1 \<union> s_wfds s1"
    "s_rfds s' = s_rfds s1" "s_wfds s' = s_wfds s1" "s_pipe s' = s_pipe s1"
    "s_bytes s' = s_bytes s1 + (if flag = CB_RDWR then 1 else 0)" "s_high s' = s_high s1 \<or> s_high s' = new_high s1"
    by simp_all
  from s1(1,8,9,12) new_high_covers [OF s1(1)] show "sel_ok s'" by (auto simp: sel_ok_def)
  from s1 show "s_pipe s' = s_pipe s" "s_bytes s' = s_bytes s + (if flag = CB_RDWR then 1 else 0)"
    "s_rfds s - {fd} \<subseteq> s_rfds s'" "s_rfds s' \<subseteq> s_rfds s" "s_wfds s' \<subseteq> s_wfds s"
    "flag = CB_RDWR \<Longrightarrow> fd \<notin> s_rfds s' \<union> s_wfds s'" by simp_all
qed

interpretation sel: aio_mgr sel_ok sel_interest sel_watch sel_unwatch
proof unfold_locales
  fix s flag fd
  assume s: "sel_ok s" and f: "rd flag \<or> wr flag"
  obtain s' where s': "sel_watch s fd flag = Inr s'" by (simp add: sel_watch_def Let_def)
  have "sel_interest s' = add_interest (sel_interest s) fd flag"
    using s' f by (auto simp: sel_watch_def sel_interest_def add_interest_def rd_def wr_def Let_def fun_eq_iff split: if_splits)
  with s' sel_watch_ok(1) [OF s s'] show "\<exists>s'. sel_watch s fd flag = Inr s' \<and> sel_ok s' \<and> sel_interest s' = add_interest (sel_interest s) fd flag"
    by blast
next
  fix s flag fd
  assume s: "sel_ok s" and f: "rd flag \<or> wr flag"
  obtain b s' where s': "sel_unwatch s fd flag = Inr (b, s')"
    using f by (auto simp: sel_unwatch_def sel_clear_def Let_def rd_def wr_def)
  then have "b = (del_interest (sel_interest s) fd flag fd = (False, False))" "sel_interest s' = del_interest (sel_interest s) fd flag"
    using f by (auto simp: sel_unwatch_def sel_clear_def sel_interest_def del_interest_def rd_def wr_def Let_def fun_eq_iff split: if_splits)
  with s' sel_unwatch_ok(1) [OF s s'] show "\<exists>s'. sel_unwatch s fd flag = Inr (del_interest (sel_interest s) fd flag fd = (False, False), s') \<and>
      sel_ok s' \<and> sel_interest s' = del_interest (sel_interest s) fd flag"
    by blast
qed

text \<open>On epoll: the status of a descriptor is made of the two flags, and the kernel has the events that
  belong to it.\<close>

definition ep_ok :: "epoll \<Rightarrow> bool" where
  "ep_ok e \<longleftrightarrow> (\<forall>fd. e_status e fd \<in> {0, 1, 16, 17} \<and>
     e_kernel e fd = (if e_status e fd = 0 then None else Some (status_events (e_status e fd))))"

definition ep_interest :: "epoll \<Rightarrow> interest" where
  "ep_interest e = (\<lambda>fd. (e_status e fd AND 1 \<noteq> 0, e_status e fd AND 16 \<noteq> 0))"

lemma ep_ok_cases:
  assumes "ep_ok e"
  obtains "e_status e fd = 0" "e_kernel e fd = None" | "e_status e fd = 1" "e_kernel e fd \<noteq> None"
  | "e_status e fd = 16" "e_kernel e fd \<noteq> None" | "e_status e fd = 17" "e_kernel e fd \<noteq> None"
  using assms unfolding ep_ok_def by (auto dest!: spec [of _ fd])

lemma ep_ok_upd:
  "ep_ok e \<Longrightarrow> st \<in> {0, 1, 16, 17} \<Longrightarrow> k = (if st = 0 then None else Some (status_events st)) \<Longrightarrow>
   ep_ok (e\<lparr>e_status := (e_status e)(fd := st), e_kernel := (e_kernel e)(fd := k)\<rparr>)"
  by (auto simp: ep_ok_def)

lemma ep_watch_law:
  assumes "ep_ok e" "rd flag \<or> wr flag" "fd < MAX_POLL_FDS"
  shows "\<exists>e'. ep_watch e fd flag = Inr e' \<and> ep_ok e' \<and> ep_interest e' = add_interest (ep_interest e) fd flag"
proof -
  let ?st = "e_status e fd OR flag_val flag"
  let ?e = "e\<lparr>e_status := (e_status e)(fd := ?st), e_kernel := (e_kernel e)(fd \<mapsto> status_events ?st)\<rparr>"
  have f: "flag = CB_RDONLY \<or> flag = CB_WRONLY \<or> flag = CB_RDWR" using assms(2) by (auto simp: rd_def wr_def)
  have st: "?st \<in> {1, 16, 17} \<and> (flag = CB_RDWR \<longrightarrow> ?st = 17) \<and>
     (?st AND 1 \<noteq> 0) = (e_status e fd AND 1 \<noteq> 0 \<or> rd flag) \<and> (?st AND 16 \<noteq> 0) = (e_status e fd AND 16 \<noteq> 0 \<or> wr flag)"
    using assms(1) by (cases rule: ep_ok_cases [of e fd]) (use f in \<open>auto simp: rd_def wr_def\<close>)
  have k: "(e_status e fd \<noteq> 0) = (e_kernel e fd \<noteq> None)" using assms(1) by (cases rule: ep_ok_cases [of e fd]) auto
  have "ep_watch e fd flag = Inr ?e"
    using st k assms(3) by (auto simp: ep_watch_def Let_def epoll_ctl_def status_events_def verify_def)
  moreover have "ep_ok ?e" using st by (intro ep_ok_upd [OF assms(1)]) auto
  moreover have "ep_interest ?e = add_interest (ep_interest e) fd flag"
    using st by (auto simp: ep_interest_def add_interest_def fun_eq_iff)
  ultimately show ?thesis by blast
qed

lemma ep_unwatch_law:
  assumes "ep_ok e" "rd flag \<or> wr flag" "fd < MAX_POLL_FDS" "ep_interest e fd \<noteq> (False, False)"
  shows "\<exists>e'. ep_unwatch e fd flag = Inr (del_interest (ep_interest e) fd flag fd = (False, False), e') \<and> ep_ok e' \<and>
    ep_interest e' = del_interest (ep_interest e) fd flag"
proof -
  let ?st = "e_status e fd AND NOT (flag_val flag)"
  let ?k = "if ?st = 0 then None else Some (status_events ?st)"
  let ?e = "e\<lparr>e_status := (e_status e)(fd := ?st), e_kernel := (e_kernel e)(fd := ?k)\<rparr>"
  have f: "flag = CB_RDONLY \<or> flag = CB_WRONLY \<or> flag = CB_RDWR" using assms(2) by (auto simp: rd_def wr_def)
  have st: "?st \<in> {0, 1, 16, 17} \<and> (flag = CB_RDWR \<longrightarrow> ?st = 0) \<and>
     (?st = 0) = (?st AND 1 = 0 \<and> ?st AND 16 = 0) \<and>
     (?st AND 1 \<noteq> 0) = (e_status e fd AND 1 \<noteq> 0 \<and> \<not> rd flag) \<and> (?st AND 16 \<noteq> 0) = (e_status e fd AND 16 \<noteq> 0 \<and> \<not> wr flag)"
    using assms(1) by (cases rule: ep_ok_cases [of e fd]) (use f in \<open>auto simp: rd_def wr_def\<close>)
  have k: "e_kernel e fd \<noteq> None" using assms(1) by (cases rule: ep_ok_cases [of e fd]) (use assms(4) in \<open>auto simp: ep_interest_def\<close>)
  have d: "(del_interest (ep_interest e) fd flag fd = (False, False)) = (?st = 0)"
    using st by (auto simp: del_interest_def ep_interest_def)
  have "ep_unwatch e fd flag = Inr (del_interest (ep_interest e) fd flag fd = (False, False), ?e)"
    unfolding d using st k assms(3) by (auto simp: ep_unwatch_def Let_def epoll_ctl_def verify_def)
  moreover have "ep_ok ?e" using st by (intro ep_ok_upd [OF assms(1)]) auto
  moreover have "ep_interest ?e = del_interest (ep_interest e) fd flag"
    using st by (auto simp: ep_interest_def del_interest_def fun_eq_iff)
  ultimately show ?thesis by blast
qed

interpretation ep: aio_mgr ep_ok ep_interest ep_watch ep_unwatch
  by unfold_locales (rule ep_watch_law ep_unwatch_law; assumption)+

section \<open>The two implementations agree\<close>

fun op_fd :: "aio_op \<Rightarrow> nat" where
  "op_fd (Watch fd _) = fd"
| "op_fd (Unwatch fd _) = fd"

lemma interest_upd:
  "fd \<noteq> p \<Longrightarrow> add_interest (w(p := x)) fd flag = (add_interest w fd flag)(p := x)"
  "fd \<noteq> p \<Longrightarrow> del_interest (w(p := x)) fd flag = (del_interest w fd flag)(p := x)"
  by (auto simp: add_interest_def del_interest_def)

lemma interest_run_upd:
  "p \<notin> op_fd ` set ops \<Longrightarrow>
   proper (w(p := x)) ops = proper w ops \<and> fst (interest_run (w(p := x)) ops) = fst (interest_run w ops) \<and>
   snd (interest_run (w(p := x)) ops) = (snd (interest_run w ops))(p := x)"
proof (induction ops arbitrary: w)
  case (Cons op ops)
  show ?case
  proof (cases op)
    case (Watch fd flag)
    with Cons.prems have "fd \<noteq> p" "p \<notin> op_fd ` set ops" by auto
    then show ?thesis
      using Cons.IH [of "add_interest w fd flag"] unfolding Watch proper.simps interest_run.simps interest_upd(1) [OF \<open>fd \<noteq> p\<close>]
      by blast
  next
    case (Unwatch fd flag)
    with Cons.prems have "fd \<noteq> p" "p \<notin> op_fd ` set ops" by auto
    moreover have "(w(p := x)) fd = w fd" "((del_interest w fd flag)(p := x)) fd = del_interest w fd flag fd"
      using \<open>fd \<noteq> p\<close> by simp_all
    ultimately show ?thesis
      using Cons.IH [of "del_interest w fd flag"]
      unfolding Unwatch proper.simps interest_run.simps interest_upd(2) [OF \<open>fd \<noteq> p\<close>] case_prod_beta fst_conv snd_conv
      by presburger
  qed
qed simp

text \<open>(C34) The poll manager may run on either implementation: any proper sequence of watching and giving up
  descriptors succeeds on both, gives the same answers, and leaves both watching the same
  descriptors, \<^verbatim>\<open>select\<close> with a bound that covers them and the kernel's list of \<^verbatim>\<open>epoll\<close> with exactly the
  events asked for. The wake-up pipe that \<^verbatim>\<open>select\<close> also watches is not among the descriptors.\<close>

theorem select_and_epoll_agree:
  assumes "proper (\<lambda>_. (False, False)) ops" "pipe \<notin> op_fd ` set ops"
  shows "\<exists>bs s e. aio_run sel_watch sel_unwatch (select_new pipe) ops = Inr (bs, s) \<and>
    aio_run ep_watch ep_unwatch epoll_new ops = Inr (bs, e) \<and> sel_ok s \<and> ep_ok e \<and>
    sel_interest s = (ep_interest e)(pipe := (True, False))"
proof -
  let ?w = "\<lambda>_ :: nat. (False, False)"
  have s0: "sel_ok (select_new pipe)" "sel_interest (select_new pipe) = ?w(pipe := (True, False))"
    by (auto simp: sel_ok_def select_new_def sel_interest_def)
  have e0: "ep_ok epoll_new" "ep_interest epoll_new = ?w" by (auto simp: ep_ok_def epoll_new_def ep_interest_def)
  note u = interest_run_upd [OF assms(2), of ?w "(True, False)"]
  from sel.run_law [OF s0(1), of ops] ep.run_law [OF e0(1), of ops] show ?thesis
    using u assms(1) unfolding s0(2) e0(2) by fastforce
qed

theorem select_and_epoll_agree_witness:
  "\<exists>bs s e. aio_run sel_watch sel_unwatch (select_new 4) [Watch 7 CB_RDONLY, Watch 7 CB_WRONLY, Unwatch 7 CB_RDONLY, Unwatch 7 CB_RDWR] = Inr (bs, s) \<and>
    aio_run ep_watch ep_unwatch epoll_new [Watch 7 CB_RDONLY, Watch 7 CB_WRONLY, Unwatch 7 CB_RDONLY, Unwatch 7 CB_RDWR] = Inr (bs, e) \<and>
    sel_ok s \<and> ep_ok e \<and> sel_interest s = (ep_interest e)(4 := (True, False))"
  by (rule select_and_epoll_agree) (simp_all add: rd_def wr_def MAX_POLL_FDS_def add_interest_def del_interest_def)

text \<open>The query of the \<^verbatim>\<open>epoll\<close> implementation is broken: \<^verbatim>\<open>CB_MASK\<close> is the complement of the flags, so
  masking removes them, and a watched descriptor is reported as not watched, where the \<^verbatim>\<open>select\<close>
  implementation in the same situation answers rightly.\<close>

theorem epoll_query_always_false:
  assumes "ep_ok e" "rd flag \<or> wr flag" "fd < MAX_POLL_FDS" "sel_interest s fd = ep_interest e fd"
  shows "ep_is_watched e fd flag = Inr False \<and>
    sel_is_watched s fd flag = ((rd flag \<longrightarrow> fst (ep_interest e fd)) \<and> (wr flag \<longrightarrow> snd (ep_interest e fd)))"
proof -
  have f: "flag = CB_RDONLY \<or> flag = CB_WRONLY \<or> flag = CB_RDWR" using assms(2) by (auto simp: rd_def wr_def)
  have "e_status e fd AND NOT 17 = 0" using assms(1) by (cases rule: ep_ok_cases [of e fd]) auto
  with f assms(3) have "ep_is_watched e fd flag = Inr False" by (auto simp: ep_is_watched_def)
  moreover have "sel_is_watched s fd flag = ((rd flag \<longrightarrow> fst (ep_interest e fd)) \<and> (wr flag \<longrightarrow> snd (ep_interest e fd)))"
    unfolding assms(4) [symmetric] using f by (auto simp: sel_is_watched_def sel_interest_def rd_def wr_def)
  ultimately show ?thesis by blast
qed

theorem epoll_query_always_false_witness:
  "\<exists>e. ep_watch epoll_new 7 CB_RDONLY = Inr e \<and> ep_interest e 7 = (True, False) \<and> ep_is_watched e 7 CB_RDONLY = Inr False"
proof -
  have e0: "ep_ok epoll_new" "ep_interest epoll_new = (\<lambda>_. (False, False))" by (auto simp: ep_ok_def epoll_new_def ep_interest_def)
  from ep_watch_law [OF e0(1), of CB_RDONLY 7] obtain e where e: "ep_watch epoll_new 7 CB_RDONLY = Inr e" "ep_ok e"
    "ep_interest e 7 = (True, False)"
    unfolding e0(2) by (auto simp: rd_def wr_def MAX_POLL_FDS_def add_interest_def)
  let ?s = "\<lparr>s_rfds = {7}, s_wfds = {}, s_high = 7, s_pipe = 4, s_bytes = 0\<rparr>"
  from epoll_query_always_false [OF e(2), of CB_RDONLY 7 ?s] e show ?thesis
    by (auto simp: rd_def wr_def MAX_POLL_FDS_def sel_interest_def)
qed

section \<open>The poll manager and its thread\<close>

text \<open>Where the poll thread is in \<^verbatim>\<open>wait_loop\<close>: before the test of \<^verbatim>\<open>pending_change_\<close>, before copying the sets,
  in \<^verbatim>\<open>select\<close> with the copies, going through the lists of ready descriptors, or inside a callback for
  a descriptor.\<close>

datatype phase =
    PTop
  | PWait
  | PSelect "nat set" "nat set" nat
  | PRun "nat list" "nat list"
  | PCall nat "nat list" "nat list"

text \<open>A thread in \<^verbatim>\<open>block_remove_fd\<close>: waiting for the broadcast, woken by it, or woken without one, which
  \<^verbatim>\<open>pthread_cond_wait\<close> allows. It waits once and does not look at \<^verbatim>\<open>pending_change_\<close> afterwards, so the last two return
  alike. The history tells them apart: \<open>Cut\<close> is the return of a thread that no broadcast woke.\<close>

datatype remover = RWait nat | RWoken nat | REarly nat

datatype poll_event = Added nat | Removed nat | Cut nat | Entered nat nat | Left nat

record pmgr =
  pm_aio :: saio
  pm_cbs :: "nat \<rightharpoonup> nat"
  pm_pending :: bool
  pm_phase :: phase
  pm_rem :: "nat \<rightharpoonup> remover"
  pm_hist :: "poll_event list"

definition pollmgr_new :: "nat \<Rightarrow> pmgr" where
  "pollmgr_new pipe =
     \<lparr>pm_aio = select_new pipe, pm_cbs = Map.empty, pm_pending = False, pm_phase = PTop, pm_rem = Map.empty, pm_hist = []\<rparr>"

definition add_callback :: "pmgr \<Rightarrow> nat \<Rightarrow> poll_flag \<Rightarrow> nat \<Rightarrow> pmgr res" where
  "add_callback m fd flag ch =
     rbind (verify (fd < MAX_POLL_FDS)) (\<lambda>_.
     rbind (sel_watch (pm_aio m) fd flag) (\<lambda>a.
     rbind (verify (pm_cbs m fd = None \<or> pm_cbs m fd = Some ch)) (\<lambda>_.
     Inr (m\<lparr>pm_aio := a, pm_cbs := (pm_cbs m)(fd \<mapsto> ch)\<rparr>))))"

definition del_callback :: "pmgr \<Rightarrow> nat \<Rightarrow> poll_flag \<Rightarrow> pmgr res" where
  "del_callback m fd flag =
     rbind (sel_unwatch (pm_aio m) fd flag) (\<lambda>(none, a).
     Inr (m\<lparr>pm_aio := a, pm_cbs := (if none then (pm_cbs m)(fd := None) else pm_cbs m)\<rparr>))"

definition has_callback :: "pmgr \<Rightarrow> nat \<Rightarrow> poll_flag \<Rightarrow> nat \<Rightarrow> bool" where
  "has_callback m fd flag c = (if pm_cbs m fd \<noteq> Some c then False else sel_is_watched (pm_aio m) fd flag)"

text \<open>\<^verbatim>\<open>block_remove_fd\<close> by thread \<open>t\<close>, up to the wait and after it.\<close>

definition remove_begin :: "pmgr \<Rightarrow> nat \<Rightarrow> nat \<Rightarrow> pmgr res" where
  "remove_begin m t fd =
     rbind (sel_unwatch (pm_aio m) fd CB_RDWR) (\<lambda>(_, a).
     Inr (m\<lparr>pm_aio := a, pm_pending := True, pm_rem := (pm_rem m)(t \<mapsto> RWait fd)\<rparr>))"

definition remove_end :: "pmgr \<Rightarrow> nat \<Rightarrow> nat \<Rightarrow> pmgr" where
  "remove_end m t fd = m\<lparr>pm_cbs := (pm_cbs m)(fd := None), pm_rem := (pm_rem m)(t := None)\<rparr>"

definition wake :: "remover \<Rightarrow> remover" where
  "wake r = (case r of RWait fd \<Rightarrow> RWoken fd | r' \<Rightarrow> r')"

definition loop_top :: "pmgr \<Rightarrow> pmgr" where
  "loop_top m =
     (if pm_pending m then m\<lparr>pm_pending := False, pm_rem := map_option wake \<circ> pm_rem m\<rparr> else m)"

text \<open>The thread looks at the callback of the next ready descriptor and, if there is one, calls it. The source
  reads \<^verbatim>\<open>callbacks_[fd]\<close> twice, for the test and for the call, without holding the mutex; here the two reads are one.\<close>

definition enter :: "pmgr \<Rightarrow> nat \<Rightarrow> nat list \<Rightarrow> nat list \<Rightarrow> pmgr" where
  "enter m fd rs ws =
     (case pm_cbs m fd of
        None \<Rightarrow> m\<lparr>pm_phase := PRun rs ws\<rparr>
      | Some c \<Rightarrow> m\<lparr>pm_phase := PCall fd rs ws, pm_hist := Entered fd c # pm_hist m\<rparr>)"

definition rem_fd :: "remover \<Rightarrow> nat" where
  "rem_fd r = (case r of RWait fd \<Rightarrow> fd | RWoken fd \<Rightarrow> fd | REarly fd \<Rightarrow> fd)"

definition being_removed :: "pmgr \<Rightarrow> nat \<Rightarrow> bool" where
  "being_removed m fd \<longleftrightarrow> (\<exists>t r. pm_rem m t = Some r \<and> rem_fd r = fd)"

text \<open>What \<^verbatim>\<open>select\<close> may return: descriptors it was asked about, and the pipe only if there is a byte in it.\<close>

definition select_may :: "saio \<Rightarrow> nat set \<Rightarrow> nat set \<Rightarrow> nat \<Rightarrow> sel_ret \<Rightarrow> bool" where
  "select_may a r w high ret \<longleftrightarrow>
     (case ret of
        SelError \<Rightarrow> False
      | SelEintr \<Rightarrow> True
      | SelReady tr tw \<Rightarrow> tr \<subseteq> r \<inter> {..high} \<and> tw \<subseteq> w \<inter> {..high} \<and> (s_pipe a \<in> tr \<longrightarrow> 0 < s_bytes a))"

text \<open>The steps of the poll thread and of the others. No thread adds a callback for a descriptor that is
  being removed, and none gives up the wake-up pipe, whose number it does not know.\<close>

inductive mstep :: "pmgr \<Rightarrow> pmgr \<Rightarrow> bool" where
  top: "pm_phase m = PTop \<Longrightarrow> mstep m ((loop_top m)\<lparr>pm_phase := PWait\<rparr>)"
| snapshot: "pm_phase m = PWait \<Longrightarrow> sel_snapshot (pm_aio m) = (r, w, high) \<Longrightarrow> mstep m (m\<lparr>pm_phase := PSelect r w high\<rparr>)"
| ready: "pm_phase m = PSelect r w high \<Longrightarrow> select_may (pm_aio m) r w high ret \<Longrightarrow>
    sel_ready (pm_aio m) high ret = Inr (rs, ws, a) \<Longrightarrow>
    mstep m (m\<lparr>pm_aio := a, pm_phase := (if rs = [] \<and> ws = [] then PTop else PRun rs ws)\<rparr>)"
| readable: "pm_phase m = PRun (fd # rs) ws \<Longrightarrow> mstep m (enter m fd rs ws)"
| writable: "pm_phase m = PRun [] (fd # ws) \<Longrightarrow> mstep m (enter m fd [] ws)"
| leave: "pm_phase m = PCall fd rs ws \<Longrightarrow> mstep m (m\<lparr>pm_phase := PRun rs ws, pm_hist := Left fd # pm_hist m\<rparr>)"
| again: "pm_phase m = PRun [] [] \<Longrightarrow> mstep m (m\<lparr>pm_phase := PTop\<rparr>)"
| add: "\<not> being_removed m fd \<Longrightarrow> fd \<noteq> s_pipe (pm_aio m) \<Longrightarrow> add_callback m fd flag c = Inr m' \<Longrightarrow>
    mstep m (m'\<lparr>pm_hist := Added fd # pm_hist m\<rparr>)"
| del: "fd \<noteq> s_pipe (pm_aio m) \<Longrightarrow> del_callback m fd flag = Inr m' \<Longrightarrow> mstep m m'"
| remove: "pm_rem m t = None \<Longrightarrow> fd \<noteq> s_pipe (pm_aio m) \<Longrightarrow> remove_begin m t fd = Inr m' \<Longrightarrow> mstep m m'"
| removed: "pm_rem m t = Some (RWoken fd) \<Longrightarrow> mstep m ((remove_end m t fd)\<lparr>pm_hist := Removed fd # pm_hist m\<rparr>)"
| spurious: "pm_rem m t = Some (RWait fd) \<Longrightarrow> mstep m (m\<lparr>pm_rem := (pm_rem m)(t \<mapsto> REarly fd)\<rparr>)"
| cut: "pm_rem m t = Some (REarly fd) \<Longrightarrow> mstep m ((remove_end m t fd)\<lparr>pm_hist := Cut fd # pm_hist m\<rparr>)"

definition mreachable :: "nat \<Rightarrow> pmgr \<Rightarrow> bool" where
  "mreachable pipe m \<longleftrightarrow> mstep\<^sup>*\<^sup>* (pollmgr_new pipe) m"

text \<open>The descriptors whose removal has returned after a broadcast and that have not been added again, and histories, newest
  event first, in which no such descriptor sees a callback begin or end.\<close>

fun gone :: "poll_event list \<Rightarrow> nat set" where
  "gone [] = {}"
| "gone (Added fd # h) = gone h - {fd}"
| "gone (Removed fd # h) = insert fd (gone h)"
| "gone (_ # h) = gone h"

fun quiet :: "poll_event list \<Rightarrow> bool" where
  "quiet [] \<longleftrightarrow> True"
| "quiet (Entered fd c # h) \<longleftrightarrow> fd \<notin> gone h \<and> quiet h"
| "quiet (Left fd # h) \<longleftrightarrow> fd \<notin> gone h \<and> quiet h"
| "quiet (_ # h) \<longleftrightarrow> quiet h"

text \<open>The descriptors the poll thread may still call back in this round.\<close>

fun phase_fds :: "phase \<Rightarrow> nat set" where
  "phase_fds PTop = {}"
| "phase_fds PWait = {}"
| "phase_fds (PSelect r w high) = r \<union> w"
| "phase_fds (PRun rs ws) = set rs \<union> set ws"
| "phase_fds (PCall fd rs ws) = {fd} \<union> set rs \<union> set ws"

definition watched :: "pmgr \<Rightarrow> nat set" where
  "watched m = s_rfds (pm_aio m) \<union> s_wfds (pm_aio m)"

definition minv :: "pmgr \<Rightarrow> bool" where
  "minv m \<longleftrightarrow>
     sel_ok (pm_aio m) \<and> s_pipe (pm_aio m) \<in> s_rfds (pm_aio m) \<and> quiet (pm_hist m) \<and>
     (\<forall>fd \<in> gone (pm_hist m). fd \<notin> watched m \<and> fd \<notin> phase_fds (pm_phase m)) \<and>
     (\<forall>t fd. pm_rem m t = Some (RWait fd) \<longrightarrow> pm_pending m \<and> fd \<notin> watched m) \<and>
     (\<forall>t fd. pm_rem m t = Some (RWoken fd) \<longrightarrow> fd \<notin> watched m \<and> fd \<notin> phase_fds (pm_phase m)) \<and>
     (\<forall>r w high. pm_phase m = PSelect r w high \<longrightarrow> s_pipe (pm_aio m) \<in> r \<and> s_pipe (pm_aio m) \<le> high) \<and>
     (\<forall>t fd. pm_rem m t = Some (RWait fd) \<longrightarrow> pm_phase m = PWait \<or> (\<exists>r w high. pm_phase m = PSelect r w high) \<longrightarrow>
        0 < s_bytes (pm_aio m))"

lemmas minv_simps = minv_def watched_def

lemma minv_new: "minv (pollmgr_new pipe)"
  by (simp add: minv_def pollmgr_new_def select_new_def sel_ok_def)

lemma sel_ready_fds:
  assumes "sel_ready a high ret = Inr (rs, ws, a')" "select_may a r w high ret"
  shows "set rs \<subseteq> r" "set ws \<subseteq> w" "s_rfds a' = s_rfds a" "s_wfds a' = s_wfds a" "s_pipe a' = s_pipe a" "s_high a' = s_high a"
  using assms by (auto simp: sel_ready_def select_may_def sel_collect_def Let_def split: sel_ret.splits if_splits)


lemma minv_enter:
  assumes "minv m" "phase_fds (pm_phase m) = {fd} \<union> set rs \<union> set ws"
  shows "minv (enter m fd rs ws)"
proof (cases "pm_cbs m fd")
  case None
  with assms show ?thesis by (auto simp: minv_simps enter_def)
next
  case (Some c)
  with assms show ?thesis by (auto simp: minv_simps enter_def)
qed

lemma minv_loop_top:
  assumes "minv m" "pm_phase m = PTop"
  shows "minv ((loop_top m)\<lparr>pm_phase := PWait\<rparr>)"
proof (cases "pm_pending m")
  case True
  have w: "(map_option wake \<circ> pm_rem m) t = Some (RWoken fd) \<Longrightarrow> pm_rem m t = Some (RWait fd) \<or> pm_rem m t = Some (RWoken fd)"
    "(map_option wake \<circ> pm_rem m) t \<noteq> Some (RWait fd)" for t fd
    by (cases "pm_rem m t"; auto simp: wake_def split: remover.splits)
      (cases "pm_rem m t"; auto simp: wake_def split: remover.splits)
  have u: "fd \<notin> watched m" if "pm_rem m t = Some (RWait fd) \<or> pm_rem m t = Some (RWoken fd)" for t fd
    using assms(1) that by (auto simp: minv_def)
  from assms True w u show ?thesis by (fastforce simp: minv_simps loop_top_def)
next
  case False
  with assms show ?thesis by (auto simp: minv_simps loop_top_def)
qed

lemma minv_aio:
  assumes "minv m" "sel_ok a" "s_pipe a = s_pipe (pm_aio m)" "s_pipe a \<in> s_rfds a" "s_bytes (pm_aio m) \<le> s_bytes a"
    and "s_rfds a \<union> s_wfds a \<subseteq> watched m"
  shows "minv (m\<lparr>pm_aio := a, pm_cbs := cb\<rparr>)"
proof -
  have b: "0 < s_bytes (pm_aio m) \<Longrightarrow> 0 < s_bytes a" using assms(5) by simp
  have s: "fd \<notin> watched m \<Longrightarrow> fd \<notin> s_rfds a \<and> fd \<notin> s_wfds a" for fd using assms(6) by blast
  from assms(1-4) b s show ?thesis unfolding minv_simps by (simp; blast)
qed

lemma minv_step:
  assumes "mstep m m'" "minv m"
  shows "minv m'"
  using assms(1)
proof cases
  case top
  with assms(2) minv_loop_top show ?thesis by blast
next
  case (snapshot r w high)
  with assms(2) show ?thesis by (auto simp: minv_simps sel_snapshot_def sel_ok_def)
next
  case (ready r w high ret rs ws a)
  note f = sel_ready_fds [OF ready(4,3)]
  have "phase_fds (if rs = [] \<and> ws = [] then PTop else PRun rs ws) \<subseteq> phase_fds (pm_phase m)"
    using f(1,2) ready(2) by auto
  with assms(2) f(3-6) ready(1,2) show ?thesis by (fastforce simp: minv_simps sel_ok_def)
next
  case (readable fd rs ws)
  with minv_enter [OF assms(2)] show ?thesis by simp
next
  case (writable fd ws)
  with minv_enter [OF assms(2), of fd "[]" ws] show ?thesis by simp
next
  case (leave fd rs ws)
  with assms(2) show ?thesis by (auto simp: minv_simps)
next
  case again
  with assms(2) show ?thesis by (auto simp: minv_simps)
next
  case (add fd flag c m1)
  then obtain a where a: "sel_watch (pm_aio m) fd flag = Inr a" "m1 = m\<lparr>pm_aio := a, pm_cbs := (pm_cbs m)(fd \<mapsto> c)\<rparr>"
    by (auto simp: add_callback_def rbind_eq_Inr)
  have ok: "sel_ok (pm_aio m)" using assms(2) by (simp add: minv_def)
  note f = sel_watch_ok [OF ok a(1)]
  have "pm_rem m t = Some r \<Longrightarrow> rem_fd r \<noteq> fd" for t r using add(2) by (auto simp: being_removed_def)
  then have n: "pm_rem m t = Some (RWait x) \<Longrightarrow> x \<noteq> fd" "pm_rem m t = Some (RWoken x) \<Longrightarrow> x \<noteq> fd" for t x
    by (force simp: rem_fd_def)+
  have s: "x \<noteq> fd \<Longrightarrow> x \<notin> watched m \<Longrightarrow> x \<notin> s_rfds a \<and> x \<notin> s_wfds a" for x using f(5,6) by (auto simp: watched_def)
  have p: "s_pipe (pm_aio m) \<in> s_rfds a" using assms(2) f(4) by (auto simp: minv_def)
  have m': "m' = m\<lparr>pm_aio := a, pm_cbs := (pm_cbs m)(fd \<mapsto> c), pm_hist := Added fd # pm_hist m\<rparr>" using add(1) a(2) by simp
  from assms(2) f(1-3) n s p show ?thesis unfolding m' minv_def by (auto simp: watched_def)
next
  case (del fd flag)
  then obtain b a where a: "sel_unwatch (pm_aio m) fd flag = Inr (b, a)"
    "m' = m\<lparr>pm_aio := a, pm_cbs := (if b then (pm_cbs m)(fd := None) else pm_cbs m)\<rparr>"
    by (auto simp: del_callback_def rbind_eq_Inr)
  have ok: "sel_ok (pm_aio m)" "s_pipe (pm_aio m) \<in> s_rfds (pm_aio m)" using assms(2) by (simp_all add: minv_def)
  note f = sel_unwatch_ok [OF ok(1) a(1)]
  show ?thesis unfolding a(2) by (rule minv_aio [OF assms(2)]) (use f ok(2) del(1) in \<open>auto simp: watched_def\<close>)
next
  case (remove t fd)
  then obtain b a where a: "sel_unwatch (pm_aio m) fd CB_RDWR = Inr (b, a)"
    "m' = m\<lparr>pm_aio := a, pm_pending := True, pm_rem := (pm_rem m)(t \<mapsto> RWait fd)\<rparr>"
    by (auto simp: remove_begin_def rbind_eq_Inr)
  have ok: "sel_ok (pm_aio m)" "s_pipe (pm_aio m) \<in> s_rfds (pm_aio m)" using assms(2) by (simp_all add: minv_def)
  note f = sel_unwatch_ok [OF ok(1) a(1)]
  have "minv (m\<lparr>pm_aio := a, pm_cbs := pm_cbs m\<rparr>)"
    by (rule minv_aio [OF assms(2)]) (use f ok(2) remove(2) in \<open>auto simp: watched_def\<close>)
  with f(3,7) a(2) show ?thesis by (auto simp: minv_simps)
next
  case (removed t fd)
  with assms(2) show ?thesis by (auto simp: minv_simps remove_end_def)
next
  case (spurious t fd)
  with assms(2) show ?thesis by (auto simp: minv_simps)
next
  case (cut t fd)
  with assms(2) show ?thesis by (auto simp: minv_simps remove_end_def)
qed

lemma minv_reachable: "mreachable pipe m \<Longrightarrow> minv m"
  unfolding mreachable_def by (induction rule: rtranclp_induct) (auto intro: minv_new minv_step)


text \<open>(C12) After \<^verbatim>\<open>block_remove_fd\<close> has returned because the poll thread's broadcast woke it, no callback for the descriptor runs: in every interleaving of
  the poll thread with any number of threads that add, delete and remove callbacks, some of which may wake up
  without a broadcast, between such a
  return of a removal and the next time a callback is added for the descriptor none begins and none
  is still in progress, neither now nor in what the thread has still to do in this round. (No thread adds a
  callback for a descriptor while it is being removed.) Of a return without a broadcast this is not
  true, as \<open>early_return_not_final\<close> shows.\<close>

theorem removal_is_final:
  assumes "mreachable pipe m"
  shows "quiet (pm_hist m) \<and> gone (pm_hist m) \<inter> phase_fds (pm_phase m) = {}"
  using minv_reachable [OF assms] unfolding minv_def by blast

definition poll_demo :: pmgr where
  "poll_demo = \<lparr>pm_aio = \<lparr>s_rfds = {4}, s_wfds = {}, s_high = 4, s_pipe = 4, s_bytes = 2\<rparr>, pm_cbs = Map.empty,
     pm_pending = False, pm_phase = PWait, pm_rem = Map.empty, pm_hist = [Removed 7, Added 7]\<rparr>"

text \<open>A callback is added for a descriptor and removed before it was ever ready.\<close>

lemma poll_demo_reachable: "mreachable 4 poll_demo"
proof -
  define m where "m b r w h p ph rm hs = \<lparr>pm_aio = \<lparr>s_rfds = r, s_wfds = w, s_high = h, s_pipe = 4, s_bytes = b\<rparr>,
    pm_cbs = (if p then [7 \<mapsto> 3] else Map.empty), pm_pending = (rm = RWait 7 \<and> b = 2), pm_phase = ph,
    pm_rem = (if b = 2 \<and> hs = [Added 7] then [1 \<mapsto> rm] else Map.empty), pm_hist = hs\<rparr>"
    for b r w h p ph rm hs
  have 1: "mstep (pollmgr_new 4) (m 1 {4, 7} {} 7 True PTop (RWoken 7) [Added 7])"
    using mstep.add [of "pollmgr_new 4" 7 CB_RDONLY 3] unfolding m_def
    by (simp add: pollmgr_new_def select_new_def add_callback_def sel_watch_def MAX_POLL_FDS_def being_removed_def Let_def insert_commute)
  have "new_high \<lparr>s_rfds = {4}, s_wfds = {}, s_high = 7, s_pipe = 4, s_bytes = 1\<rparr> = 4" by (simp add: new_high_def upt_rec)
  then have 2: "mstep (m 1 {4, 7} {} 7 True PTop (RWoken 7) [Added 7]) (m 2 {4} {} 4 True PTop (RWait 7) [Added 7])"
    by (intro mstep.remove [of _ 1 7]) (auto simp: m_def remove_begin_def sel_unwatch_def sel_clear_def Let_def insert_Diff_if)
  have 3: "mstep (m 2 {4} {} 4 True PTop (RWait 7) [Added 7]) (m 2 {4} {} 4 True PWait (RWoken 7) [Added 7])"
    using mstep.top [of "m 2 {4} {} 4 True PTop (RWait 7) [Added 7]"] by (simp add: m_def loop_top_def wake_def)
  have 4: "mstep (m 2 {4} {} 4 True PWait (RWoken 7) [Added 7]) poll_demo"
    using mstep.removed [of "m 2 {4} {} 4 True PWait (RWoken 7) [Added 7]" 1 7]
    by (simp add: m_def remove_end_def poll_demo_def)
  show ?thesis unfolding mreachable_def by (rule converse_rtranclp_into_rtranclp 1 2 3 4 rtranclp.rtrancl_refl)+
qed

theorem removal_is_final_witness:
  "quiet (pm_hist poll_demo) \<and> gone (pm_hist poll_demo) \<inter> phase_fds (pm_phase poll_demo) = {} \<and> 7 \<in> gone (pm_hist poll_demo)"
  using removal_is_final [OF poll_demo_reachable] by (simp add: poll_demo_def)


text \<open>A removal that wakes up without a broadcast returns while the callback it should have waited for is
  still running: the promise in the comment on \<^verbatim>\<open>block_remove_fd\<close> does not hold then.\<close>

lemma early_return_not_final:
  "\<exists>m. mreachable 4 m \<and> pm_phase m = PCall 7 [] [] \<and> pm_hist m = [Cut 7, Entered 7 3, Added 7]"
proof -
  define m where "m b r h p ph rm hs = \<lparr>pm_aio = \<lparr>s_rfds = r, s_wfds = {}, s_high = h, s_pipe = 4, s_bytes = b\<rparr>,
    pm_cbs = (if p then [7 \<mapsto> 3] else Map.empty), pm_pending = (b = 2), pm_phase = ph, pm_rem = rm, pm_hist = hs\<rparr>"
    for b r h p ph rm hs
  let ?e = "[Entered 7 3, Added 7]" and ?c = "PCall 7 [] []"
  have 1: "mstep (pollmgr_new 4) (m 1 {4, 7} 7 True PTop Map.empty [Added 7])"
    using mstep.add [of "pollmgr_new 4" 7 CB_RDONLY 3] unfolding m_def
    by (simp add: pollmgr_new_def select_new_def add_callback_def sel_watch_def MAX_POLL_FDS_def being_removed_def Let_def insert_commute)
  have 2: "mstep (m 1 {4, 7} 7 True PTop Map.empty [Added 7]) (m 1 {4, 7} 7 True PWait Map.empty [Added 7])"
    using mstep.top [of "m 1 {4, 7} 7 True PTop Map.empty [Added 7]"] by (simp add: m_def loop_top_def)
  have 3: "mstep (m 1 {4, 7} 7 True PWait Map.empty [Added 7]) (m 1 {4, 7} 7 True (PSelect {4, 7} {} 7) Map.empty [Added 7])"
    using mstep.snapshot [of "m 1 {4, 7} 7 True PWait Map.empty [Added 7]"] by (simp add: m_def sel_snapshot_def)
  have 4: "mstep (m 1 {4, 7} 7 True (PSelect {4, 7} {} 7) Map.empty [Added 7]) (m 1 {4, 7} 7 True (PRun [7] []) Map.empty [Added 7])"
    using mstep.ready [of "m 1 {4, 7} 7 True (PSelect {4, 7} {} 7) Map.empty [Added 7]" "{4, 7}" "{}" 7 "SelReady {7} {}"]
    by (simp add: m_def select_may_def sel_ready_def sel_collect_def upt_rec eval_nat_numeral)
  have 5: "mstep (m 1 {4, 7} 7 True (PRun [7] []) Map.empty [Added 7]) (m 1 {4, 7} 7 True ?c Map.empty ?e)"
    using mstep.readable [of "m 1 {4, 7} 7 True (PRun [7] []) Map.empty [Added 7]" 7 "[]" "[]"] by (simp add: m_def enter_def)
  have "new_high \<lparr>s_rfds = {4}, s_wfds = {}, s_high = 7, s_pipe = 4, s_bytes = 1\<rparr> = 4" by (simp add: new_high_def upt_rec)
  then have 6: "mstep (m 1 {4, 7} 7 True ?c Map.empty ?e) (m 2 {4} 4 True ?c [1 \<mapsto> RWait 7] ?e)"
    by (intro mstep.remove [of _ 1 7]) (auto simp: m_def remove_begin_def sel_unwatch_def sel_clear_def Let_def insert_Diff_if)
  have 7: "mstep (m 2 {4} 4 True ?c [1 \<mapsto> RWait 7] ?e) (m 2 {4} 4 True ?c [1 \<mapsto> REarly 7] ?e)"
    using mstep.spurious [of "m 2 {4} 4 True ?c [1 \<mapsto> RWait 7] ?e" 1 7] by (simp add: m_def)
  have 8: "mstep (m 2 {4} 4 True ?c [1 \<mapsto> REarly 7] ?e) (m 2 {4} 4 False ?c Map.empty (Cut 7 # ?e))"
    using mstep.cut [of "m 2 {4} 4 True ?c [1 \<mapsto> REarly 7] ?e" 1 7] by (simp add: m_def remove_end_def)
  have "mreachable 4 (m 2 {4} 4 False ?c Map.empty (Cut 7 # ?e))"
    unfolding mreachable_def by (rule converse_rtranclp_into_rtranclp 1 2 3 4 5 6 7 8 rtranclp.rtrancl_refl)+
  then show ?thesis by (intro exI conjI) (auto simp: m_def)
qed

section \<open>A removal is not forgotten\<close>

text \<open>The steps of the poll thread alone, with \<^verbatim>\<open>select\<close> waking up for the pipe.\<close>

definition same_removers :: "pmgr \<Rightarrow> pmgr \<Rightarrow> bool" where
  "same_removers m m' \<longleftrightarrow> pm_rem m' = pm_rem m \<and> pm_pending m' = pm_pending m"

lemma enter_same: "same_removers m (enter m fd rs ws)"
  by (simp add: same_removers_def enter_def split: option.splits)

lemma run_to_top:
  "pm_phase m = PRun rs ws \<Longrightarrow> \<exists>m'. mstep\<^sup>*\<^sup>* m m' \<and> pm_phase m' = PTop \<and> same_removers m m'"
proof (induction "length rs + length ws" arbitrary: m rs ws)
  case 0
  then have "mstep m (m\<lparr>pm_phase := PTop\<rparr>)" by (auto intro: mstep.again)
  then show ?case by (intro exI [of _ "m\<lparr>pm_phase := PTop\<rparr>"]) (simp add: same_removers_def r_into_rtranclp)
next
  case (Suc n)
  obtain fd rs' ws' where f: "mstep m (enter m fd rs' ws')" "length rs' + length ws' = n"
  proof (cases rs)
    case (Cons fd rs')
    with Suc.prems Suc.hyps(2) mstep.readable [of m fd rs' ws] that [of fd rs' ws] show ?thesis by simp
  next
    case Nil
    with Suc.hyps(2) obtain fd ws' where "ws = fd # ws'" by (cases ws) auto
    with Nil Suc.prems Suc.hyps(2) mstep.writable [of m fd ws'] that [of fd "[]" ws'] show ?thesis by simp
  qed
  obtain m1 where m1: "mstep\<^sup>*\<^sup>* (enter m fd rs' ws') m1" "pm_phase m1 = PRun rs' ws'" "same_removers m m1"
  proof (cases "pm_cbs m fd")
    case None
    with that [of "enter m fd rs' ws'"] enter_same [of m fd rs' ws'] show ?thesis by (simp add: enter_def)
  next
    case (Some c)
    let ?m = "enter m fd rs' ws'"
    have "mstep ?m (?m\<lparr>pm_phase := PRun rs' ws', pm_hist := Left fd # pm_hist ?m\<rparr>)"
      using Some by (intro mstep.leave [of _ fd]) (simp add: enter_def)
    from that [OF r_into_rtranclp [of mstep, OF this]] enter_same [of m fd rs' ws'] show ?thesis by (simp add: same_removers_def)
  qed
  from Suc.hyps(1) [of rs' ws' m1] f(2) m1(2) obtain m' where "mstep\<^sup>*\<^sup>* m1 m'" "pm_phase m' = PTop" "same_removers m1 m'" by auto
  with f(1) m1 show ?case
    by (intro exI [of _ m']) (auto simp: same_removers_def intro: converse_rtranclp_into_rtranclp rtranclp_trans)
qed

lemma select_wakes:
  assumes "minv m" "pm_rem m t = Some (RWait fd)" "pm_phase m = PSelect r w high"
  shows "\<exists>m'. mstep m m' \<and> pm_phase m' = PTop \<and> same_removers m m'"
proof -
  let ?p = "s_pipe (pm_aio m)"
  let ?a = "(pm_aio m)\<lparr>s_bytes := s_bytes (pm_aio m) - 1\<rparr>"
  have p: "?p \<in> r" "?p \<le> high" "0 < s_bytes (pm_aio m)" using assms unfolding minv_def by blast+
  then have "select_may (pm_aio m) r w high (SelReady {?p} {})" by (simp add: select_may_def)
  moreover have "sel_ready (pm_aio m) high (SelReady {?p} {}) = Inr ([], [], ?a)"
    using p by (auto simp: sel_ready_def sel_collect_def filter_empty_conv)
  ultimately show ?thesis
    using mstep.ready [OF assms(3), of "SelReady {?p} {}" "[]" "[]" ?a]
    by (intro exI [of _ "m\<lparr>pm_aio := ?a, pm_phase := PTop\<rparr>"]) (simp add: same_removers_def)
qed

text \<open>(C29) A removal is never forgotten: whenever a thread waits in \<^verbatim>\<open>block_remove_fd\<close>, wherever the poll thread
  is in its loop and even if \<^verbatim>\<open>select\<close> sees nothing but the wake-up pipe, the poll thread can go on alone
  until it wakes the waiting thread; a poll thread inside \<^verbatim>\<open>select\<close> always has a byte in the pipe it is
  watching.\<close>

theorem removal_completes:
  assumes "mreachable pipe m" "pm_rem m t = Some (RWait fd)"
  shows "(\<forall>r w high. pm_phase m = PSelect r w high \<longrightarrow>
      s_pipe (pm_aio m) \<in> r \<and> s_pipe (pm_aio m) \<le> high \<and> 0 < s_bytes (pm_aio m)) \<and>
    (\<exists>m'. mstep\<^sup>*\<^sup>* m m' \<and> pm_rem m' t = Some (RWoken fd))"
proof -
  note inv = minv_reachable [OF assms(1)]
  have p: "pm_pending m" using inv assms(2) unfolding minv_def by blast
  have sel: "\<exists>m'. mstep\<^sup>*\<^sup>* m1 m' \<and> pm_phase m' = PTop \<and> same_removers m m'"
    if "minv m1" "same_removers m m1" "pm_phase m1 = PSelect r w high" for m1 r w high
    using select_wakes [OF that(1) _ that(3), of t fd] that(2) assms(2) by (auto simp: same_removers_def)
  have "\<exists>m'. mstep\<^sup>*\<^sup>* m m' \<and> pm_phase m' = PTop \<and> same_removers m m'"
  proof (cases "pm_phase m")
    case PTop
    then show ?thesis by (intro exI [of _ m]) (simp add: same_removers_def)
  next
    case PWait
    obtain r w high where s: "sel_snapshot (pm_aio m) = (r, w, high)" by (metis prod_cases3)
    note st = mstep.snapshot [OF PWait s]
    from sel [OF minv_step [OF st inv], of r w high] st show ?thesis
      by (auto simp: same_removers_def intro: converse_rtranclp_into_rtranclp)
  next
    case (PSelect r w high)
    from sel [OF inv _ this] show ?thesis by (simp add: same_removers_def)
  next
    case (PRun rs ws)
    from run_to_top [OF this] show ?thesis .
  next
    case (PCall d rs ws)
    let ?m = "m\<lparr>pm_phase := PRun rs ws, pm_hist := Left d # pm_hist m\<rparr>"
    from run_to_top [of ?m rs ws] mstep.leave [OF PCall] show ?thesis
      by (auto simp: same_removers_def intro: converse_rtranclp_into_rtranclp)
  qed
  then obtain m1 where m1: "mstep\<^sup>*\<^sup>* m m1" "pm_phase m1 = PTop" "same_removers m m1" by blast
  have "pm_rem ((loop_top m1)\<lparr>pm_phase := PWait\<rparr>) t = Some (RWoken fd)"
    using m1(3) p assms(2) by (simp add: loop_top_def same_removers_def wake_def)
  with m1(1) mstep.top [OF m1(2)] have "\<exists>m'. mstep\<^sup>*\<^sup>* m m' \<and> pm_rem m' t = Some (RWoken fd)"
    by (meson rtranclp.rtrancl_into_rtrancl)
  moreover have "s_pipe (pm_aio m) \<in> r \<and> s_pipe (pm_aio m) \<le> high \<and> 0 < s_bytes (pm_aio m)"
    if "pm_phase m = PSelect r w high" for r w high
    using inv assms(2) that unfolding minv_def by blast
  ultimately show ?thesis by blast
qed

definition poll_wait_demo :: pmgr where
  "poll_wait_demo = \<lparr>pm_aio = \<lparr>s_rfds = {4}, s_wfds = {}, s_high = 4, s_pipe = 4, s_bytes = 1\<rparr>, pm_cbs = Map.empty,
     pm_pending = True, pm_phase = PSelect {4} {} 4, pm_rem = [1 \<mapsto> RWait 7], pm_hist = []\<rparr>"

lemma poll_wait_demo_reachable: "mreachable 4 poll_wait_demo"
proof -
  let ?m = "\<lambda>ph. (pollmgr_new 4)\<lparr>pm_phase := ph\<rparr>"
  have 1: "mstep (pollmgr_new 4) (?m PWait)"
    using mstep.top [of "pollmgr_new 4"] by (simp add: pollmgr_new_def loop_top_def)
  have 2: "mstep (?m PWait) (?m (PSelect {4} {} 4))"
    using mstep.snapshot [of "?m PWait"] by (simp add: pollmgr_new_def select_new_def sel_snapshot_def)
  have 3: "mstep (?m (PSelect {4} {} 4)) poll_wait_demo"
    by (rule mstep.remove [of _ 1 7])
      (simp_all add: poll_wait_demo_def pollmgr_new_def select_new_def remove_begin_def sel_unwatch_def sel_clear_def Let_def)
  show ?thesis unfolding mreachable_def by (rule converse_rtranclp_into_rtranclp 1 2 3 rtranclp.rtrancl_refl)+
qed

theorem removal_completes_witness:
  "\<exists>m'. mstep\<^sup>*\<^sup>* poll_wait_demo m' \<and> pm_rem m' 1 = Some (RWoken 7)"
  using removal_completes [OF poll_wait_demo_reachable, of 1 7] by (simp add: poll_wait_demo_def)

end
