(* ===== verification/Handle.thy ===== *)
theory Handle
  imports Prelude
begin

text \<open>
  The cache of bound RPC clients of \<^verbatim>\<open>handle.h\<close> and \<^verbatim>\<open>handle.cc\<close>. Records of the manager live in a heap, so
  that a pointer that outlives its record is a fault; a \<^verbatim>\<open>handle\<close> object is an identifier with the
  pointer it holds. The RPC clients the records point to are numbered, and the deleted ones are kept.
  Whether a \<^verbatim>\<open>bind\<close> succeeds is an argument.
\<close>

record hinfo =
  h_cl :: "nat option"
  h_refcnt :: int
  h_del :: bool
  h_m :: string

record handle_mgr =
  hm_map :: "string \<rightharpoonup> nat"
  hm_heap :: "nat \<rightharpoonup> hinfo"
  hm_next :: nat
  hm_clients :: nat
  hm_deleted :: "nat set"

definition handle_mgr_new :: handle_mgr where
  "handle_mgr_new = \<lparr>hm_map = Map.empty, hm_heap = Map.empty, hm_next = 0, hm_clients = 0, hm_deleted = {}\<rparr>"

definition h_at :: "handle_mgr \<Rightarrow> nat \<Rightarrow> hinfo res" where
  "h_at g a = (case hm_heap g a of None \<Rightarrow> Inl UseAfterFree | Some h \<Rightarrow> Inr h)"

definition store_h :: "handle_mgr \<Rightarrow> nat \<Rightarrow> hinfo \<Rightarrow> handle_mgr" where
  "store_h g a h = g\<lparr>hm_heap := (hm_heap g)(a \<mapsto> h)\<rparr>"

definition get_handle :: "handle_mgr \<Rightarrow> string \<Rightarrow> (nat option \<times> handle_mgr) res" where
  "get_handle g m =
     (case hm_map g m of
        None \<Rightarrow>
          (let a = hm_next g;
               h = \<lparr>h_cl = None, h_refcnt = 1, h_del = False, h_m = m\<rparr>
           in Inr (Some a, (store_h g a h)\<lparr>hm_map := (hm_map g)(m \<mapsto> a), hm_next := Suc a\<rparr>))
      | Some a \<Rightarrow>
          rbind (h_at g a) (\<lambda>h.
            if \<not> h_del h then Inr (Some a, store_h g a (h\<lparr>h_refcnt := h_refcnt h + 1\<rparr>)) else Inr (None, g)))"

text \<open>A client that is cancelled and deleted must not have been deleted before.\<close>

definition delete_client :: "handle_mgr \<Rightarrow> nat option \<Rightarrow> handle_mgr res" where
  "delete_client g cl =
     (case cl of
        None \<Rightarrow> Inr g
      | Some c \<Rightarrow> if c \<in> hm_deleted g then Inl UseAfterFree else Inr (g\<lparr>hm_deleted := insert c (hm_deleted g)\<rparr>))"

definition delete_handle_wo :: "handle_mgr \<Rightarrow> string \<Rightarrow> handle_mgr res" where
  "delete_handle_wo g m =
     (case hm_map g m of
        None \<Rightarrow> Inr g
      | Some a \<Rightarrow>
          rbind (h_at g a) (\<lambda>h.
            if h_refcnt h = 0 then
              rbind (delete_client g (h_cl h)) (\<lambda>g.
              Inr (g\<lparr>hm_map := (hm_map g)(m := None), hm_heap := (hm_heap g)(a := None)\<rparr>))
            else Inr (store_h g a (h\<lparr>h_del := True\<rparr>))))"

definition delete_handle :: "handle_mgr \<Rightarrow> string \<Rightarrow> handle_mgr res" where
  "delete_handle g m = delete_handle_wo g m"

definition done_handle :: "handle_mgr \<Rightarrow> nat \<Rightarrow> handle_mgr res" where
  "done_handle g a =
     rbind (h_at g a) (\<lambda>h.
     let h = h\<lparr>h_refcnt := h_refcnt h - 1\<rparr>; g = store_h g a h in
     if h_refcnt h = 0 \<and> h_del h then delete_handle_wo g (h_m h) else Inr g)"

text \<open>\<^verbatim>\<open>safebind\<close> on the pointer of a handle; \<open>ok\<close> says whether \<^verbatim>\<open>bind\<close> would succeed.\<close>

definition safebind :: "handle_mgr \<Rightarrow> nat option \<Rightarrow> bool \<Rightarrow> (nat option \<times> handle_mgr) res" where
  "safebind g p ok =
     (case p of
        None \<Rightarrow> Inr (None, g)
      | Some a \<Rightarrow>
          rbind (h_at g a) (\<lambda>h.
            if h_del h then Inr (None, g)
            else if h_cl h \<noteq> None then Inr (h_cl h, g)
            else
              let c = hm_clients g; g1 = g\<lparr>hm_clients := Suc c\<rparr> in
              if \<not> ok then Inr (None, (store_h g1 a (h\<lparr>h_del := True\<rparr>))\<lparr>hm_deleted := insert c (hm_deleted g1)\<rparr>)
              else Inr (Some c, store_h g1 a (h\<lparr>h_cl := Some c\<rparr>))))"

section \<open>Programs that use handles\<close>

datatype hop = New nat string | Bind nat bool | Drop nat | Delete string

record hworld =
  w_mgr :: handle_mgr
  w_live :: "nat \<rightharpoonup> nat option"

definition hworld_new :: hworld where
  "hworld_new = \<lparr>w_mgr = handle_mgr_new, w_live = Map.empty\<rparr>"

text \<open>The constructor, \<^verbatim>\<open>safebind\<close> and the destructor of the handle with an identifier, and the removal of a
  destination. The result is what \<^verbatim>\<open>safebind\<close> returns.\<close>

fun hdo :: "hworld \<Rightarrow> hop \<Rightarrow> (nat option \<times> hworld) res" where
  "hdo w (New i m) = rbind (get_handle (w_mgr w) m) (\<lambda>(p, g). Inr (None, w\<lparr>w_mgr := g, w_live := (w_live w)(i \<mapsto> p)\<rparr>))"
| "hdo w (Bind i ok) = rbind (safebind (w_mgr w) (the (w_live w i)) ok) (\<lambda>(c, g). Inr (c, w\<lparr>w_mgr := g\<rparr>))"
| "hdo w (Drop i) =
     rbind (case the (w_live w i) of None \<Rightarrow> Inr (w_mgr w) | Some a \<Rightarrow> done_handle (w_mgr w) a)
       (\<lambda>g. Inr (None, w\<lparr>w_mgr := g, w_live := (w_live w)(i := None)\<rparr>))"
| "hdo w (Delete m) = rbind (delete_handle (w_mgr w) m) (\<lambda>g. Inr (None, w\<lparr>w_mgr := g\<rparr>))"

text \<open>A handle is used between its construction and its destruction.\<close>

definition hproper :: "hworld \<Rightarrow> hop \<Rightarrow> bool" where
  "hproper w op \<longleftrightarrow>
     (case op of New i m \<Rightarrow> w_live w i = None | Bind i ok \<Rightarrow> w_live w i \<noteq> None | Drop i \<Rightarrow> w_live w i \<noteq> None | Delete m \<Rightarrow> True)"

inductive hreachable :: "hworld \<Rightarrow> bool" where
  start: "hreachable hworld_new"
| step: "hreachable w \<Longrightarrow> hproper w op \<Longrightarrow> hdo w op = Inr (r, w') \<Longrightarrow> hreachable w'"

section \<open>The invariant\<close>

definition holders :: "hworld \<Rightarrow> nat \<Rightarrow> nat set" where
  "holders w a = {i. w_live w i = Some (Some a)}"

text \<open>The map and the heap are inverse to each other.\<close>

definition links_ok :: "handle_mgr \<Rightarrow> bool" where
  "links_ok g \<longleftrightarrow> (\<forall>m a. hm_map g m = Some a \<longleftrightarrow> (\<exists>h. hm_heap g a = Some h \<and> h_m h = m))"

text \<open>The count of a record is the number of handles that point to it, none points to a freed record, and a
  record marked for deletion is still held.\<close>

definition count_ok :: "handle_mgr \<Rightarrow> nat \<Rightarrow> nat set \<Rightarrow> bool" where
  "count_ok g a H \<longleftrightarrow>
     (case hm_heap g a of
        None \<Rightarrow> H = {}
      | Some h \<Rightarrow> a < hm_next g \<and> h_refcnt h = int (card H) \<and> (h_del h \<longrightarrow> H \<noteq> {}))"

definition counts_ok :: "handle_mgr \<Rightarrow> (nat \<Rightarrow> nat set) \<Rightarrow> bool" where
  "counts_ok g H \<longleftrightarrow> (\<forall>a. count_ok g a (H a))"

text \<open>The clients of the records are alive and all different.\<close>

definition clients_ok :: "handle_mgr \<Rightarrow> bool" where
  "clients_ok g \<longleftrightarrow>
     (\<forall>a h c. hm_heap g a = Some h \<longrightarrow> h_cl h = Some c \<longrightarrow> c < hm_clients g \<and> c \<notin> hm_deleted g) \<and>
     (\<forall>a b h k c. hm_heap g a = Some h \<longrightarrow> hm_heap g b = Some k \<longrightarrow> h_cl h = Some c \<longrightarrow> h_cl k = Some c \<longrightarrow> a = b) \<and>
     (\<forall>c \<in> hm_deleted g. c < hm_clients g)"

definition hinv :: "hworld \<Rightarrow> bool" where
  "hinv w \<longleftrightarrow>
     finite (dom (w_live w)) \<and> links_ok (w_mgr w) \<and> counts_ok (w_mgr w) (holders w) \<and> clients_ok (w_mgr w)"

lemma hinv_new: "hinv hworld_new"
  by (simp add: hinv_def hworld_new_def handle_mgr_new_def links_ok_def counts_ok_def count_ok_def clients_ok_def holders_def)

lemma finite_holders: "hinv w \<Longrightarrow> finite (holders w a)"
  unfolding hinv_def holders_def by (auto elim!: finite_subset [rotated])

lemma holders_upd:
  "w_live w i = None \<Longrightarrow> holders (w\<lparr>w_mgr := g, w_live := (w_live w)(i \<mapsto> p)\<rparr>) b = holders w b \<union> (if p = Some b then {i} else {})"
  "holders (w\<lparr>w_mgr := g, w_live := (w_live w)(i := None)\<rparr>) b = holders w b - {i}"
  "holders (w\<lparr>w_mgr := g\<rparr>) b = holders w b"
  by (auto simp: holders_def)

lemma store_h_links:
  "links_ok g \<Longrightarrow> hm_heap g a = Some h \<Longrightarrow> h_m h' = h_m h \<Longrightarrow> links_ok (store_h g a h')"
  by (auto simp: links_ok_def store_h_def)

lemma store_h_counts:
  assumes "counts_ok g H" "hm_heap g a = Some h" "\<And>b. b \<noteq> a \<Longrightarrow> H' b = H b"
    and "h_refcnt h' = int (card (H' a))" "h_del h' \<Longrightarrow> H' a \<noteq> {}"
  shows "counts_ok (store_h g a h') H'"
  unfolding counts_ok_def
proof
  fix b
  show "count_ok (store_h g a h') b (H' b)"
    using assms(1) [unfolded counts_ok_def, rule_format, of b] assms(2-5)
    by (cases "b = a") (auto simp: count_ok_def store_h_def split: option.splits)
qed

lemma store_h_clients:
  "clients_ok g \<Longrightarrow> hm_heap g a = Some h \<Longrightarrow> h_cl h' = h_cl h \<Longrightarrow> clients_ok (store_h g a h')"
  unfolding clients_ok_def store_h_def by (simp; metis)

lemma count_ok_same:
  "hm_heap g' a = hm_heap g a \<Longrightarrow> hm_next g' = hm_next g \<Longrightarrow> count_ok g' a H = count_ok g a H"
  by (cases "hm_heap g a") (simp_all add: count_ok_def)

lemma counts_okD:
  "counts_ok g H \<Longrightarrow> hm_heap g a = Some h \<Longrightarrow> h_refcnt h = int (card (H a)) \<and> (h_del h \<longrightarrow> H a \<noteq> {})"
  "counts_ok g H \<Longrightarrow> i \<in> H a \<Longrightarrow> \<exists>h. hm_heap g a = Some h"
  unfolding counts_ok_def by (auto simp: count_ok_def dest!: spec [of _ a] split: option.splits)

section \<open>Each operation keeps the invariant and does not fault\<close>

lemma get_handle_ok:
  assumes "hinv w" "w_live w i = None"
  shows "\<exists>p g. get_handle (w_mgr w) m = Inr (p, g) \<and> hinv (w\<lparr>w_mgr := g, w_live := (w_live w)(i \<mapsto> p)\<rparr>)"
proof (cases "hm_map (w_mgr w) m")
  case None
  let ?g = "w_mgr w" and ?a = "hm_next (w_mgr w)"
  let ?h = "\<lparr>h_cl = None, h_refcnt = 1, h_del = False, h_m = m\<rparr>"
  let ?g' = "(store_h ?g ?a ?h)\<lparr>hm_map := (hm_map ?g)(m \<mapsto> ?a), hm_next := Suc ?a\<rparr>"
  let ?H = "holders (w\<lparr>w_mgr := ?g', w_live := (w_live w)(i \<mapsto> Some ?a)\<rparr>)"
  have inv: "finite (dom (w_live w))" "links_ok ?g" "counts_ok ?g (holders w)" "clients_ok ?g" using assms(1) by (simp_all add: hinv_def)
  have fresh: "hm_heap ?g ?a = None" using inv(3) by (auto simp: counts_ok_def count_ok_def dest!: spec [of _ ?a] split: option.splits)
  then have H: "?H b = (if b = ?a then {i} else holders w b)" for b
    using inv(3) by (auto simp: holders_upd(1) [OF assms(2)] counts_ok_def count_ok_def dest!: spec [of _ ?a])
  have "hm_heap ?g a = Some h \<Longrightarrow> h_m h \<noteq> m" for a h
    using inv(2) [unfolded links_ok_def, rule_format, of m a] None by auto
  with inv(2) fresh have "links_ok ?g'" by (auto simp: links_ok_def store_h_def)
  moreover have "counts_ok ?g' ?H"
    unfolding counts_ok_def
  proof
    fix b
    show "count_ok ?g' b (?H b)"
      unfolding H using inv(3) [unfolded counts_ok_def, rule_format, of b] by (auto simp: count_ok_def store_h_def split: option.splits)
  qed
  moreover have "clients_ok ?g'" using inv(4) unfolding clients_ok_def store_h_def by simp
  moreover have "get_handle ?g m = Inr (Some ?a, ?g')" by (simp add: get_handle_def None Let_def)
  ultimately show ?thesis using inv(1) by (intro exI [of _ "Some ?a"] exI [of _ ?g']) (simp add: hinv_def)
next
  case (Some a)
  let ?g = "w_mgr w"
  have inv: "finite (dom (w_live w))" "links_ok ?g" "counts_ok ?g (holders w)" "clients_ok ?g" using assms(1) by (simp_all add: hinv_def)
  then obtain h where h: "hm_heap ?g a = Some h" "h_m h = m" using Some by (auto simp: links_ok_def)
  show ?thesis
  proof (cases "h_del h")
    case True
    have "holders (w\<lparr>w_mgr := ?g, w_live := (w_live w)(i \<mapsto> None)\<rparr>) = holders w" using assms(2) by (auto simp: holders_def fun_eq_iff)
    with True h Some inv show ?thesis by (intro exI [of _ None] exI [of _ ?g]) (simp add: get_handle_def h_at_def hinv_def)
  next
    case False
    let ?h = "h\<lparr>h_refcnt := h_refcnt h + 1\<rparr>"
    let ?H = "holders (w\<lparr>w_mgr := store_h ?g a ?h, w_live := (w_live w)(i \<mapsto> Some a)\<rparr>)"
    have H: "?H b = (if b = a then insert i (holders w a) else holders w b)" for b by (simp add: holders_upd(1) [OF assms(2)])
    have "i \<notin> holders w a" using assms(2) by (simp add: holders_def)
    then have "counts_ok (store_h ?g a ?h) ?H"
      using finite_holders [OF assms(1), of a] counts_okD(1) [OF inv(3) h(1)]
      by (intro store_h_counts [OF inv(3) h(1)]) (unfold H, simp_all)
    with False h Some inv(1) store_h_links [OF inv(2) h(1), of ?h] store_h_clients [OF inv(4) h(1), of ?h] show ?thesis
      by (intro exI [of _ "Some a"] exI [of _ "store_h ?g a ?h"]) (simp add: get_handle_def h_at_def hinv_def)
  qed
qed

text \<open>Freeing a record nobody holds.\<close>

lemma free_record:
  assumes "links_ok g" "clients_ok g" "hm_heap g a = Some h" "h_refcnt h = 0" "H a = {}" "\<And>b. b \<noteq> a \<Longrightarrow> count_ok g b (H b)"
  shows "\<exists>g'. delete_handle_wo g (h_m h) = Inr g' \<and> links_ok g' \<and> counts_ok g' H \<and> clients_ok g'"
proof -
  define g1 where "g1 = (case h_cl h of None \<Rightarrow> g | Some c \<Rightarrow> g\<lparr>hm_deleted := insert c (hm_deleted g)\<rparr>)"
  let ?g = "g1\<lparr>hm_map := (hm_map g)(h_m h := None), hm_heap := (hm_heap g)(a := None)\<rparr>"
  have m: "hm_map g (h_m h) = Some a" using assms(1,3) by (auto simp: links_ok_def)
  have g1: "hm_map g1 = hm_map g" "hm_heap g1 = hm_heap g" "hm_next g1 = hm_next g" "hm_clients g1 = hm_clients g"
    "hm_deleted g1 = hm_deleted g \<union> set_option (h_cl h)"
    by (simp_all add: g1_def split: option.splits)
  have d: "delete_client g (h_cl h) = Inr g1"
    using assms(2,3) by (auto simp: delete_client_def g1_def clients_ok_def split: option.splits)
  then have r: "delete_handle_wo g (h_m h) = Inr ?g"
    by (simp add: delete_handle_wo_def m h_at_def assms(3,4) g1)
  have "hm_map g n = Some b \<longleftrightarrow> (\<exists>k. hm_heap g b = Some k \<and> h_m k = n)" for n b
    using assms(1) by (simp add: links_ok_def)
  then have "links_ok ?g" using m assms(3) unfolding links_ok_def by (auto; metis option.inject)
  moreover have "counts_ok ?g H"
    unfolding counts_ok_def
  proof
    fix b
    show "count_ok ?g b (H b)"
      using assms(5) assms(6) [of b] count_ok_same [of ?g b g] by (cases "b = a") (simp_all add: count_ok_def g1)
  qed
  moreover have "clients_ok ?g"
    using assms(2,3) unfolding clients_ok_def g1 by (auto simp: g1; blast)
  ultimately show ?thesis using r by blast
qed

lemma delete_handle_ok:
  assumes "hinv w"
  shows "\<exists>g'. delete_handle (w_mgr w) m = Inr g' \<and> hinv (w\<lparr>w_mgr := g'\<rparr>)"
proof -
  let ?g = "w_mgr w" and ?H = "holders w"
  have inv: "finite (dom (w_live w))" "links_ok ?g" "counts_ok ?g ?H" "clients_ok ?g" using assms by (simp_all add: hinv_def)
  have "\<exists>g'. delete_handle_wo ?g m = Inr g' \<and> links_ok g' \<and> counts_ok g' ?H \<and> clients_ok g'"
  proof (cases "hm_map ?g m")
    case None
    with inv show ?thesis by (simp add: delete_handle_wo_def)
  next
    case (Some a)
    then obtain h where h: "hm_heap ?g a = Some h" "h_m h = m" using inv(2) by (auto simp: links_ok_def)
    note c = counts_okD(1) [OF inv(3) h(1)]
    show ?thesis
    proof (cases "h_refcnt h = 0")
      case True
      then have "?H a = {}" using c finite_holders [OF assms, of a] by simp
      from free_record [where H = ?H, OF inv(2,4) h(1) True this] inv(3) h(2) show ?thesis by (simp add: counts_ok_def)
    next
      case False
      let ?h = "h\<lparr>h_del := True\<rparr>"
      have "?H a \<noteq> {}" using False c by auto
      then have "counts_ok (store_h ?g a ?h) ?H" by (intro store_h_counts [OF inv(3) h(1)]) (use c in simp_all)
      with False h Some store_h_links [OF inv(2) h(1), of ?h] store_h_clients [OF inv(4) h(1), of ?h]
      show ?thesis by (simp add: delete_handle_wo_def h_at_def)
    qed
  qed
  moreover have "holders (w\<lparr>w_mgr := g'\<rparr>) = ?H" for g' by (rule ext) (simp add: holders_upd)
  ultimately show ?thesis using inv(1) by (auto simp: hinv_def delete_handle_def)
qed

lemma done_handle_ok:
  assumes "hinv w" "w_live w i = Some (Some a)"
  shows "\<exists>g'. done_handle (w_mgr w) a = Inr g' \<and> hinv (w\<lparr>w_mgr := g', w_live := (w_live w)(i := None)\<rparr>)"
proof -
  let ?g = "w_mgr w"
  let ?H = "\<lambda>b. holders w b - {i}"
  have inv: "finite (dom (w_live w))" "links_ok ?g" "counts_ok ?g (holders w)" "clients_ok ?g" using assms(1) by (simp_all add: hinv_def)
  have i: "i \<in> holders w b \<longleftrightarrow> b = a" for b using assms(2) by (auto simp: holders_def)
  then obtain h where h: "hm_heap ?g a = Some h" using counts_okD(2) [OF inv(3)] by blast
  let ?h = "h\<lparr>h_refcnt := h_refcnt h - 1\<rparr>"
  let ?g1 = "store_h ?g a ?h"
  have "int (card (?H a)) = int (card (holders w a)) - 1"
    using i finite_holders [OF assms(1), of a] card_Suc_Diff1 [of "holders w a" i] by simp
  then have n: "h_refcnt ?h = int (card (?H a))" using counts_okD(1) [OF inv(3) h] by simp
  have ls: "links_ok ?g1" "clients_ok ?g1" using store_h_links [OF inv(2) h, of ?h] store_h_clients [OF inv(4) h, of ?h] by simp_all
  have b: "count_ok ?g1 b (?H b)" if "b \<noteq> a" for b
    using inv(3) i that count_ok_same [of ?g1 b ?g] by (simp add: counts_ok_def store_h_def)
  have "\<exists>g'. done_handle ?g a = Inr g' \<and> links_ok g' \<and> counts_ok g' ?H \<and> clients_ok g'"
  proof (cases "h_refcnt ?h = 0 \<and> h_del h")
    case True
    have e: "?H a = {}" using True n finite_holders [OF assms(1), of a] by simp
    from free_record [of ?g1 a ?h ?H, OF ls _ _ e b] True show ?thesis
      by (simp add: done_handle_def h_at_def h Let_def store_h_def)
  next
    case False
    have "?H a \<noteq> {}" if "h_del ?h"
    proof -
      have "card (?H a) \<noteq> 0" using False n that by simp
      then show ?thesis by (metis card.empty)
    qed
    then have "counts_ok ?g1 ?H" using n i by (intro store_h_counts [OF inv(3) h]) auto
    with False ls show ?thesis by (auto simp: done_handle_def h_at_def h Let_def)
  qed
  moreover have "holders (w\<lparr>w_mgr := g', w_live := (w_live w)(i := None)\<rparr>) = ?H" for g' by (rule ext) (simp add: holders_upd)
  ultimately show ?thesis using inv(1) by (auto simp: hinv_def)
qed

lemma safebind_ok:
  assumes "hinv w" "w_live w i = Some p"
  shows "\<exists>c g'. safebind (w_mgr w) p ok = Inr (c, g') \<and> hinv (w\<lparr>w_mgr := g'\<rparr>) \<and>
    (\<forall>x. c = Some x \<longrightarrow> x < hm_clients g' \<and> x \<notin> hm_deleted g' \<and> (\<exists>a h. p = Some a \<and> hm_heap g' a = Some h \<and> h_cl h = Some x))"
proof -
  let ?g = "w_mgr w"
  have inv: "finite (dom (w_live w))" "links_ok ?g" "counts_ok ?g (holders w)" "clients_ok ?g" using assms(1) by (simp_all add: hinv_def)
  have H: "holders (w\<lparr>w_mgr := g'\<rparr>) = holders w" for g' by (rule ext) (simp add: holders_upd)
  show ?thesis
  proof (cases p)
    case None
    with assms(1) show ?thesis by (simp add: safebind_def)
  next
    case (Some a)
    then have "i \<in> holders w a" using assms(2) by (simp add: holders_def)
    with counts_okD(2) [OF inv(3)] obtain h where h: "hm_heap ?g a = Some h" by blast
    note c = counts_okD(1) [OF inv(3) h]
    let ?g1 = "?g\<lparr>hm_clients := Suc (hm_clients ?g)\<rparr>"
    have g1: "links_ok ?g1" "counts_ok ?g1 (holders w)" "hm_heap ?g1 a = Some h"
      using inv(2,3) h count_ok_same [of ?g1 _ ?g] by (simp_all add: links_ok_def counts_ok_def)
    consider "h_del h" | "\<not> h_del h" "h_cl h \<noteq> None" | "\<not> h_del h" "h_cl h = None" "\<not> ok" | "\<not> h_del h" "h_cl h = None" "ok" by blast
    then show ?thesis
    proof cases
      case 1
      with assms(1) Some h show ?thesis by (simp add: safebind_def h_at_def)
    next
      case 2
      with assms(1) Some h inv(4) show ?thesis by (auto simp: safebind_def h_at_def clients_ok_def)
    next
      case 3
      let ?h = "h\<lparr>h_del := True\<rparr>"
      let ?g' = "(store_h ?g1 a ?h)\<lparr>hm_deleted := insert (hm_clients ?g) (hm_deleted ?g)\<rparr>"
      have "links_ok ?g'" using store_h_links [OF g1(1,3), of ?h] by (simp add: links_ok_def)
      moreover have "counts_ok ?g' (holders w)"
        using store_h_counts [OF g1(2,3), of "holders w" ?h] c \<open>i \<in> holders w a\<close> count_ok_same [of ?g' _ "store_h ?g1 a ?h"] by (auto simp: counts_ok_def)
      moreover have "clients_ok ?g'"
        using inv(4) h unfolding clients_ok_def store_h_def by (auto simp: less_Suc_eq; blast)
      ultimately show ?thesis using 3 Some h inv(1) H by (simp add: safebind_def h_at_def Let_def hinv_def)
    next
      case 4
      let ?h = "h\<lparr>h_cl := Some (hm_clients ?g)\<rparr>"
      let ?g' = "store_h ?g1 a ?h"
      have "clients_ok ?g'"
        using inv(4) h unfolding clients_ok_def store_h_def by (auto simp: less_Suc_eq; blast)
      moreover have "counts_ok ?g' (holders w)" by (rule store_h_counts [OF g1(2,3)]) (use c in simp_all)
      moreover have "hm_clients ?g \<notin> hm_deleted ?g" using inv(4) by (auto simp: clients_ok_def)
      ultimately show ?thesis
        using 4 Some h inv(1) H store_h_links [OF g1(1,3), of ?h] by (simp add: safebind_def h_at_def Let_def hinv_def) (simp add: store_h_def)
    qed
  qed
qed

lemma hdo_ok:
  assumes "hinv w" "hproper w op"
  shows "\<exists>r w'. hdo w op = Inr (r, w') \<and> hinv w' \<and> (\<forall>c. r = Some c \<longrightarrow> c \<notin> hm_deleted (w_mgr w'))"
proof (cases op)
  case (New i m)
  with assms(2) have "w_live w i = None" by (simp add: hproper_def)
  from get_handle_ok [OF assms(1) this, of m] New show ?thesis by fastforce
next
  case (Bind i ok)
  with assms(2) obtain p where p: "w_live w i = Some p" by (auto simp: hproper_def)
  from safebind_ok [OF assms(1) p, of ok] Bind p show ?thesis by fastforce
next
  case (Drop i)
  with assms(2) obtain p where p: "w_live w i = Some p" by (auto simp: hproper_def)
  show ?thesis
  proof (cases p)
    case None
    have "holders (w\<lparr>w_mgr := w_mgr w, w_live := (w_live w)(i := None)\<rparr>) = holders w"
      using p None by (auto simp: holders_def fun_eq_iff)
    with assms(1) p None Drop show ?thesis by (simp add: hinv_def)
  next
    case (Some a)
    with done_handle_ok [OF assms(1), of i a] p Drop show ?thesis by fastforce
  qed
next
  case (Delete m)
  from delete_handle_ok [OF assms(1), of m] Delete show ?thesis by fastforce
qed

lemma hinv_reachable: "hreachable w \<Longrightarrow> hinv w"
proof (induction rule: hreachable.induct)
  case (step w op r w')
  from hdo_ok [OF step.IH step.hyps(2)] step.hyps(3) show ?case by auto
qed (rule hinv_new)

text \<open>A record that is not freed keeps its client.\<close>

lemma keeps_client:
  assumes "hdo w op = Inr (r, w')" "hinv w" "hm_heap (w_mgr w) a = Some h" "h_cl h = Some c"
    and "hm_heap (w_mgr w') a = Some h'"
  shows "h_cl h' = Some c"
proof -
  have a: "a < hm_next (w_mgr w)"
    using assms(2,3) by (auto simp: hinv_def counts_ok_def count_ok_def dest!: spec [of _ a])
  show ?thesis
  proof (cases op)
    case (New i m)
    with assms a show ?thesis
      by (auto simp: get_handle_def h_at_def store_h_def Let_def rbind_eq_Inr split: option.splits if_splits)
  next
    case (Bind i ok)
    with assms show ?thesis
      by (auto simp: safebind_def h_at_def store_h_def Let_def rbind_eq_Inr split: option.splits if_splits)
  next
    case (Drop i)
    with assms show ?thesis
      by (auto simp: done_handle_def delete_handle_wo_def delete_client_def h_at_def store_h_def Let_def rbind_eq_Inr
          split: option.splits if_splits)
  next
    case (Delete m)
    with assms show ?thesis
      by (auto simp: delete_handle_def delete_handle_wo_def delete_client_def h_at_def store_h_def Let_def rbind_eq_Inr
          split: option.splits if_splits)
  qed
qed

text \<open>(C24) Handles never dangle: in every program that uses handles between their construction and their
  destruction, with destinations removed at any time and binds failing at any time, no operation
  follows a pointer to a freed record or deletes a client twice; the count of every record is the
  number of handles that hold it; and the client of a record stays the same and alive as long as a
  handle holds the record, so that what \<^verbatim>\<open>safebind\<close> returned can be used until then.\<close>

theorem handles_never_dangle:
  assumes "hreachable w" "hproper w op"
  shows "\<exists>r w'. hdo w op = Inr (r, w') \<and> (\<forall>c. r = Some c \<longrightarrow> c \<notin> hm_deleted (w_mgr w')) \<and>
    (\<forall>a h. hm_heap (w_mgr w') a = Some h \<longrightarrow> h_refcnt h = int (card (holders w' a))) \<and>
    (\<forall>a h c. hm_heap (w_mgr w) a = Some h \<and> h_cl h = Some c \<and> holders w' a \<noteq> {} \<longrightarrow>
       c \<notin> hm_deleted (w_mgr w') \<and> (\<exists>h'. hm_heap (w_mgr w') a = Some h' \<and> h_cl h' = Some c))"
proof -
  note inv = hinv_reachable [OF assms(1)]
  from hdo_ok [OF inv assms(2)] obtain r w' where
    d: "hdo w op = Inr (r, w')" "hinv w'" "\<forall>c. r = Some c \<longrightarrow> c \<notin> hm_deleted (w_mgr w')" by blast
  have g: "counts_ok (w_mgr w') (holders w')" "clients_ok (w_mgr w')" using d(2) by (simp_all add: hinv_def)
  have "c \<notin> hm_deleted (w_mgr w') \<and> (\<exists>h'. hm_heap (w_mgr w') a = Some h' \<and> h_cl h' = Some c)"
    if h: "hm_heap (w_mgr w) a = Some h" "h_cl h = Some c" "holders w' a \<noteq> {}" for a h c
  proof -
    from h(3) obtain h' where h': "hm_heap (w_mgr w') a = Some h'" using counts_okD(2) [OF g(1)] by blast
    with keeps_client [OF d(1) inv h(1,2)] g(2) show ?thesis unfolding clients_ok_def by blast
  qed
  with d(1,3) counts_okD(1) [OF g(1)] show ?thesis by blast
qed

definition handle_demo :: hworld where
  "handle_demo =
     \<lparr>w_mgr = \<lparr>hm_map = [''h'' \<mapsto> 0], hm_heap = [0 \<mapsto> \<lparr>h_cl = Some 0, h_refcnt = 1, h_del = False, h_m = ''h''\<rparr>],
        hm_next = 1, hm_clients = 1, hm_deleted = {}\<rparr>, w_live = [5 \<mapsto> Some 0]\<rparr>"

lemma handle_demo_reachable: "hreachable handle_demo"
proof -
  obtain w1 where w1: "hdo hworld_new (New 5 ''h'') = Inr (None, w1)" "hdo w1 (Bind 5 True) = Inr (Some 0, handle_demo)" "w_live w1 5 \<noteq> None"
    by (simp add: hworld_new_def handle_mgr_new_def get_handle_def store_h_def safebind_def h_at_def Let_def handle_demo_def)
  have "hproper hworld_new (New 5 ''h'')" by (simp add: hproper_def hworld_new_def)
  from hreachable.step [OF hreachable.start this w1(1)] have "hreachable w1" .
  from hreachable.step [OF this _ w1(2)] w1(3) show ?thesis by (simp add: hproper_def)
qed

theorem handles_never_dangle_witness:
  "\<exists>r w'. hdo handle_demo (Delete ''h'') = Inr (r, w') \<and> 0 \<notin> hm_deleted (w_mgr w') \<and> holders w' 0 = {5}"
proof -
  have "hproper handle_demo (Delete ''h'')" by (simp add: hproper_def)
  from handles_never_dangle [OF handle_demo_reachable this] obtain r w' where w': "hdo handle_demo (Delete ''h'') = Inr (r, w')"
    "\<forall>a h c. hm_heap (w_mgr handle_demo) a = Some h \<and> h_cl h = Some c \<and> holders w' a \<noteq> {} \<longrightarrow> c \<notin> hm_deleted (w_mgr w')" by blast
  have h: "holders w' 0 = {5}"
    using w'(1) by (auto simp: handle_demo_def delete_handle_def delete_handle_wo_def h_at_def holders_def split: if_splits)
  have "hm_heap (w_mgr handle_demo) 0 = Some \<lparr>h_cl = Some 0, h_refcnt = 1, h_del = False, h_m = ''h''\<rparr>" by (simp add: handle_demo_def)
  with w' h show ?thesis by fastforce
qed

end
