(* ===== verification/Lock_Tester.thy ===== *)
theory Lock_Tester
  imports Lock_System
begin

text \<open>
  The checks of the lock tester \<^verbatim>\<open>lock_tester.cc\<close> on top of the lock service. Its threads, of any number of
  clients and several at one client, acquire a lock, call \<^verbatim>\<open>check_grant\<close>, then \<^verbatim>\<open>check_release\<close>, and release
  the lock, as the concurrent tests \<^verbatim>\<open>test2\<close> to \<^verbatim>\<open>test5\<close> do. A check that would print an error and exit is
  \<open>None\<close>.
\<close>

type_synonym counts = "lockid \<Rightarrow> int"

definition low :: "lockid \<Rightarrow> lockid" where
  "low lid = lid AND 0xff"

definition check_grant :: "counts \<Rightarrow> lockid \<Rightarrow> counts option" where
  "check_grant ct lid = (let x = low lid in if ct x \<noteq> 0 then None else Some (ct(x := ct x + 1)))"

definition check_release :: "counts \<Rightarrow> lockid \<Rightarrow> counts option" where
  "check_release ct lid = (let x = low lid in if ct x \<noteq> 1 then None else Some (ct(x := ct x - 1)))"

text \<open>Where a thread that has the lock is: before the first check, between the two, or past both.\<close>

datatype checked = Before | Between | Past

record tsys =
  t_lock :: lsys
  t_ct :: counts
  t_at :: "string \<Rightarrow> nat \<Rightarrow> checked"

definition tinit :: tsys where
  "tinit = \<lparr>t_lock = lsys_init, t_ct = (\<lambda>_. 0), t_at = (\<lambda>_ _. Before)\<rparr>"

definition in_crit :: "lsys \<Rightarrow> string \<Rightarrow> nat \<Rightarrow> bool" where
  "in_crit l c t \<longleftrightarrow> (\<exists>lid. y_pc l c t = Crit lid)"

text \<open>The locks used are in \<open>L\<close>. A thread goes on to release its lock only past both checks; when it leaves
  its critical section it starts anew.\<close>

inductive tstep :: "lockid set \<Rightarrow> tsys \<Rightarrow> tsys \<Rightarrow> bool" for L where
  lock: "lstep (t_lock s) l \<Longrightarrow> \<forall>c t lid. y_pc l c t = Crit lid \<longrightarrow> lid \<in> L \<Longrightarrow>
    \<forall>c t lid. y_pc (t_lock s) c t = Crit lid \<and> t_at s c t \<noteq> Past \<longrightarrow> y_pc l c t = Crit lid \<Longrightarrow>
    tstep L s (s\<lparr>t_lock := l, t_at := (\<lambda>c t. if in_crit l c t then t_at s c t else Before)\<rparr>)"
| grant: "y_pc (t_lock s) c t = Crit lid \<Longrightarrow> t_at s c t = Before \<Longrightarrow> check_grant (t_ct s) lid = Some ct \<Longrightarrow>
    tstep L s (s\<lparr>t_ct := ct, t_at := (t_at s)(c := (t_at s c)(t := Between))\<rparr>)"
| release: "y_pc (t_lock s) c t = Crit lid \<Longrightarrow> t_at s c t = Between \<Longrightarrow> check_release (t_ct s) lid = Some ct \<Longrightarrow>
    tstep L s (s\<lparr>t_ct := ct, t_at := (t_at s)(c := (t_at s c)(t := Past))\<rparr>)"

definition treachable :: "lockid set \<Rightarrow> tsys \<Rightarrow> bool" where
  "treachable L s \<longleftrightarrow> (tstep L)\<^sup>*\<^sup>* tinit s"

section \<open>The invariant\<close>

definition between :: "tsys \<Rightarrow> lockid \<Rightarrow> bool" where
  "between s x \<longleftrightarrow> (\<exists>c t lid. y_pc (t_lock s) c t = Crit lid \<and> t_at s c t = Between \<and> low lid = x)"

definition tinv :: "lockid set \<Rightarrow> tsys \<Rightarrow> bool" where
  "tinv L s \<longleftrightarrow>
     lreachable (t_lock s) \<and> (\<forall>c t lid. y_pc (t_lock s) c t = Crit lid \<longrightarrow> lid \<in> L) \<and>
     (\<forall>c t. \<not> in_crit (t_lock s) c t \<longrightarrow> t_at s c t = Before) \<and>
     (\<forall>x. t_ct s x = (if between s x then 1 else 0))"

lemma tinv_init: "tinv L tinit"
  by (simp add: tinv_def tinit_def lreachable_def lsys_init_def in_crit_def between_def)

text \<open>Of all threads with a lock whose name has the same low byte there is only one.\<close>

lemma one_in_crit:
  assumes "tinv L s" "inj_on low L" "y_pc (t_lock s) c t = Crit lid" "y_pc (t_lock s) c' t' = Crit lid'" "low lid' = low lid"
  shows "c' = c \<and> t' = t \<and> lid' = lid"
proof -
  have "lid' = lid" using assms by (auto simp: tinv_def dest: inj_onD)
  note i = linv_reachable [of "t_lock s"]
  have g: "granted lid (y_pc (t_lock s) c t)" "granted lid (y_pc (t_lock s) c' t')" using assms(3,4) \<open>lid' = lid\<close> by simp_all
  have l: "linv (t_lock s)" using assms(1) by (intro i) (simp add: tinv_def)
  have c: "c' = c" using granted_holder [OF l g(1)] granted_holder [OF l g(2)] by simp
  from linv_at(1) [OF l, of lid c] granted_busy [OF g(1)] granted_busy [OF g(2)] have "t' = t"
    unfolding cli_ok_def c by blast
  with c \<open>lid' = lid\<close> show ?thesis by simp
qed

lemma tinv_step:
  assumes "tstep L s s'" "tinv L s" "inj_on low L"
  shows "tinv L s'"
  using assms(1)
proof cases
  case (lock l)
  have "between s' x = between s x" for x
    using lock assms(2) unfolding between_def tinv_def in_crit_def by (auto; metis checked.distinct(1,5) pc.inject(5))
  moreover have "lreachable l" using lock(2) assms(2) by (auto simp: tinv_def lreachable_def)
  ultimately show ?thesis using lock assms(2) by (simp add: tinv_def)
next
  case (grant c t lid ct)
  have ct: "t_ct s (low lid) = 0" "ct = (t_ct s)(low lid := 1)" using grant(4) by (auto simp: check_grant_def Let_def split: if_splits)
  have at: "t_lock s' = t_lock s" "t_at s' c' t' = (if c' = c \<and> t' = t then Between else t_at s c' t')" for c' t'
    using grant(1) by simp_all
  have 1: "between s x \<Longrightarrow> between s' x" for x
  proof -
    assume "between s x"
    then obtain c' t' l where "y_pc (t_lock s) c' t' = Crit l" "t_at s c' t' = Between" "low l = x" unfolding between_def by blast
    then show "between s' x" unfolding between_def at by (intro exI [of _ c'] exI [of _ t'] exI [of _ l]) simp
  qed
  have 2: "between s' (low lid)" using grant(2) unfolding between_def at by (intro exI [of _ c] exI [of _ t]) simp
  have 3: "between s' x \<Longrightarrow> x = low lid \<or> between s x" for x using grant(2) unfolding between_def at by (auto split: if_splits)
  from 1 2 3 have "between s' x = (x = low lid \<or> between s x)" for x by blast
  with grant ct assms(2) show ?thesis by (auto simp: tinv_def in_crit_def)
next
  case (release c t lid ct)
  have ct: "ct = (t_ct s)(low lid := 0)" using release(4) by (auto simp: check_release_def Let_def split: if_splits)
  have at: "t_lock s' = t_lock s" "t_at s' c' t' = (if c' = c \<and> t' = t then Past else t_at s c' t')" for c' t'
    using release(1) by simp_all
  note one = one_in_crit [OF assms(2,3) release(2)]
  have 1: "between s' x \<Longrightarrow> between s x" for x unfolding between_def at by (auto split: if_splits)
  have 2: "\<not> between s' (low lid)" using one unfolding between_def at by (metis checked.distinct(5))
  have 3: "between s' x" if b: "between s x" "x \<noteq> low lid" for x
  proof -
    from b(1) obtain c' t' l where "y_pc (t_lock s) c' t' = Crit l" "t_at s c' t' = Between" "low l = x" unfolding between_def by blast
    with b(2) release(2) show ?thesis unfolding between_def at by (intro exI [of _ c'] exI [of _ t'] exI [of _ l]) auto
  qed
  from 1 2 3 have "between s' x = (x \<noteq> low lid \<and> between s x)" for x by blast
  with release ct assms(2) show ?thesis by (auto simp: tinv_def in_crit_def)
qed

lemma tinv_reachable: "treachable L s \<Longrightarrow> inj_on low L \<Longrightarrow> tinv L s"
  unfolding treachable_def by (induction rule: rtranclp_induct) (auto intro: tinv_init tinv_step)

lemma checks_pass:
  assumes "tinv L s" "inj_on low L" "y_pc (t_lock s) c t = Crit lid"
  shows "(t_at s c t = Before \<longrightarrow> check_grant (t_ct s) lid \<noteq> None) \<and>
    (t_at s c t = Between \<longrightarrow> check_release (t_ct s) lid \<noteq> None)"
proof -
  have ct: "t_ct s (low lid) = (if between s (low lid) then 1 else 0)" using assms(1) by (simp add: tinv_def)
  have b: "between s (low lid) \<longleftrightarrow> t_at s c t = Between"
    using one_in_crit [OF assms] assms(3) unfolding between_def by blast
  show ?thesis unfolding check_grant_def check_release_def Let_def ct b by simp
qed

section \<open>The concurrent tests\<close>

text \<open>The lock they use, and for a test its threads, the client each thread uses, and how often it takes the lock.\<close>

definition lock_a :: lockid where "lock_a = 1"

definition lock_b :: lockid where "lock_b = 2"

definition test_threads :: "nat \<Rightarrow> nat" where
  "test_threads n = (if n = 4 then 2 else 10)"

definition test_client :: "nat \<Rightarrow> nat \<Rightarrow> nat" where
  "test_client n i = (if n = 4 then 0 else if n = 5 then if i < 5 then 0 else 1 else i)"

definition test_rounds :: "nat \<Rightarrow> nat" where
  "test_rounds n = (if n = 2 then 1 else 10)"

text \<open>\<open>r_left\<close> counts the rounds that a thread has still to begin; the clients are known to the server by
  their \<open>names\<close>.\<close>

record rsys =
  r_sys :: tsys
  r_left :: "nat \<Rightarrow> nat"

inductive rstep :: "(nat \<Rightarrow> string) \<Rightarrow> nat \<Rightarrow> rsys \<Rightarrow> rsys \<Rightarrow> bool" for names n where
  round: "t < test_threads n \<Longrightarrow> 0 < r_left s t \<Longrightarrow> y_pc (t_lock (r_sys s)) (names (test_client n t)) t = Idle \<Longrightarrow>
    rstep names n s \<lparr>r_sys = (r_sys s)\<lparr>t_lock := goto (t_lock (r_sys s)) (names (test_client n t)) t (AcqLoop lock_a)\<rparr>,
      r_left = (r_left s)(t := r_left s t - 1)\<rparr>"
| goes: "tstep {lock_a} (r_sys s) u \<Longrightarrow>
    \<forall>c t lid. y_pc (t_lock (r_sys s)) c t = Idle \<longrightarrow> y_pc (t_lock u) c t \<noteq> AcqLoop lid \<Longrightarrow>
    rstep names n s (s\<lparr>r_sys := u\<rparr>)"

definition joined :: "(nat \<Rightarrow> string) \<Rightarrow> nat \<Rightarrow> rsys \<Rightarrow> bool" where
  "joined names n s \<longleftrightarrow> (\<forall>t < test_threads n. r_left s t = 0 \<and> y_pc (t_lock (r_sys s)) (names (test_client n t)) t = Idle)"

text \<open>\<^verbatim>\<open>main\<close> runs tests one after the other; the list holds those begun so far, the latest first.\<close>

inductive tester :: "(nat \<Rightarrow> string) \<Rightarrow> nat list \<Rightarrow> rsys \<Rightarrow> bool" for names where
  start: "tester names [] \<lparr>r_sys = tinit, r_left = (\<lambda>_. 0)\<rparr>"
| test: "tester names ns s \<Longrightarrow> ns = [] \<or> joined names (hd ns) s \<Longrightarrow> n \<in> {2, 3, 4, 5} \<Longrightarrow>
    tester names (n # ns) (s\<lparr>r_left := (\<lambda>t. if t < test_threads n then test_rounds n else 0)\<rparr>)"
| step: "tester names (n # ns) s \<Longrightarrow> rstep names n s s' \<Longrightarrow> tester names (n # ns) s'"

text \<open>What a thread does for \<^verbatim>\<open>acquire\<close> and \<^verbatim>\<open>release\<close>, as opposed to a handler.\<close>

fun uses :: "pc \<Rightarrow> bool" where
  "uses Idle = False"
| "uses (RevFlush _) = False"
| "uses (RevCall _) = False"
| "uses (RevRet _) = False"
| "uses _ = True"

lemma lstep_uses:
  assumes "lstep s s'" "uses (y_pc s' c t)"
  shows "uses (y_pc s c t) \<or> (\<exists>lid. y_pc s c t = Idle \<and> y_pc s' c t = AcqLoop lid)"
  using assms by (cases rule: lstep.cases) (auto simp: goto_def set_cli_def split: if_splits)

text \<open>Only the threads of the test use locks.\<close>

definition rinv :: "(nat \<Rightarrow> string) \<Rightarrow> nat list \<Rightarrow> rsys \<Rightarrow> bool" where
  "rinv names ns s \<longleftrightarrow> tinv {lock_a} (r_sys s) \<and>
     (\<forall>c t. uses (y_pc (t_lock (r_sys s)) c t) \<longrightarrow> ns \<noteq> [] \<and> t < test_threads (hd ns) \<and> c = names (test_client (hd ns) t))"

lemma rinv_step:
  assumes "rstep names n s s'" "rinv names (n # ns) s"
  shows "rinv names (n # ns) s'"
  using assms(1)
proof cases
  case (round t)
  let ?c = "names (test_client n t)"
  let ?u = "r_sys s"
  have l: "lstep (t_lock ?u) (goto (t_lock ?u) ?c t (AcqLoop lock_a))" using round(4) by (rule begin_acquire)
  have "(\<lambda>c t'. if in_crit (goto (t_lock ?u) ?c t (AcqLoop lock_a)) c t' then t_at ?u c t' else Before) = t_at ?u"
    using assms(2) round(4) by (intro ext) (auto simp: rinv_def tinv_def in_crit_def goto_def)
  then have "tstep {lock_a} ?u (?u\<lparr>t_lock := goto (t_lock ?u) ?c t (AcqLoop lock_a)\<rparr>)"
    using tstep.lock [OF l, of "{lock_a}"] assms(2) round(4) by (auto simp: rinv_def tinv_def goto_def)
  from tinv_step [OF this] assms(2) round show ?thesis by (auto simp: rinv_def goto_def)
next
  case (goes u)
  have i: "tinv {lock_a} u" using tinv_step [OF goes(2)] assms(2) by (simp add: rinv_def)
  have "uses (y_pc (t_lock (r_sys s)) c t)" if "uses (y_pc (t_lock u) c t)" for c t
    using goes(2)
  proof cases
    case (lock l)
    with lstep_uses [OF lock(2), of c t] that goes(3) show ?thesis by auto
  qed (use that in simp_all)
  with goes i assms(2) show ?thesis unfolding rinv_def by simp blast
qed

lemma joined_unused:
  assumes "rinv names ns s" "ns = [] \<or> joined names (hd ns) s"
  shows "\<not> uses (y_pc (t_lock (r_sys s)) c t)"
  using assms unfolding rinv_def joined_def by (metis uses.simps(1))
lemma rinv_tester: "tester names ns s \<Longrightarrow> rinv names ns s"
proof (induction rule: tester.induct)
  case start
  have "uses (y_pc (t_lock tinit) c t) = False" for c t by (simp add: tinit_def lsys_init_def)
  then show ?case using tinv_init by (simp add: rinv_def)
next
  case (test ns s n)
  with joined_unused [OF test.IH test.hyps(2)] show ?case by (simp add: rinv_def)
qed (rule rinv_step)

text \<open>(C32) The lock tester never reports an error: while \<^verbatim>\<open>main\<close> runs the concurrent tests one after the other, in
  every interleaving of their threads with each other, with the server and with revoke and retry messages, a
  thread that comes to \<^verbatim>\<open>check_grant\<close> or \<^verbatim>\<open>check_release\<close> passes the check; and when the threads of a test have
  been joined, all counters are back at zero.\<close>

theorem tester_passes:
  assumes "tester names ns s"
  shows "(y_pc (t_lock (r_sys s)) c t = Crit lid \<longrightarrow>
      (t_at (r_sys s) c t = Before \<longrightarrow> check_grant (t_ct (r_sys s)) lid \<noteq> None) \<and>
      (t_at (r_sys s) c t = Between \<longrightarrow> check_release (t_ct (r_sys s)) lid \<noteq> None)) \<and>
    (ns \<noteq> [] \<and> joined names (hd ns) s \<longrightarrow> t_ct (r_sys s) = (\<lambda>_. 0))"
proof -
  note inv = rinv_tester [OF assms]
  have "t_ct (r_sys s) = (\<lambda>_. 0)" if j: "ns \<noteq> []" "joined names (hd ns) s"
  proof -
    note joined_unused [OF inv disjI2 [OF j(2)]]
    then have "\<not> between (r_sys s) x" for x unfolding between_def by (metis uses.simps(9))
    then show ?thesis using inv by (simp add: rinv_def tinv_def fun_eq_iff)
  qed
  moreover have "inj_on low {lock_a}" by simp
  ultimately show ?thesis using checks_pass [of "{lock_a}" "r_sys s"] inv by (auto simp: rinv_def)
qed

text \<open>A thread of the second test that has taken the lock.\<close>

lemma tester_start: "\<exists>s. tester (\<lambda>_. ''a'') [2] s \<and> y_pc (t_lock (r_sys s)) ''a'' 0 = Crit lock_a \<and> t_at (r_sys s) ''a'' 0 = Before"
proof -
  let ?p = "\<lambda>p. y_pc (goto lsys_init ''a'' 0 p)"
  let ?s = "\<lambda>l left. \<lparr>r_sys = tinit\<lparr>t_lock := l\<rparr>, r_left = left\<rparr>"
  let ?s1 = "goto lsys_init ''a'' 0 (AcqLoop lock_a)"
  from crit_path_for [of lock_a] obtain s2 s3 s4 where l: "lstep ?s1 s2" "lstep s2 s3" "lstep s3 s4"
    and p: "y_pc s2 = ?p (AcqCall lock_a)" "y_pc s3 = ?p (AcqRet lock_a OK)" "y_pc s4 = ?p (Crit lock_a)" by blast
  let ?left = "\<lambda>t. if t < test_threads 2 then test_rounds 2 else 0"
  have t: "tester (\<lambda>_. ''a'') [2] (?s b left)" if "tester (\<lambda>_. ''a'') [2] (?s a left)" "lstep a b" "y_pc a = ?p q" "y_pc b = ?p r"
    "\<forall>lid. q \<noteq> Crit lid" "q \<noteq> Idle" "\<forall>lid. r = Crit lid \<longrightarrow> lid = lock_a" for a b left q r
  proof (rule tester.step [OF that(1)])
    have "tinit\<lparr>t_lock := a\<rparr>\<lparr>t_lock := b, t_at := (\<lambda>c t. if in_crit b c t then t_at (tinit\<lparr>t_lock := a\<rparr>) c t else Before)\<rparr> =
        tinit\<lparr>t_lock := b\<rparr>" by (simp add: tinit_def if_distrib cong: if_cong)
    moreover have "\<forall>c t lid. y_pc b c t = Crit lid \<longrightarrow> lid \<in> {lock_a}" "\<forall>c t lid. y_pc a c t \<noteq> Crit lid"
      using that by (auto simp: goto_def lsys_init_def)
    ultimately have "tstep {lock_a} (tinit\<lparr>t_lock := a\<rparr>) (tinit\<lparr>t_lock := b\<rparr>)"
      using tstep.lock [of "tinit\<lparr>t_lock := a\<rparr>" b "{lock_a}"] that(2) by simp
    then show "rstep (\<lambda>_. ''a'') 2 (?s a left) (?s b left)"
      using rstep.goes [of "?s a left" "tinit\<lparr>t_lock := b\<rparr>" "\<lambda>_. ''a''" 2] that(3,4,6) by (simp add: goto_def lsys_init_def)
  qed
  have "tester (\<lambda>_. ''a'') [2] (?s lsys_init ?left)"
    using tester.test [OF tester.start, where n = 2 and names = "\<lambda>_. ''a''"] by (simp add: tinit_def)
  moreover have "rstep (\<lambda>_. ''a'') 2 (?s lsys_init ?left) (?s ?s1 (?left(0 := ?left 0 - 1)))"
    using rstep.round [of 0 2 "?s lsys_init ?left" "\<lambda>_. ''a''"] by (simp add: test_threads_def test_rounds_def lsys_init_def)
  ultimately have "tester (\<lambda>_. ''a'') [2] (?s ?s1 (?left(0 := ?left 0 - 1)))" by (rule tester.step)
  from t [OF t [OF t [OF this l(1) _ p(1)] l(2) p(1,2)] l(3) p(2,3)]
  have "tester (\<lambda>_. ''a'') [2] (?s s4 (?left(0 := ?left 0 - 1)))" by simp
  then show ?thesis using p(3) by (intro exI) (auto simp: tinit_def goto_def)
qed

theorem tester_passes_witness:
  "\<exists>s. tester (\<lambda>_. ''a'') [2] s \<and> y_pc (t_lock (r_sys s)) ''a'' 0 = Crit lock_a \<and> check_grant (t_ct (r_sys s)) lock_a \<noteq> None"
proof -
  from tester_start obtain s where s: "tester (\<lambda>_. ''a'') [2] s" "y_pc (t_lock (r_sys s)) ''a'' 0 = Crit lock_a"
    "t_at (r_sys s) ''a'' 0 = Before" by blast
  from tester_passes [OF s(1), of "''a''" 0 lock_a] s show ?thesis by blast
qed

section \<open>The first test\<close>

text \<open>\<^verbatim>\<open>test1\<close> runs before the others, in one thread of the client \<open>me\<close>: no other client competes, so no message comes
  from the server, and \<open>None\<close> is a thread that would wait for one or exits. It may hold two locks at once.\<close>

datatype lock_call = Acquire lockid | Release lockid | Check_grant lockid | Check_release lockid

type_synonym alone = "server_locks \<times> client_locks \<times> counts"

definition acquire_alone :: "string \<Rightarrow> u64 \<Rightarrow> alone \<Rightarrow> lockid \<Rightarrow> alone option" where
  "acquire_alone me self s lid =
     (case s of (srv, cli, ct) \<Rightarrow>
      case acq_switch self (ccl_at cli lid) of (n, l) \<Rightarrow>
      (case n of
         Got \<Rightarrow> Some (srv, cli(lid \<mapsto> l), ct)
       | CallServer \<Rightarrow>
           (case lsc_acquire srv lid me of (ret, revoke, srv') \<Rightarrow>
            case acq_answer self ret l of (got, l') \<Rightarrow> if got then Some (srv', cli(lid \<mapsto> l'), ct) else None)
       | _ \<Rightarrow> None))"

definition release_alone :: "string \<Rightarrow> alone \<Rightarrow> lockid \<Rightarrow> alone option" where
  "release_alone me s lid =
     (case s of (srv, cli, ct) \<Rightarrow>
      case rel_begin cli lid of
        None \<Rightarrow> Some s
      | Some (flag, m) \<Rightarrow>
          if flag
          then (case lsc_release srv lid me of
                  Inl _ \<Rightarrow> None
                | Inr (ret, retry, srv') \<Rightarrow> Some (srv', m(lid \<mapsto> rel_end (ccl_at m lid)), ct))
          else Some (srv, m, ct))"

fun call_alone :: "string \<Rightarrow> u64 \<Rightarrow> alone \<Rightarrow> lock_call \<Rightarrow> alone option" where
  "call_alone me self s (Acquire lid) = acquire_alone me self s lid"
| "call_alone me self s (Release lid) = release_alone me s lid"
| "call_alone me self (srv, cli, ct) (Check_grant lid) = map_option (\<lambda>ct. (srv, cli, ct)) (check_grant ct lid)"
| "call_alone me self (srv, cli, ct) (Check_release lid) = map_option (\<lambda>ct. (srv, cli, ct)) (check_release ct lid)"

fun calls_alone :: "string \<Rightarrow> u64 \<Rightarrow> lock_call list \<Rightarrow> alone \<Rightarrow> alone option" where
  "calls_alone me self [] s = Some s"
| "calls_alone me self (x # xs) s = Option.bind (call_alone me self s x) (calls_alone me self xs)"

definition test1 :: "lock_call list" where
  "test1 =
     [Acquire lock_a, Check_grant lock_a, Release lock_a, Check_release lock_a,
      Acquire lock_a, Check_grant lock_a, Release lock_a, Check_release lock_a,
      Acquire lock_a, Check_grant lock_a, Acquire lock_b, Check_grant lock_b,
      Release lock_b, Check_release lock_b, Release lock_a, Check_release lock_a]"

text \<open>The first test passes, whatever the client is called: its calls return and its checks hold; at the end the counters
  are zero, the client keeps both locks cached and free, and the server still counts them as the client's.\<close>

theorem test1_passes:
  "\<exists>srv cli. calls_alone me self test1 (Map.empty, Map.empty, (\<lambda>_. 0)) = Some (srv, cli, (\<lambda>_. 0)) \<and>
    (\<forall>lid \<in> {lock_a, lock_b}. cc_state (ccl_at cli lid) = CFREE \<and> lk_state (lock_at srv lid) = LOCKED \<and> lk_client (lock_at srv lid) = me)"
proof -
  let ?k = "\<lparr>lk_client = me, lk_state = LOCKED, lk_queue = []\<rparr>"
  have d: "low lock_a \<noteq> low lock_b" "lock_a \<noteq> lock_b" by (simp_all add: low_def lock_a_def lock_b_def)
  have z: "(\<lambda>_. 0 :: int)(low lock_a := 0) = (\<lambda>_. 0)" "(\<lambda>_. 0 :: int)(low lock_b := 0) = (\<lambda>_. 0)" by auto
  note defs = acquire_alone_def release_alone_def acq_switch_def acq_answer_def ccl_at_def client_lock_new_def lsc_acquire_def
    acquire_lock_def lock_at_def free_lock_def rel_begin_def rel_switch_def check_grant_def check_release_def
  show ?thesis using d by (simp add: test1_def defs z fun_upd_twist)
qed

end
