(* ===== verification/Marshall.thy ===== *)
theory Marshall
  imports Prelude
begin

text \<open>
  The wire format of the RPC library: the classes \<^verbatim>\<open>marshall\<close> and \<^verbatim>\<open>unmarshall\<close> of
  \<^verbatim>\<open>rpc/marshall.h\<close>, whose out-of-line operations are in \<^verbatim>\<open>rpc/rpc.cc\<close>.

  A \<^verbatim>\<open>marshall\<close> buffer is a list of cells as long as its capacity; a cell that \<^verbatim>\<open>malloc\<close> or
  \<^verbatim>\<open>realloc\<close> returned and nothing wrote yet is \<open>None\<close>. An \<^verbatim>\<open>unmarshall\<close> buffer holds the bytes
  that arrived. The locale \<open>codec\<close> is the contract between an inserter \<^verbatim>\<open>operator<<\<close> and its
  extractor \<^verbatim>\<open>operator>>\<close>; it is interpreted for every scalar type, for strings, and, through
  the theorems on \<^verbatim>\<open>std::vector\<close> and \<^verbatim>\<open>std::map\<close>, for containers of any codec.
\<close>

section \<open>Headers and sizes\<close>

record req_header =
  xid :: u32
  proc :: u32
  clt_nonce :: u32
  srv_nonce :: u32
  xid_rep :: u32

record reply_header =
  rh_xid :: u32
  rh_ret :: u32

definition sizeof_req_header :: nat where "sizeof_req_header = 20"

definition sizeof_reply_header :: nat where "sizeof_reply_header = 8"

definition sizeof_rpc_sz_t :: nat where "sizeof_rpc_sz_t = 4"

definition DEFAULT_RPC_SZ :: nat where "DEFAULT_RPC_SZ = 1024"

definition static_max :: "nat \<Rightarrow> nat \<Rightarrow> nat" where
  "static_max a b = (if a > b then a else b)"

definition RPC_HEADER_SZ :: nat where
  "RPC_HEADER_SZ = static_max sizeof_req_header sizeof_reply_header + sizeof_rpc_sz_t"

section \<open>The class marshall\<close>

type_synonym cell = "byte option"

record marshall =
  m_buf :: "cell list option"
  m_capa :: nat
  m_ind :: nat

definition marshall_new :: marshall where
  "marshall_new =
     \<lparr>m_buf = Some (replicate DEFAULT_RPC_SZ None), m_capa = DEFAULT_RPC_SZ, m_ind = RPC_HEADER_SZ\<rparr>"

definition realloc_cells :: "cell list \<Rightarrow> nat \<Rightarrow> cell list" where
  "realloc_cells b n = take n b @ replicate (n - length b) None"

text \<open>\<^verbatim>\<open>_buf[_ind++] = x\<close>.\<close>

definition store_byte :: "marshall \<Rightarrow> byte \<Rightarrow> marshall res" where
  "store_byte m x =
     (case m_buf m of
        None \<Rightarrow> Inl NullDeref
      | Some b \<Rightarrow>
          if m_ind m < length b
          then Inr (m\<lparr>m_buf := Some (b[m_ind m := Some x]), m_ind := m_ind m + 1\<rparr>)
          else Inl OutOfBounds)"

definition rawbyte :: "marshall \<Rightarrow> byte \<Rightarrow> marshall res" where
  "rawbyte m x =
     (if m_ind m \<ge> m_capa m
      then if 2 * m_capa m > INT_MAX then Inl SignedOverflow
           else case m_buf m of
                  None \<Rightarrow> Inl Abort
                | Some b \<Rightarrow>
                    store_byte (m\<lparr>m_capa := 2 * m_capa m,
                                  m_buf := Some (realloc_cells b (2 * m_capa m))\<rparr>) x
      else store_byte m x)"

text \<open>\<^verbatim>\<open>memcpy(_buf + _ind, p, n); _ind += n\<close>.\<close>

definition store_bytes :: "marshall \<Rightarrow> byte list \<Rightarrow> marshall res" where
  "store_bytes m p =
     (case m_buf m of
        None \<Rightarrow> Inl NullDeref
      | Some b \<Rightarrow>
          if m_ind m + length p \<le> length b
          then Inr (m\<lparr>m_buf := Some (take (m_ind m) b @ map Some p @ drop (m_ind m + length p) b),
                      m_ind := m_ind m + length p\<rparr>)
          else Inl OutOfBounds)"

definition rawbytes :: "marshall \<Rightarrow> byte list \<Rightarrow> marshall res" where
  "rawbytes m p =
     (let n = length p in
      if m_ind m + n > INT_MAX then Inl SignedOverflow
      else if m_ind m + n > m_capa m
      then let c = (if m_capa m > n then 2 * m_capa m else m_capa m + n) in
           if c > INT_MAX then Inl SignedOverflow
           else case m_buf m of
                  None \<Rightarrow> Inl Abort
                | Some b \<Rightarrow>
                    store_bytes (m\<lparr>m_capa := c, m_buf := Some (realloc_cells b c)\<rparr>) p
      else store_bytes m p)"

definition get_content :: "marshall \<Rightarrow> cell list res" where
  "get_content m =
     (case m_buf m of
        None \<Rightarrow> Inl NullDeref
      | Some b \<Rightarrow> Inr (take (m_ind m - RPC_HEADER_SZ) (drop RPC_HEADER_SZ b)))"

definition take_buf :: "marshall \<Rightarrow> cell list option \<times> nat \<times> marshall" where
  "take_buf m = (m_buf m, m_ind m, m\<lparr>m_buf := None, m_ind := 0\<rparr>)"

definition pack :: "marshall \<Rightarrow> u32 \<Rightarrow> marshall res" where
  "pack m x =
     rbind (rawbyte m (ucast (signed_drop_bit 24 x AND 255))) (\<lambda>m.
     rbind (rawbyte m (ucast (signed_drop_bit 16 x AND 255))) (\<lambda>m.
     rbind (rawbyte m (ucast (signed_drop_bit 8 x AND 255))) (\<lambda>m.
     rawbyte m (ucast (x AND 255)))))"

definition pack_req_header :: "marshall \<Rightarrow> req_header \<Rightarrow> marshall res" where
  "pack_req_header m h =
     (let saved_sz = m_ind m in
      rbind (pack (m\<lparr>m_ind := sizeof_rpc_sz_t\<rparr>) (xid h)) (\<lambda>m.
      rbind (pack m (proc h)) (\<lambda>m.
      rbind (pack m (clt_nonce h)) (\<lambda>m.
      rbind (pack m (srv_nonce h)) (\<lambda>m.
      rbind (pack m (xid_rep h)) (\<lambda>m.
      Inr (m\<lparr>m_ind := saved_sz\<rparr>)))))))"

definition pack_reply_header :: "marshall \<Rightarrow> reply_header \<Rightarrow> marshall res" where
  "pack_reply_header m h =
     (let saved_sz = m_ind m in
      rbind (pack (m\<lparr>m_ind := sizeof_rpc_sz_t\<rparr>) (rh_xid h)) (\<lambda>m.
      rbind (pack m (rh_ret h)) (\<lambda>m.
      Inr (m\<lparr>m_ind := saved_sz\<rparr>))))"

subsection \<open>The inserters\<close>

definition put_bool :: "marshall \<Rightarrow> bool \<Rightarrow> marshall res" where
  "put_bool m x = rawbyte m (if x then 1 else 0)"

definition put_uchar :: "marshall \<Rightarrow> byte \<Rightarrow> marshall res" where
  "put_uchar m x = rawbyte m x"

definition put_char :: "marshall \<Rightarrow> byte \<Rightarrow> marshall res" where
  "put_char m x = put_uchar m x"

definition put_ushort :: "marshall \<Rightarrow> 16 word \<Rightarrow> marshall res" where
  "put_ushort m x =
     (let i = (ucast x :: u32) in
      rbind (rawbyte m (ucast (signed_drop_bit 8 i AND 255))) (\<lambda>m.
      rawbyte m (ucast (i AND 255))))"

definition put_short :: "marshall \<Rightarrow> 16 word \<Rightarrow> marshall res" where
  "put_short m x = put_ushort m x"

definition put_uint :: "marshall \<Rightarrow> u32 \<Rightarrow> marshall res" where
  "put_uint m x =
     rbind (rawbyte m (ucast (drop_bit 24 x AND 255))) (\<lambda>m.
     rbind (rawbyte m (ucast (drop_bit 16 x AND 255))) (\<lambda>m.
     rbind (rawbyte m (ucast (drop_bit 8 x AND 255))) (\<lambda>m.
     rawbyte m (ucast (x AND 255)))))"

definition put_int :: "marshall \<Rightarrow> u32 \<Rightarrow> marshall res" where
  "put_int m x = put_uint m x"

definition put_string :: "marshall \<Rightarrow> byte list \<Rightarrow> marshall res" where
  "put_string m s = rbind (put_uint m (of_nat (length s))) (\<lambda>m. rawbytes m s)"

definition put_ull :: "marshall \<Rightarrow> u64 \<Rightarrow> marshall res" where
  "put_ull m x = rbind (put_uint m (ucast (drop_bit 32 x))) (\<lambda>m. put_uint m (ucast x))"

definition put_vector :: "(marshall \<Rightarrow> 'a \<Rightarrow> marshall res) \<Rightarrow> marshall \<Rightarrow> 'a list \<Rightarrow> marshall res" where
  "put_vector put m v = rbind (put_uint m (of_nat (length v))) (\<lambda>m. rfold put m v)"

text \<open>A \<^verbatim>\<open>std::map\<close> is iterated in the order of its keys; the inserter takes that enumeration.\<close>

definition put_map ::
  "(marshall \<Rightarrow> 'a \<Rightarrow> marshall res) \<Rightarrow> (marshall \<Rightarrow> 'b \<Rightarrow> marshall res) \<Rightarrow>
   marshall \<Rightarrow> ('a \<times> 'b) list \<Rightarrow> marshall res" where
  "put_map puta putb m d =
     rbind (put_uint m (of_nat (length d)))
       (\<lambda>m. rfold (\<lambda>m (a, b). rbind (puta m a) (\<lambda>m. putb m b)) m d)"

section \<open>The class unmarshall\<close>

record unmarshall =
  u_buf :: "byte list option"
  u_sz :: nat
  u_ind :: nat
  u_ok :: bool

definition unmarshall_new :: unmarshall where
  "unmarshall_new = \<lparr>u_buf = None, u_sz = 0, u_ind = 0, u_ok = False\<rparr>"

definition unmarshall_of :: "byte list \<Rightarrow> unmarshall" where
  "unmarshall_of b = \<lparr>u_buf = Some b, u_sz = length b, u_ind = 0, u_ok = True\<rparr>"

text \<open>\<^verbatim>\<open>take_content\<close> leaves the header bytes of the reallocated buffer as they are; \<open>junk\<close> stands
  for them.\<close>

definition take_content :: "byte list \<Rightarrow> unmarshall \<Rightarrow> byte list \<Rightarrow> unmarshall" where
  "take_content junk u s =
     u\<lparr>u_sz := length s + RPC_HEADER_SZ, u_buf := Some (take RPC_HEADER_SZ junk @ s),
       u_ind := RPC_HEADER_SZ, u_ok := True\<rparr>"

definition u_take_buf :: "unmarshall \<Rightarrow> byte list option \<times> nat \<times> unmarshall" where
  "u_take_buf u = (u_buf u, u_sz u, u\<lparr>u_sz := 0, u_ind := 0, u_buf := None\<rparr>)"

definition take_in :: "unmarshall \<Rightarrow> unmarshall \<Rightarrow> unmarshall \<times> unmarshall" where
  "take_in u another =
     (let (b, s, another') = u_take_buf another in
      (u\<lparr>u_buf := b, u_sz := s, u_ind := RPC_HEADER_SZ, u_ok := (s \<ge> RPC_HEADER_SZ)\<rparr>, another'))"

definition okdone :: "unmarshall \<Rightarrow> bool" where
  "okdone u \<longleftrightarrow> u_ok u \<and> u_ind u = u_sz u"

text \<open>The extractor reads a \<^verbatim>\<open>char\<close>, which is signed, and returns it as an \<^verbatim>\<open>unsigned int\<close>.\<close>

definition u_rawbyte :: "unmarshall \<Rightarrow> (u32 \<times> unmarshall) res" where
  "u_rawbyte u =
     (if u_ind u \<ge> u_sz u then Inr (0, u\<lparr>u_ok := False\<rparr>)
      else case u_buf u of
             None \<Rightarrow> Inl NullDeref
           | Some b \<Rightarrow>
               if u_ind u < length b
               then Inr (scast (b ! u_ind u), u\<lparr>u_ind := u_ind u + 1\<rparr>)
               else Inl OutOfBounds)"

text \<open>\<^verbatim>\<open>_ind + n\<close> is computed in \<^verbatim>\<open>unsigned int\<close>, so the test wraps around; the constructor of
  \<^verbatim>\<open>std::string\<close> then reads \<open>n\<close> bytes.\<close>

definition u_rawbytes :: "unmarshall \<Rightarrow> byte list \<Rightarrow> u32 \<Rightarrow> (byte list \<times> unmarshall) res" where
  "u_rawbytes u ss n =
     (if of_nat (u_ind u) + n > (of_nat (u_sz u) :: u32) then Inr (ss, u\<lparr>u_ok := False\<rparr>)
      else case u_buf u of
             None \<Rightarrow> if n = 0 then Inr ([], u) else Inl NullDeref
           | Some b \<Rightarrow>
               if u_ind u + unat n \<le> length b
               then Inr (take (unat n) (drop (u_ind u) b), u\<lparr>u_ind := u_ind u + unat n\<rparr>)
               else Inl OutOfBounds)"

definition unpack :: "unmarshall \<Rightarrow> (u32 \<times> unmarshall) res" where
  "unpack u =
     rbind (u_rawbyte u) (\<lambda>(a, u).
     rbind (u_rawbyte u) (\<lambda>(b, u).
     rbind (u_rawbyte u) (\<lambda>(c, u).
     rbind (u_rawbyte u) (\<lambda>(d, u).
     Inr (push_bit 24 (a AND 255) OR push_bit 16 (b AND 255) OR push_bit 8 (c AND 255)
          OR (d AND 255), u)))))"

definition unpack_req_header :: "unmarshall \<Rightarrow> (req_header \<times> unmarshall) res" where
  "unpack_req_header u =
     rbind (unpack (u\<lparr>u_ind := sizeof_rpc_sz_t\<rparr>)) (\<lambda>(x, u).
     rbind (unpack u) (\<lambda>(p, u).
     rbind (unpack u) (\<lambda>(c, u).
     rbind (unpack u) (\<lambda>(s, u).
     rbind (unpack u) (\<lambda>(r, u).
     Inr (\<lparr>xid = x, proc = p, clt_nonce = c, srv_nonce = s, xid_rep = r\<rparr>,
          u\<lparr>u_ind := RPC_HEADER_SZ\<rparr>))))))"

definition unpack_reply_header :: "unmarshall \<Rightarrow> (reply_header \<times> unmarshall) res" where
  "unpack_reply_header u =
     rbind (unpack (u\<lparr>u_ind := sizeof_rpc_sz_t\<rparr>)) (\<lambda>(x, u).
     rbind (unpack u) (\<lambda>(r, u).
     Inr (\<lparr>rh_xid = x, rh_ret = r\<rparr>, u\<lparr>u_ind := RPC_HEADER_SZ\<rparr>)))"

subsection \<open>The extractors\<close>

definition get_bool :: "unmarshall \<Rightarrow> (bool \<times> unmarshall) res" where
  "get_bool u = rbind (u_rawbyte u) (\<lambda>(c, u). Inr (c \<noteq> 0, u))"

definition get_uchar :: "unmarshall \<Rightarrow> (byte \<times> unmarshall) res" where
  "get_uchar u = rbind (u_rawbyte u) (\<lambda>(c, u). Inr (ucast c, u))"

definition get_char :: "unmarshall \<Rightarrow> (byte \<times> unmarshall) res" where
  "get_char u = rbind (u_rawbyte u) (\<lambda>(c, u). Inr (ucast c, u))"

definition get_ushort :: "unmarshall \<Rightarrow> (16 word \<times> unmarshall) res" where
  "get_ushort u =
     rbind (u_rawbyte u) (\<lambda>(a, u).
     rbind (u_rawbyte u) (\<lambda>(b, u).
     Inr (ucast (push_bit 8 (a AND 255)) OR ucast (b AND 255), u)))"

definition get_short :: "unmarshall \<Rightarrow> (16 word \<times> unmarshall) res" where
  "get_short u =
     rbind (u_rawbyte u) (\<lambda>(a, u).
     rbind (u_rawbyte u) (\<lambda>(b, u).
     Inr (ucast (push_bit 8 (a AND 255)) OR ucast (b AND 255), u)))"

definition get_uint :: "unmarshall \<Rightarrow> (u32 \<times> unmarshall) res" where
  "get_uint u =
     rbind (u_rawbyte u) (\<lambda>(a, u).
     rbind (u_rawbyte u) (\<lambda>(b, u).
     rbind (u_rawbyte u) (\<lambda>(c, u).
     rbind (u_rawbyte u) (\<lambda>(d, u).
     Inr (push_bit 24 (a AND 255) OR push_bit 16 (b AND 255) OR push_bit 8 (c AND 255)
          OR (d AND 255), u)))))"

definition get_int :: "unmarshall \<Rightarrow> (u32 \<times> unmarshall) res" where
  "get_int u =
     rbind (u_rawbyte u) (\<lambda>(a, u).
     rbind (u_rawbyte u) (\<lambda>(b, u).
     rbind (u_rawbyte u) (\<lambda>(c, u).
     rbind (u_rawbyte u) (\<lambda>(d, u).
     Inr (push_bit 24 (a AND 255) OR push_bit 16 (b AND 255) OR push_bit 8 (c AND 255)
          OR (d AND 255), u)))))"

definition get_ull :: "unmarshall \<Rightarrow> (u64 \<times> unmarshall) res" where
  "get_ull u =
     rbind (get_uint u) (\<lambda>(h, u).
     rbind (get_uint u) (\<lambda>(l, u).
     Inr (ucast l OR push_bit 32 (ucast h), u)))"

text \<open>The string argument keeps its old value when the extraction fails; \<open>s\<close> is that value.\<close>

definition get_string_into :: "byte list \<Rightarrow> unmarshall \<Rightarrow> (byte list \<times> unmarshall) res" where
  "get_string_into s u =
     rbind (get_uint u) (\<lambda>(sz, u). if u_ok u then u_rawbytes u s sz else Inr (s, u))"

abbreviation get_string :: "unmarshall \<Rightarrow> (byte list \<times> unmarshall) res" where
  "get_string \<equiv> get_string_into []"

fun get_elems ::
  "(unmarshall \<Rightarrow> ('a \<times> unmarshall) res) \<Rightarrow> nat \<Rightarrow> 'a list \<Rightarrow> unmarshall \<Rightarrow>
   ('a list \<times> unmarshall) res" where
  "get_elems get 0 v u = Inr (v, u)"
| "get_elems get (Suc n) v u = rbind (get u) (\<lambda>(z, u). get_elems get n (v @ [z]) u)"

definition get_vector_into ::
  "(unmarshall \<Rightarrow> ('a \<times> unmarshall) res) \<Rightarrow> 'a list \<Rightarrow> unmarshall \<Rightarrow>
   ('a list \<times> unmarshall) res" where
  "get_vector_into get v u = rbind (get_uint u) (\<lambda>(n, u). get_elems get (unat n) v u)"

fun get_pairs ::
  "(unmarshall \<Rightarrow> ('a \<times> unmarshall) res) \<Rightarrow> (unmarshall \<Rightarrow> ('b \<times> unmarshall) res) \<Rightarrow> nat \<Rightarrow>
   ('a \<rightharpoonup> 'b) \<Rightarrow> unmarshall \<Rightarrow> (('a \<rightharpoonup> 'b) \<times> unmarshall) res" where
  "get_pairs geta getb 0 d u = Inr (d, u)"
| "get_pairs geta getb (Suc n) d u =
     rbind (geta u) (\<lambda>(a, u). rbind (getb u) (\<lambda>(b, u). get_pairs geta getb n (d(a \<mapsto> b)) u))"

definition get_map ::
  "(unmarshall \<Rightarrow> ('a \<times> unmarshall) res) \<Rightarrow> (unmarshall \<Rightarrow> ('b \<times> unmarshall) res) \<Rightarrow>
   unmarshall \<Rightarrow> (('a \<rightharpoonup> 'b) \<times> unmarshall) res" where
  "get_map geta getb u =
     rbind (get_uint u) (\<lambda>(n, u). get_pairs geta getb (unat n) Map.empty u)"

section \<open>Well-formed buffers and what they hold\<close>

definition mwf :: "marshall \<Rightarrow> bool" where
  "mwf m \<longleftrightarrow>
     (case m_buf m of None \<Rightarrow> False | Some b \<Rightarrow> length b = m_capa m) \<and>
     RPC_HEADER_SZ \<le> m_ind m \<and> m_ind m \<le> m_capa m \<and>
     DEFAULT_RPC_SZ \<le> m_capa m \<and> m_capa m \<le> max DEFAULT_RPC_SZ (2 * m_ind m)"

definition cells :: "marshall \<Rightarrow> cell list" where
  "cells m = take (m_ind m) (the (m_buf m))"

text \<open>\<open>m'\<close> is \<open>m\<close> with the bytes \<open>bs\<close> appended.\<close>

definition appended :: "marshall \<Rightarrow> byte list \<Rightarrow> marshall \<Rightarrow> bool" where
  "appended m bs m' \<longleftrightarrow> mwf m' \<and> cells m' = cells m @ map Some bs"

text \<open>An inserter keeps to the bound below which \<^verbatim>\<open>int\<close> capacities cannot overflow.\<close>

definition MSG_MAX :: nat where "MSG_MAX = 2 ^ 30"

definition uwf :: "unmarshall \<Rightarrow> bool" where
  "uwf u \<longleftrightarrow>
     (case u_buf u of None \<Rightarrow> u_sz u = 0 | Some b \<Rightarrow> length b = u_sz u) \<and>
     u_ind u \<le> u_sz u \<and> u_sz u \<le> INT_MAX"

definition ready :: "unmarshall \<Rightarrow> bool" where
  "ready u \<longleftrightarrow> uwf u \<and> u_ok u"

definition adv :: "nat \<Rightarrow> unmarshall \<Rightarrow> unmarshall" where
  "adv n u = u\<lparr>u_ind := u_ind u + n\<rparr>"

definition unread :: "unmarshall \<Rightarrow> byte list" where
  "unread u = (case u_buf u of None \<Rightarrow> [] | Some b \<Rightarrow> drop (u_ind u) b)"

text \<open>The bytes the receiver sees for a message: the channel overwrites the first four with the
  message's size and transmits every cell, also one that was never written.\<close>

definition delivered :: "marshall \<Rightarrow> byte list \<Rightarrow> bool" where
  "delivered m b \<longleftrightarrow>
     length b = m_ind m \<and>
     (\<forall>i < m_ind m. sizeof_rpc_sz_t \<le> i \<longrightarrow>
        (case cells m ! i of None \<Rightarrow> True | Some x \<Rightarrow> b ! i = x))"

subsection \<open>Reference encodings\<close>

definition enc_u16 :: "16 word \<Rightarrow> byte list" where
  "enc_u16 x = [ucast (drop_bit 8 x), ucast x]"

definition enc_u32 :: "u32 \<Rightarrow> byte list" where
  "enc_u32 x = [ucast (drop_bit 24 x), ucast (drop_bit 16 x), ucast (drop_bit 8 x), ucast x]"

definition enc_u64 :: "u64 \<Rightarrow> byte list" where
  "enc_u64 x = enc_u32 (ucast (drop_bit 32 x)) @ enc_u32 (ucast x)"

definition enc_bool :: "bool \<Rightarrow> byte list" where
  "enc_bool x = [if x then 1 else 0]"

definition enc_byte :: "byte \<Rightarrow> byte list" where
  "enc_byte x = [x]"

definition enc_string :: "byte list \<Rightarrow> byte list" where
  "enc_string s = enc_u32 (of_nat (length s)) @ s"

definition enc_req_header :: "req_header \<Rightarrow> byte list" where
  "enc_req_header h =
     enc_u32 (xid h) @ enc_u32 (proc h) @ enc_u32 (clt_nonce h) @ enc_u32 (srv_nonce h)
     @ enc_u32 (xid_rep h)"

definition enc_reply_header :: "reply_header \<Rightarrow> byte list" where
  "enc_reply_header h = enc_u32 (rh_xid h) @ enc_u32 (rh_ret h)"

definition enc_map :: "('a \<Rightarrow> byte list) \<Rightarrow> ('b \<Rightarrow> byte list) \<Rightarrow> ('a \<times> 'b) list \<Rightarrow> byte list" where
  "enc_map enca encb d = enc_u32 (of_nat (length d)) @ concat (map (\<lambda>(a, b). enca a @ encb b) d)"

definition enc_vector :: "('a \<Rightarrow> byte list) \<Rightarrow> 'a list \<Rightarrow> byte list" where
  "enc_vector enc v = enc_u32 (of_nat (length v)) @ concat (map enc v)"

section \<open>The buffer never leaves its bounds\<close>

named_theorems sizes \<open>the constants of the wire format\<close>

lemma size_consts [sizes]:
  "RPC_HEADER_SZ = 24" "DEFAULT_RPC_SZ = 1024" "INT_MAX = 2147483647" "MSG_MAX = 1073741824"
  "sizeof_rpc_sz_t = 4"
  by (simp_all add: RPC_HEADER_SZ_def static_max_def sizeof_req_header_def
      sizeof_reply_header_def sizeof_rpc_sz_t_def DEFAULT_RPC_SZ_def INT_MAX_def MSG_MAX_def)

lemma mwf_new [simp]: "mwf marshall_new"
  by (simp add: mwf_def marshall_new_def sizes)

lemma cells_new [simp]: "cells marshall_new = replicate 24 None"
  by (simp add: cells_def marshall_new_def sizes)

lemma mwf_cases:
  assumes "mwf m"
  obtains b where "m_buf m = Some b" "length b = m_capa m" "24 \<le> m_ind m" "m_ind m \<le> m_capa m"
    "1024 \<le> m_capa m" "m_capa m \<le> max 1024 (2 * m_ind m)"
  using assms by (auto simp: mwf_def sizes split: option.splits)

lemma length_cells: "mwf m \<Longrightarrow> length (cells m) = m_ind m"
  by (auto simp: cells_def elim!: mwf_cases)

lemma appended_refl: "mwf m \<Longrightarrow> appended m [] m"
  by (simp add: appended_def)

lemma appended_trans: "appended m as m1 \<Longrightarrow> appended m1 bs m2 \<Longrightarrow> appended m (as @ bs) m2"
  by (simp add: appended_def)

lemma appended_mwf: "appended m bs m' \<Longrightarrow> mwf m'"
  by (simp add: appended_def)

lemma appended_ind: "mwf m \<Longrightarrow> appended m bs m' \<Longrightarrow> m_ind m' = m_ind m + length bs"
  using length_cells [of m] length_cells [of m'] by (simp add: appended_def)

lemma length_realloc_cells [simp]: "length (realloc_cells b n) = n"
  by (simp add: realloc_cells_def)

lemma take_realloc_cells:
  "i \<le> length b \<Longrightarrow> length b \<le> n \<Longrightarrow> take i (realloc_cells b n) = take i b"
  by (simp add: realloc_cells_def)

lemma rawbyte_appends:
  assumes "mwf m" "m_ind m + 1 < MSG_MAX"
  shows "\<exists>m'. rawbyte m x = Inr m' \<and> appended m [x] m'"
  using assms
  by (elim mwf_cases)
    (auto simp: rawbyte_def store_byte_def appended_def mwf_def cells_def sizes
      take_Suc_update take_realloc_cells)

lemma rawbytes_appends:
  assumes "mwf m" "m_ind m + length p < MSG_MAX"
  shows "\<exists>m'. rawbytes m p = Inr m' \<and> appended m p m'"
  using assms
  by (elim mwf_cases)
    (auto simp: rawbytes_def store_bytes_def appended_def mwf_def cells_def sizes Let_def
      take_realloc_cells)

lemma rbind_Inr [simp]: "rbind r Inr = r"
  by (cases r) simp_all

lemma rbind_appends:
  assumes "\<exists>m1. f = Inr m1 \<and> appended m as m1"
    and "\<And>m1. appended m as m1 \<Longrightarrow> \<exists>m2. g m1 = Inr m2 \<and> appended m1 bs m2"
  shows "\<exists>m2. rbind f g = Inr m2 \<and> appended m (as @ bs) m2"
  using assms by (fastforce intro: appended_trans)

lemma rfold_rawbyte_appends:
  "mwf m \<Longrightarrow> m_ind m + length bs < MSG_MAX \<Longrightarrow> \<exists>m'. rfold rawbyte m bs = Inr m' \<and> appended m bs m'"
proof (induction bs arbitrary: m)
  case Nil
  then show ?case by (simp add: appended_refl)
next
  case (Cons x bs)
  have "\<exists>m'. rbind (rawbyte m x) (\<lambda>m. rfold rawbyte m bs) = Inr m' \<and> appended m ([x] @ bs) m'"
  proof (rule rbind_appends)
    show "\<exists>m1. rawbyte m x = Inr m1 \<and> appended m [x] m1"
      using Cons.prems by (intro rawbyte_appends) auto
    show "\<exists>m2. rfold rawbyte m1 bs = Inr m2 \<and> appended m1 bs m2" if "appended m [x] m1" for m1
      using Cons.prems that appended_ind [OF Cons.prems(1) that]
      by (intro Cons.IH) (auto dest: appended_mwf)
  qed
  then show ?case by simp
qed

text \<open>Every scalar inserter is a sequence of \<^const>\<open>rawbyte\<close> over the reference encoding.\<close>

lemma put_uint_rawbytes: "put_uint m x = rfold rawbyte m (enc_u32 x)"
  by (simp add: put_uint_def enc_u32_def byte_and_255)

lemma pack_rawbytes: "pack m x = rfold rawbyte m (enc_u32 x)"
  unfolding pack_def byte_signed_shift unfolding byte_and_255 by (simp add: enc_u32_def)

lemma put_ushort_rawbytes: "put_ushort m x = rfold rawbyte m (enc_u16 x)"
proof -
  have "ucast (signed_drop_bit 8 (ucast x :: u32) AND 255) = (ucast (drop_bit 8 x) :: byte)"
    unfolding byte_signed_shift by (rule bit_word_eqI) (auto simp: bit_simps)
  moreover have "ucast ((ucast x :: u32) AND 255) = (ucast x :: byte)"
    unfolding byte_and_255 by (rule bit_word_eqI) (auto simp: bit_simps)
  ultimately show ?thesis by (simp add: put_ushort_def enc_u16_def Let_def)
qed

lemma length_encs [simp]:
  "length (enc_u16 y) = 2" "length (enc_u32 x) = 4" "length (enc_u64 z) = 8"
  "length (enc_bool b) = 1" "length (enc_byte c) = 1" "length (enc_string s) = length s + 4"
  by (simp_all add: enc_u16_def enc_u32_def enc_u64_def enc_bool_def enc_byte_def enc_string_def)

lemma put_uint_appends:
  "mwf m \<Longrightarrow> m_ind m + 4 < MSG_MAX \<Longrightarrow> \<exists>m'. put_uint m x = Inr m' \<and> appended m (enc_u32 x) m'"
  unfolding put_uint_rawbytes by (rule rfold_rawbyte_appends) simp_all

lemma put_ull_appends:
  assumes "mwf m" "m_ind m + 8 < MSG_MAX"
  shows "\<exists>m'. put_ull m x = Inr m' \<and> appended m (enc_u64 x) m'"
  unfolding put_ull_def enc_u64_def
proof (rule rbind_appends)
  show "\<exists>m1. put_uint m (ucast (drop_bit 32 x)) = Inr m1 \<and> appended m (enc_u32 (ucast (drop_bit 32 x))) m1"
    using assms by (intro put_uint_appends) auto
  show "\<exists>m2. put_uint m1 (ucast x) = Inr m2 \<and> appended m1 (enc_u32 (ucast x)) m2"
    if "appended m (enc_u32 (ucast (drop_bit 32 x))) m1" for m1
    using assms that appended_ind [OF assms(1) that]
    by (intro put_uint_appends) (auto dest: appended_mwf)
qed

lemma put_string_appends:
  assumes "mwf m" "m_ind m + length (enc_string s) < MSG_MAX"
  shows "\<exists>m'. put_string m s = Inr m' \<and> appended m (enc_string s) m'"
  unfolding put_string_def enc_string_def
proof (rule rbind_appends)
  show "\<exists>m1. put_uint m (of_nat (length s)) = Inr m1 \<and> appended m (enc_u32 (of_nat (length s))) m1"
    using assms by (intro put_uint_appends) auto
  show "\<exists>m2. rawbytes m1 s = Inr m2 \<and> appended m1 s m2"
    if "appended m (enc_u32 (of_nat (length s))) m1" for m1
    using assms that appended_ind [OF assms(1) that]
    by (intro rawbytes_appends) (auto dest: appended_mwf)
qed

section \<open>Reading back\<close>

lemma adv_simps [simp]:
  "adv n (adv k u) = adv (k + n) u" "u_ok (adv n u) = u_ok u" "u_sz (adv n u) = u_sz u"
  "u_ind (adv n u) = u_ind u + n" "u_buf (adv n u) = u_buf u"
  by (simp_all add: adv_def add.assoc)

lemma uwf_unread_cases:
  assumes "uwf u" "unread u = c # r"
  obtains b where "u_buf u = Some b" "length b = u_sz u" "u_ind u < u_sz u" "b ! u_ind u = c"
    "u_sz u \<le> INT_MAX"
  using assms by (auto simp: uwf_def unread_def split: option.splits dest!: drop_eq_Cons_nth)

lemma unread_length: "uwf u \<Longrightarrow> length (unread u) = u_sz u - u_ind u"
  by (auto simp: uwf_def unread_def split: option.splits)

lemma uwf_adv: "uwf u \<Longrightarrow> n \<le> length (unread u) \<Longrightarrow> uwf (adv n u)"
  by (auto simp: uwf_def unread_def split: option.splits)

lemma ready_uwf: "ready u \<Longrightarrow> uwf u"
  by (simp add: ready_def)

lemma ready_adv: "ready u \<Longrightarrow> n \<le> length (unread u) \<Longrightarrow> ready (adv n u)"
  by (simp add: ready_def uwf_adv)

lemma unread_adv: "unread (adv n u) = drop n (unread u)"
  by (auto simp: unread_def add.commute split: option.splits)

lemma uwf_fail [simp]: "uwf (u\<lparr>u_ok := b\<rparr>) = uwf u"
  by (cases "u_buf u") (simp_all add: uwf_def)

lemma u_rawbyte_Cons:
  "uwf u \<Longrightarrow> unread u = c # r \<Longrightarrow> u_rawbyte u = Inr (scast c, adv 1 u)"
  by (elim uwf_unread_cases) (auto simp: u_rawbyte_def adv_def)

lemma u_rawbyte_Nil:
  "uwf u \<Longrightarrow> unread u = [] \<Longrightarrow> u_rawbyte u = Inr (0, u\<lparr>u_ok := False\<rparr>)"
  by (auto simp: u_rawbyte_def uwf_def unread_def split: option.splits)

lemma u_rawbyte_safe:
  assumes "uwf u"
  shows "\<exists>x u'. u_rawbyte u = Inr (x, u') \<and> uwf u' \<and> (u_ok u' \<longrightarrow> u_ok u)"
proof (cases "unread u")
  case Nil
  with assms show ?thesis by (simp add: u_rawbyte_Nil)
next
  case (Cons c r)
  with assms show ?thesis using uwf_adv [of u 1] by (simp add: u_rawbyte_Cons)
qed

text \<open>The \<open>k\<close>-th of several successive bytes.\<close>

lemma u_rawbyte_adv:
  assumes "uwf u" "k < length (unread u)"
  shows "u_rawbyte (adv k u) = Inr (scast (unread u ! k), adv (Suc k) u)"
proof -
  have "uwf (adv k u)" "unread (adv k u) = unread u ! k # drop (Suc k) (unread u)"
    using assms by (simp_all add: uwf_adv unread_adv Cons_nth_drop_Suc)
  from u_rawbyte_Cons [OF this] show ?thesis by simp
qed

lemma u_rawbyte4:
  assumes "uwf u" "unread u = a # b # c # d # r"
  shows "u_rawbyte u = Inr (scast a, adv 1 u)"
    "u_rawbyte (adv 1 u) = Inr (scast b, adv 2 u)"
    "u_rawbyte (adv 2 u) = Inr (scast c, adv 3 u)"
    "u_rawbyte (adv 3 u) = Inr (scast d, adv 4 u)"
  using u_rawbyte_Cons [OF assms] u_rawbyte_adv [OF assms(1), of 1]
    u_rawbyte_adv [OF assms(1), of 2] u_rawbyte_adv [OF assms(1), of 3]
  by (simp_all add: assms(2) numeral_2_eq_2 numeral_3_eq_3)

lemma get_uint_spec:
  assumes "uwf u" "unread u = enc_u32 x @ r"
  shows "get_uint u = Inr (x, adv 4 u)"
  using u_rawbyte4 [of u "ucast (drop_bit 24 x)" "ucast (drop_bit 16 x)" "ucast (drop_bit 8 x)"
      "ucast x" r] assms
  by (simp only: get_uint_def enc_u32_def append_Cons append_Nil rbind_simps prod.case
      scast_and_255 u32_of_bytes simp_thms)

lemma get_int_eq: "get_int u = get_uint u"
  by (simp only: get_int_def get_uint_def)

lemma unpack_eq: "unpack u = get_uint u"
  by (simp only: unpack_def get_uint_def)

section \<open>The contract of an inserter and its extractor\<close>

locale codec =
  fixes enc :: "'a \<Rightarrow> byte list"
    and put :: "marshall \<Rightarrow> 'a \<Rightarrow> marshall res"
    and get :: "unmarshall \<Rightarrow> ('a \<times> unmarshall) res"
  assumes enc_nonempty: "enc x \<noteq> []"
    and put_appends: "mwf m \<Longrightarrow> m_ind m + length (enc x) < MSG_MAX \<Longrightarrow>
      \<exists>m'. put m x = Inr m' \<and> appended m (enc x) m'"
    and get_reads: "ready u \<Longrightarrow> unread u = enc x @ r \<Longrightarrow> get u = Inr (x, adv (length (enc x)) u)"
begin

lemma put_after:
  assumes "mwf m" "m_ind m + length as + length (enc x) < MSG_MAX" "appended m as m1"
  shows "\<exists>m'. put m1 x = Inr m' \<and> appended m1 (enc x) m'"
  using assms appended_ind [OF assms(1,3)] by (intro put_appends) (auto dest: appended_mwf)

lemma get_then:
  assumes "ready u" "unread u = enc x @ r"
  shows "get u = Inr (x, adv (length (enc x)) u)" "ready (adv (length (enc x)) u)"
    "unread (adv (length (enc x)) u) = r"
  using get_reads [OF assms] ready_adv [OF assms(1), of "length (enc x)"] assms
  by (simp_all add: unread_adv)

lemma rfold_put_appends:
  "mwf m \<Longrightarrow> m_ind m + length (concat (map enc v)) < MSG_MAX \<Longrightarrow>
   \<exists>m'. rfold put m v = Inr m' \<and> appended m (concat (map enc v)) m'"
proof (induction v arbitrary: m)
  case Nil
  then show ?case by (simp add: appended_refl)
next
  case (Cons x v)
  have "\<exists>m'. rbind (put m x) (\<lambda>m. rfold put m v) = Inr m' \<and>
      appended m (enc x @ concat (map enc v)) m'"
  proof (rule rbind_appends)
    show "\<exists>m1. put m x = Inr m1 \<and> appended m (enc x) m1"
      using Cons.prems by (intro put_appends) auto
    show "\<exists>m2. rfold put m1 v = Inr m2 \<and> appended m1 (concat (map enc v)) m2"
      if "appended m (enc x) m1" for m1
      using Cons.prems that appended_ind [OF Cons.prems(1) that]
      by (intro Cons.IH) (auto dest: appended_mwf)
  qed
  then show ?case by simp
qed

lemma get_elems_reads:
  "ready u \<Longrightarrow> unread u = concat (map enc v) @ r \<Longrightarrow>
   get_elems get (length v) w u = Inr (w @ v, adv (length (concat (map enc v))) u)"
proof (induction v arbitrary: u w)
  case Nil
  then show ?case by (simp add: adv_def)
next
  case (Cons x v)
  from Cons.prems have "unread u = enc x @ (concat (map enc v) @ r)" by simp
  note g = get_then [OF Cons.prems(1) this]
  from Cons.IH [OF g(2,3), of "w @ [x]"] show ?case by (simp add: g(1))
qed

lemma length_le_concat: "length v \<le> length (concat (map enc v))"
proof (induction v)
  case (Cons x v)
  moreover have "1 \<le> length (enc x)" using enc_nonempty [of x] by (cases "enc x") auto
  ultimately show ?case by simp
qed simp

lemma put_vector_appends:
  assumes "mwf m" "m_ind m + length (enc_vector enc v) < MSG_MAX"
  shows "\<exists>m'. put_vector put m v = Inr m' \<and> appended m (enc_vector enc v) m'"
  unfolding put_vector_def enc_vector_def
proof (rule rbind_appends)
  show "\<exists>m1. put_uint m (of_nat (length v)) = Inr m1 \<and> appended m (enc_u32 (of_nat (length v))) m1"
    using assms by (intro put_uint_appends) (auto simp: enc_vector_def)
  show "\<exists>m2. rfold put m1 v = Inr m2 \<and> appended m1 (concat (map enc v)) m2"
    if "appended m (enc_u32 (of_nat (length v))) m1" for m1
    using assms that appended_ind [OF assms(1) that]
    by (intro rfold_put_appends) (auto simp: enc_vector_def dest: appended_mwf)
qed

lemma get_vector_reads:
  assumes "ready u" "unread u = enc_vector enc v @ r"
  shows "get_vector_into get w u = Inr (w @ v, adv (length (enc_vector enc v)) u)"
proof -
  have 1: "unread u = enc_u32 (of_nat (length v)) @ (concat (map enc v) @ r)"
    using assms(2) by (simp add: enc_vector_def)
  have "length v \<le> u_sz u"
    using length_le_concat [of v] unread_length [of u] assms(1) 1 by (simp add: ready_def)
  then have n: "unat (of_nat (length v) :: u32) = length v"
    using assms(1) by (intro unat_of_nat_u32) (simp add: ready_def uwf_def)
  have 2: "ready (adv 4 u)" "unread (adv 4 u) = concat (map enc v) @ r"
    using 1 ready_adv [OF assms(1), of 4] by (simp_all add: unread_adv)
  from get_elems_reads [OF 2, of w] show ?thesis
    by (simp add: get_vector_into_def get_uint_spec [OF ready_uwf [OF assms(1)] 1] n enc_vector_def)
qed

end

text \<open>An extractor that stays inside its buffer whatever bytes arrive.\<close>

locale safe_codec = codec +
  assumes get_safe: "uwf u \<Longrightarrow> \<exists>x u'. get u = Inr (x, u') \<and> uwf u'"
begin

lemma get_elems_safe: "uwf u \<Longrightarrow> \<exists>v u'. get_elems get n w u = Inr (v, u') \<and> uwf u'"
proof (induction n arbitrary: w u)
  case (Suc n)
  from get_safe [OF Suc.prems] obtain x u1 where 1: "get u = Inr (x, u1)" "uwf u1" by blast
  from Suc.IH [OF 1(2)] show ?case by (simp add: 1(1))
qed simp

end

lemma codec_vector:
  assumes "codec enc put get"
  shows "codec (enc_vector enc) (put_vector put) (get_vector_into get [])"
proof (rule codec.intro)
  show "enc_vector enc x \<noteq> []" for x by (simp add: enc_vector_def enc_u32_def)
next
  show "\<exists>m'. put_vector put m x = Inr m' \<and> appended m (enc_vector enc x) m'"
    if "mwf m" "m_ind m + length (enc_vector enc x) < MSG_MAX" for m x
    using that by (rule codec.put_vector_appends [OF assms])
next
  show "get_vector_into get [] u = Inr (x, adv (length (enc_vector enc x)) u)"
    if "ready u" "unread u = enc_vector enc x @ r" for u x r
    using codec.get_vector_reads [OF assms that, of "[]"] by simp
qed

subsection \<open>The scalar types keep the contract\<close>

lemma u_rawbyte_bind_safe:
  assumes "uwf u" "\<And>x u'. uwf u' \<Longrightarrow> \<exists>y u''. k (x, u') = Inr (y, u'') \<and> uwf u''"
  shows "\<exists>y u''. rbind (u_rawbyte u) k = Inr (y, u'') \<and> uwf u''"
  using u_rawbyte_safe [OF assms(1)] assms(2) by fastforce

lemma get_uint_safe: "uwf u \<Longrightarrow> \<exists>x u'. get_uint u = Inr (x, u') \<and> uwf u'"
  unfolding get_uint_def by (intro u_rawbyte_bind_safe) (auto intro!: u_rawbyte_bind_safe)

interpretation uint: safe_codec enc_u32 put_uint get_uint
proof
  show "enc_u32 x \<noteq> []" for x by (simp add: enc_u32_def)
  show "\<exists>m'. put_uint m x = Inr m' \<and> appended m (enc_u32 x) m'"
    if "mwf m" "m_ind m + length (enc_u32 x) < MSG_MAX" for m x
    using that by (intro put_uint_appends) simp_all
  show "get_uint u = Inr (x, adv (length (enc_u32 x)) u)"
    if "ready u" "unread u = enc_u32 x @ r" for u x r
    using get_uint_spec [OF ready_uwf [OF that(1)] that(2)] by simp
qed (rule get_uint_safe)

interpretation sint: safe_codec enc_u32 put_int get_int
  unfolding put_int_def [abs_def] get_int_eq [abs_def] by (rule uint.safe_codec_axioms)

lemma get_ull_safe: "uwf u \<Longrightarrow> \<exists>x u'. get_ull u = Inr (x, u') \<and> uwf u'"
proof -
  assume "uwf u"
  from get_uint_safe [OF this] obtain h u1 where 1: "get_uint u = Inr (h, u1)" "uwf u1" by blast
  from get_uint_safe [OF 1(2)] obtain l u2 where 2: "get_uint u1 = Inr (l, u2)" "uwf u2" by blast
  from 1 2 show ?thesis by (simp add: get_ull_def)
qed

interpretation ull: safe_codec enc_u64 put_ull get_ull
proof
  show "enc_u64 x \<noteq> []" for x by (simp add: enc_u64_def enc_u32_def)
  show "\<exists>m'. put_ull m x = Inr m' \<and> appended m (enc_u64 x) m'"
    if "mwf m" "m_ind m + length (enc_u64 x) < MSG_MAX" for m x
    using that by (intro put_ull_appends) simp_all
  show "get_ull u = Inr (x, adv (length (enc_u64 x)) u)"
    if w: "ready u" and r: "unread u = enc_u64 x @ r" for u x r
  proof -
    have "unread u = enc_u32 (ucast (drop_bit 32 x)) @ (enc_u32 (ucast x) @ r)"
      using r by (simp add: enc_u64_def)
    note h = uint.get_then [OF w this]
    note l = uint.get_then [OF h(2,3)]
    show ?thesis using h(1) l(1) by (simp add: get_ull_def u64_of_halves)
  qed
qed (rule get_ull_safe)

lemma put_byte_appends:
  "mwf m \<Longrightarrow> m_ind m + 1 < MSG_MAX \<Longrightarrow> \<exists>m'. put_uchar m x = Inr m' \<and> appended m (enc_byte x) m'"
  unfolding put_uchar_def enc_byte_def by (rule rawbyte_appends)

lemma ucast_scast_byte: "ucast (scast (b :: byte) :: u32) = b"
proof (rule bit_word_eqI)
  fix n assume "n < LENGTH(8)"
  then have "n < 7 \<or> n = 7" by auto
  then show "bit (ucast (scast b :: u32) :: byte) n = bit b n" by (auto simp: bit_simps)
qed

lemma get_byte_reads:
  "uwf u \<Longrightarrow> unread u = enc_byte x @ r \<Longrightarrow> get_uchar u = Inr (x, adv 1 u)"
  by (simp add: get_uchar_def enc_byte_def u_rawbyte_Cons ucast_scast_byte)

interpretation uchar: safe_codec enc_byte put_uchar get_uchar
proof
  show "\<exists>x u'. get_uchar u = Inr (x, u') \<and> uwf u'" if "uwf u" for u
    unfolding get_uchar_def using that by (intro u_rawbyte_bind_safe) auto
qed (use put_byte_appends get_byte_reads in \<open>simp_all add: enc_byte_def ready_def\<close>)

interpretation char: safe_codec enc_byte put_char get_char
proof -
  have "put_char = put_uchar" "get_char = get_uchar"
    by (simp_all add: fun_eq_iff put_char_def get_char_def get_uchar_def)
  then show "safe_codec enc_byte put_char get_char" by (simp add: uchar.safe_codec_axioms)
qed

lemma scast_one_nonzero: "scast (1 :: byte) \<noteq> (0 :: u32)"
  by simp

interpretation boolean: safe_codec enc_bool put_bool get_bool
proof
  show "enc_bool x \<noteq> []" for x by (simp add: enc_bool_def)
  show "\<exists>m'. put_bool m x = Inr m' \<and> appended m (enc_bool x) m'"
    if "mwf m" "m_ind m + length (enc_bool x) < MSG_MAX" for m x
    using that unfolding put_bool_def enc_bool_def by (intro rawbyte_appends) simp_all
  show "get_bool u = Inr (x, adv (length (enc_bool x)) u)"
    if "ready u" "unread u = enc_bool x @ r" for u x r
    using that by (simp add: get_bool_def enc_bool_def u_rawbyte_Cons ready_def)
  show "\<exists>x u'. get_bool u = Inr (x, u') \<and> uwf u'" if "uwf u" for u
    unfolding get_bool_def using that by (intro u_rawbyte_bind_safe) auto
qed

lemma get_ushort_reads:
  assumes "uwf u" "unread u = enc_u16 x @ r"
  shows "get_ushort u = Inr (x, adv 2 u)"
proof -
  have "u_rawbyte u = Inr (scast (ucast (drop_bit 8 x) :: byte), adv 1 u)"
    "u_rawbyte (adv 1 u) = Inr (scast (ucast x :: byte), adv 2 u)"
    using u_rawbyte_Cons [OF assms(1)] u_rawbyte_adv [OF assms(1), of 1] assms(2)
    by (simp_all add: enc_u16_def numeral_2_eq_2)
  moreover have "ucast (push_bit 8 (ucast (ucast (drop_bit 8 x) :: byte)) :: u32) OR
      ucast (ucast (ucast x :: byte) :: u32) = x"
  proof -
    have "ucast (push_bit 8 (ucast (ucast (drop_bit 8 x) :: byte)) :: u32) =
        push_bit 8 (ucast (ucast (drop_bit 8 x) :: byte) :: 16 word)"
      "ucast (ucast (ucast x :: byte) :: u32) = (ucast (ucast x :: byte) :: 16 word)"
      by (rule bit_word_eqI; auto simp: bit_simps)+
    then show ?thesis by (simp only: u16_of_bytes)
  qed
  ultimately show ?thesis
    by (simp only: get_ushort_def rbind_simps prod.case scast_and_255)
qed

interpretation ushort: safe_codec enc_u16 put_ushort get_ushort
proof
  show "enc_u16 x \<noteq> []" for x by (simp add: enc_u16_def)
  show "\<exists>m'. put_ushort m x = Inr m' \<and> appended m (enc_u16 x) m'"
    if "mwf m" "m_ind m + length (enc_u16 x) < MSG_MAX" for m x
    using that unfolding put_ushort_rawbytes by (intro rfold_rawbyte_appends) simp_all
  show "get_ushort u = Inr (x, adv (length (enc_u16 x)) u)"
    if "ready u" "unread u = enc_u16 x @ r" for u x r
    using get_ushort_reads [OF ready_uwf [OF that(1)] that(2)] by simp
  show "\<exists>x u'. get_ushort u = Inr (x, u') \<and> uwf u'" if "uwf u" for u
    unfolding get_ushort_def using that
    by (intro u_rawbyte_bind_safe) (auto intro!: u_rawbyte_bind_safe)
qed

interpretation short: safe_codec enc_u16 put_short get_short
proof -
  have "put_short = put_ushort" "get_short = get_ushort"
    by (simp_all add: fun_eq_iff put_short_def get_short_def get_ushort_def)
  then show "safe_codec enc_u16 put_short get_short" by (simp add: ushort.safe_codec_axioms)
qed

subsection \<open>Strings\<close>

lemma u_rawbytes_reads:
  assumes "uwf u" "unread u = s @ r"
  shows "u_rawbytes u ss (of_nat (length s)) = Inr (s, adv (length s) u)"
proof (cases "u_buf u")
  case None
  with assms have "u_sz u = 0" "u_ind u = 0" "s = []" by (simp_all add: uwf_def unread_def)
  with None show ?thesis by (simp add: u_rawbytes_def adv_def)
next
  case (Some b)
  have b: "length b = u_sz u" "u_ind u + length s \<le> u_sz u" "u_sz u \<le> INT_MAX"
    "drop (u_ind u) b = s @ r"
    using assms Some unread_length [OF assms(1)] by (auto simp: uwf_def unread_def)
  then have "unat (of_nat (u_ind u + length s) :: u32) = u_ind u + length s"
    "unat (of_nat (u_sz u) :: u32) = u_sz u" "unat (of_nat (length s) :: u32) = length s"
    by (intro unat_of_nat_u32; simp)+
  then have "\<not> of_nat (u_ind u) + of_nat (length s) > (of_nat (u_sz u) :: u32)"
    using b(2) by (simp add: word_less_nat_alt not_less)
  then show ?thesis
    using b Some \<open>unat (of_nat (length s) :: u32) = length s\<close>
    by (simp add: u_rawbytes_def adv_def)
qed

interpretation str: codec enc_string put_string get_string
proof
  show "enc_string x \<noteq> []" for x by (simp add: enc_string_def enc_u32_def)
  show "\<exists>m'. put_string m x = Inr m' \<and> appended m (enc_string x) m'"
    if "mwf m" "m_ind m + length (enc_string x) < MSG_MAX" for m x
    using that by (rule put_string_appends)
  show "get_string u = Inr (x, adv (length (enc_string x)) u)"
    if "ready u" "unread u = enc_string x @ r" for u x r
  proof -
    from that(2) have "unread u = enc_u32 (of_nat (length x)) @ (x @ r)"
      by (simp add: enc_string_def)
    note n = uint.get_then [OF that(1) this]
    from u_rawbytes_reads [OF ready_uwf [OF n(2)] n(3)] n(1,2) show ?thesis
      by (simp add: get_string_into_def ready_def)
  qed
qed

subsection \<open>Maps of codecs\<close>

lemma put_pairs_appends:
  assumes "codec enca puta geta" "codec encb putb getb"
  shows "mwf m \<Longrightarrow> m_ind m + length (concat (map (\<lambda>(a, b). enca a @ encb b) d)) < MSG_MAX \<Longrightarrow>
    \<exists>m'. rfold (\<lambda>m (a, b). rbind (puta m a) (\<lambda>m. putb m b)) m d = Inr m' \<and>
      appended m (concat (map (\<lambda>(a, b). enca a @ encb b) d)) m'"
proof (induction d arbitrary: m)
  case Nil
  then show ?case by (simp add: appended_refl)
next
  case (Cons p d)
  obtain a b where p: "p = (a, b)" by (cases p)
  have ab: "\<exists>m1. rbind (puta m a) (\<lambda>m. putb m b) = Inr m1 \<and> appended m (enca a @ encb b) m1"
    using Cons.prems p
    by (intro rbind_appends) (auto intro!: codec.put_appends [OF assms(1)] codec.put_after [OF assms(2)])
  have "\<exists>m2. rbind (rbind (puta m a) (\<lambda>m. putb m b))
      (\<lambda>m. rfold (\<lambda>m (a, b). rbind (puta m a) (\<lambda>m. putb m b)) m d) = Inr m2 \<and>
      appended m ((enca a @ encb b) @ concat (map (\<lambda>(a, b). enca a @ encb b) d)) m2"
    using ab
  proof (rule rbind_appends)
    fix m1 assume "appended m (enca a @ encb b) m1"
    with Cons.prems appended_ind [OF Cons.prems(1) this] p
    show "\<exists>m2. rfold (\<lambda>m (a, b). rbind (puta m a) (\<lambda>m. putb m b)) m1 d = Inr m2 \<and>
        appended m1 (concat (map (\<lambda>(a, b). enca a @ encb b) d)) m2"
      by (intro Cons.IH) (auto dest: appended_mwf)
  qed
  with p show ?case by simp
qed

lemma put_map_appends:
  assumes "codec enca puta geta" "codec encb putb getb"
    and "mwf m" "m_ind m + length (enc_map enca encb d) < MSG_MAX"
  shows "\<exists>m'. put_map puta putb m d = Inr m' \<and> appended m (enc_map enca encb d) m'"
  unfolding put_map_def enc_map_def
proof (rule rbind_appends)
  show "\<exists>m1. put_uint m (of_nat (length d)) = Inr m1 \<and> appended m (enc_u32 (of_nat (length d))) m1"
    using assms by (intro put_uint_appends) (auto simp: enc_map_def)
  fix m1 assume "appended m (enc_u32 (of_nat (length d))) m1"
  with assms appended_ind [OF assms(3) this]
  show "\<exists>m2. rfold (\<lambda>m (a, b). rbind (puta m a) (\<lambda>m. putb m b)) m1 d = Inr m2 \<and>
      appended m1 (concat (map (\<lambda>(a, b). enca a @ encb b) d)) m2"
    by (intro put_pairs_appends) (auto simp: enc_map_def dest: appended_mwf)
qed

lemma get_pairs_reads:
  assumes "codec enca puta geta" "codec encb putb getb"
  shows "ready u \<Longrightarrow> unread u = concat (map (\<lambda>(a, b). enca a @ encb b) d) @ r \<Longrightarrow>
    get_pairs geta getb (length d) e u =
      Inr (foldl (\<lambda>e (a, b). e(a \<mapsto> b)) e d,
           adv (length (concat (map (\<lambda>(a, b). enca a @ encb b) d))) u)"
proof (induction d arbitrary: u e)
  case Nil
  then show ?case by (simp add: adv_def)
next
  case (Cons p d)
  obtain a b where p: "p = (a, b)" by (cases p)
  from Cons.prems p
  have "unread u = enca a @ (encb b @ (concat (map (\<lambda>(a, b). enca a @ encb b) d) @ r))" by simp
  note a = codec.get_then [OF assms(1) Cons.prems(1) this]
  note b = codec.get_then [OF assms(2) a(2,3)]
  from Cons.IH [OF b(2,3), of "e(a \<mapsto> b)"] a(1) b(1) p show ?case
    by (simp add: add.assoc fun_upd_def)
qed

lemma foldl_upd_map_of:
  "distinct (map fst d) \<Longrightarrow> foldl (\<lambda>e (a, b). e(a \<mapsto> b)) e d = e ++ map_of d"
proof (induction d arbitrary: e)
  case (Cons p d)
  then show ?case
    by (cases p) (auto simp: map_add_def fun_eq_iff dom_def split: option.splits
        dest: map_of_SomeD intro!: rev_image_eqI)
qed simp

lemma length_le_enc_pairs:
  assumes "codec enca puta geta"
  shows "length d \<le> length (concat (map (\<lambda>(a, b). enca a @ encb b) d))"
proof (induction d)
  case (Cons p d)
  obtain a b where "p = (a, b)" by (cases p)
  moreover have "1 \<le> length (enca a)" using codec.enc_nonempty [OF assms, of a] by (cases "enca a") auto
  ultimately show ?case using Cons by simp
qed simp

lemma get_map_reads:
  assumes "codec enca puta geta" "codec encb putb getb" "distinct (map fst d)"
    and "ready u" "unread u = enc_map enca encb d @ r"
  shows "get_map geta getb u = Inr (map_of d, adv (length (enc_map enca encb d)) u)"
proof -
  let ?c = "concat (map (\<lambda>(a, b). enca a @ encb b) d)"
  have 1: "unread u = enc_u32 (of_nat (length d)) @ (?c @ r)"
    using assms(5) by (simp add: enc_map_def)
  note n = uint.get_then [OF assms(4) this]
  have "length d \<le> u_sz u"
    using length_le_enc_pairs [OF assms(1), of d encb] unread_length [of u] assms(4) 1
    by (simp add: ready_def)
  then have "unat (of_nat (length d) :: u32) = length d"
    using assms(4) by (intro unat_of_nat_u32) (simp add: ready_def uwf_def)
  with get_pairs_reads [OF assms(1,2) n(2,3), of Map.empty] n(1) show ?thesis
    by (simp add: get_map_def foldl_upd_map_of [OF assms(3)] enc_map_def)
qed

section \<open>Message headers\<close>

lemma rfold_append: "rfold f s (xs @ ys) = rbind (rfold f s xs) (\<lambda>s. rfold f s ys)"
  by (induction xs arbitrary: s) (simp_all add: rbind_assoc)

lemma rfold_rawbyte_overwrite:
  "m_buf m = Some b \<Longrightarrow> length b = m_capa m \<Longrightarrow> i + length bs \<le> m_capa m \<Longrightarrow>
   rfold rawbyte (m\<lparr>m_ind := i\<rparr>) bs =
     Inr (m\<lparr>m_buf := Some (take i b @ map Some bs @ drop (i + length bs) b), m_ind := i + length bs\<rparr>)"
proof (induction bs arbitrary: m b i)
  case (Cons x bs)
  let ?b = "b[i := Some x]"
  have "rawbyte (m\<lparr>m_ind := i\<rparr>) x = Inr (m\<lparr>m_buf := Some ?b, m_ind := Suc i\<rparr>)"
    using Cons.prems by (simp add: rawbyte_def store_byte_def)
  moreover have "rfold rawbyte ((m\<lparr>m_buf := Some ?b\<rparr>)\<lparr>m_ind := Suc i\<rparr>) bs =
      Inr ((m\<lparr>m_buf := Some ?b\<rparr>)\<lparr>m_buf := Some (take (Suc i) ?b @ map Some bs @ drop (Suc i + length bs) ?b),
           m_ind := Suc i + length bs\<rparr>)"
    using Cons.prems by (intro Cons.IH) simp_all
  ultimately show ?case using Cons.prems by (simp add: take_Suc_update)
qed simp

lemma mwf_header_overwrite:
  assumes "mwf m" "4 + length bs \<le> 24"
  shows "\<exists>m'. rbind (rfold rawbyte (m\<lparr>m_ind := 4\<rparr>) bs) (\<lambda>m1. Inr (m1\<lparr>m_ind := m_ind m\<rparr>)) = Inr m' \<and>
    mwf m' \<and> m_ind m' = m_ind m \<and>
    cells m' = take 4 (cells m) @ map Some bs @ drop (4 + length bs) (cells m)"
proof -
  from assms(1) obtain b where b: "m_buf m = Some b" "length b = m_capa m" "24 \<le> m_ind m"
    "m_ind m \<le> m_capa m" by (rule mwf_cases)
  with assms show ?thesis
    by (auto simp: rfold_rawbyte_overwrite mwf_def cells_def min_def drop_take)
qed

lemma length_enc_headers [simp]:
  "length (enc_req_header h) = 20" "length (enc_reply_header r) = 8"
  by (simp_all add: enc_req_header_def enc_reply_header_def)

lemma pack_req_header_writes:
  assumes "mwf m"
  shows "\<exists>m'. pack_req_header m h = Inr m' \<and> mwf m' \<and> m_ind m' = m_ind m \<and>
    cells m' = take 4 (cells m) @ map Some (enc_req_header h) @ drop 24 (cells m)"
  using mwf_header_overwrite [OF assms, of "enc_req_header h"]
  by (simp add: pack_req_header_def pack_rawbytes sizes enc_req_header_def rfold_append rbind_assoc)

lemma pack_reply_header_writes:
  assumes "mwf m"
  shows "\<exists>m'. pack_reply_header m h = Inr m' \<and> mwf m' \<and> m_ind m' = m_ind m \<and>
    cells m' = take 4 (cells m) @ map Some (enc_reply_header h) @ drop 12 (cells m)"
  using mwf_header_overwrite [OF assms, of "enc_reply_header h"]
  by (simp add: pack_reply_header_def pack_rawbytes sizes enc_reply_header_def rfold_append rbind_assoc)

section \<open>Messages on the wire\<close>

lemma delivered_segment:
  assumes "delivered m b" "mwf m" "4 \<le> i" "i + length xs \<le> m_ind m"
    and "take (length xs) (drop i (cells m)) = map Some xs"
  shows "take (length xs) (drop i b) = xs"
proof (rule nth_equalityI)
  show "length (take (length xs) (drop i b)) = length xs"
    using assms by (simp add: delivered_def)
  fix j assume "j < length (take (length xs) (drop i b))"
  then have j: "j < length xs" by simp
  have "cells m ! (i + j) = take (length xs) (drop i (cells m)) ! j"
    using assms(2,4) j by (simp add: length_cells)
  also have "\<dots> = Some (xs ! j)" using assms(5) j by simp
  finally have "b ! (i + j) = xs ! j"
    using assms(1) [unfolded delivered_def sizes, THEN conjunct2, rule_format, of "i + j"]
      assms(3,4) j by simp
  then show "take (length xs) (drop i b) ! j = xs ! j"
    using assms(1,4) j by (simp add: delivered_def)
qed

lemma ready_unmarshall_of: "length b \<le> INT_MAX \<Longrightarrow> ready (unmarshall_of b)"
  by (simp add: ready_def uwf_def unmarshall_of_def)

lemma unread_at:
  "unread ((unmarshall_of b)\<lparr>u_ind := i\<rparr>) = drop i b"
  by (simp add: unread_def unmarshall_of_def)

lemma ready_at:
  "length b \<le> INT_MAX \<Longrightarrow> i \<le> length b \<Longrightarrow> ready ((unmarshall_of b)\<lparr>u_ind := i\<rparr>)"
  by (simp add: ready_def uwf_def unmarshall_of_def)

lemma unpack_req_header_reads:
  assumes "length b \<le> INT_MAX" "24 \<le> length b" "take 20 (drop 4 b) = enc_req_header h"
  shows "unpack_req_header (unmarshall_of b) = Inr (h, (unmarshall_of b)\<lparr>u_ind := 24\<rparr>)"
proof -
  let ?u = "(unmarshall_of b)\<lparr>u_ind := 4\<rparr>"
  have "drop 4 b = enc_req_header h @ drop 24 b"
    using assms(3) append_take_drop_id [of 20 "drop 4 b"] by simp
  then have u: "unread ?u = enc_u32 (xid h) @ enc_u32 (proc h) @ enc_u32 (clt_nonce h)
      @ enc_u32 (srv_nonce h) @ enc_u32 (xid_rep h) @ drop 24 b"
    unfolding unread_at enc_req_header_def by simp
  have "ready ?u" using assms(1,2) by (intro ready_at) simp_all
  note 1 = uint.get_then [OF this u]
  note 2 = uint.get_then [OF 1(2,3)]
  note 3 = uint.get_then [OF 2(2,3)]
  note 4 = uint.get_then [OF 3(2,3)]
  note 5 = uint.get_then [OF 4(2,3)]
  show ?thesis
    using 1(1) 2(1) 3(1) 4(1) 5(1)
    by (simp add: unpack_req_header_def unpack_eq sizes adv_def)
qed

lemma unpack_reply_header_reads:
  assumes "length b \<le> INT_MAX" "24 \<le> length b" "take 8 (drop 4 b) = enc_reply_header h"
  shows "unpack_reply_header (unmarshall_of b) = Inr (h, (unmarshall_of b)\<lparr>u_ind := 24\<rparr>)"
proof -
  let ?u = "(unmarshall_of b)\<lparr>u_ind := 4\<rparr>"
  have "drop 4 b = enc_reply_header h @ drop 12 b"
    using assms(3) append_take_drop_id [of 8 "drop 4 b"] by simp
  then have u: "unread ?u = enc_u32 (rh_xid h) @ enc_u32 (rh_ret h) @ drop 12 b"
    unfolding unread_at enc_reply_header_def by simp
  have "ready ?u" using assms(1,2) by (intro ready_at) simp_all
  note 1 = uint.get_then [OF this u]
  note 2 = uint.get_then [OF 1(2,3)]
  show ?thesis
    using 1(1) 2(1) by (simp add: unpack_reply_header_def unpack_eq sizes adv_def)
qed

lemma take_in_unmarshall_of:
  "24 \<le> length b \<Longrightarrow> take_in unmarshall_new ((unmarshall_of b)\<lparr>u_ind := i\<rparr>) =
   ((unmarshall_of b)\<lparr>u_ind := 24\<rparr>, \<lparr>u_buf = None, u_sz = 0, u_ind = 0, u_ok = True\<rparr>)"
  by (simp add: take_in_def u_take_buf_def unmarshall_new_def unmarshall_of_def sizes)

lemma delivered_payload:
  assumes "delivered m b" "mwf m" "drop 24 (cells m) = map Some xs"
  shows "drop 24 b = xs" "length b = 24 + length xs" "length b = m_ind m"
proof -
  from assms(2) have i: "24 \<le> m_ind m" by (rule mwf_cases)
  have n: "m_ind m = 24 + length xs"
    using arg_cong [OF assms(3), of length] length_cells [OF assms(2)] i by simp
  show "length b = m_ind m" using assms(1) by (simp add: delivered_def)
  with n show "length b = 24 + length xs" by simp
  with delivered_segment [OF assms(1,2), of 24 xs] assms(3) n
  show "drop 24 b = xs" by simp
qed

lemma okdone_at_end:
  "okdone (adv n ((unmarshall_of b)\<lparr>u_ind := i\<rparr>)) \<longleftrightarrow> i + n = length b"
  by (simp add: okdone_def adv_def unmarshall_of_def)

lemma delivered_default: "mwf m \<Longrightarrow> delivered m (map (case_option 0 id) (cells m))"
  by (auto simp: delivered_def length_cells split: option.splits)

text \<open>What the receiver is handed for a request: the header, and the bytes of the arguments.\<close>

lemma request_arrives:
  assumes "codec enc put get" and "RPC_HEADER_SZ + length (enc x) < MSG_MAX"
  shows "\<exists>m m'. put marshall_new x = Inr m \<and> pack_req_header m h = Inr m' \<and> mwf m' \<and>
    (\<forall>b. delivered m' b \<longrightarrow> drop 24 b = enc x \<and> length b = 24 + length (enc x) \<and> length b \<le> INT_MAX \<and>
      unpack_req_header (unmarshall_of b) = Inr (h, (unmarshall_of b)\<lparr>u_ind := 24\<rparr>))"
proof -
  obtain m where m: "put marshall_new x = Inr m" "appended marshall_new (enc x) m"
    using codec.put_appends [OF assms(1), of marshall_new x] assms(2)
    by (auto simp: marshall_new_def sizes mwf_def)
  then have wm: "mwf m" and cm: "cells m = replicate 24 None @ map Some (enc x)"
    by (simp_all add: appended_def)
  obtain m' where m': "pack_req_header m h = Inr m'" "mwf m'" "m_ind m' = m_ind m"
    "cells m' = replicate 4 None @ map Some (enc_req_header h) @ map Some (enc x)"
    using pack_req_header_writes [OF wm, of h] cm by auto
  have "drop 24 b = enc x \<and> length b = 24 + length (enc x) \<and> length b \<le> INT_MAX \<and>
      unpack_req_header (unmarshall_of b) = Inr (h, (unmarshall_of b)\<lparr>u_ind := 24\<rparr>)" if d: "delivered m' b" for b
  proof -
    note b = delivered_payload [OF d m'(2), of "enc x"]
    have b: "drop 24 b = enc x" "length b = 24 + length (enc x)" "length b = m_ind m'"
      by (rule b; simp add: m'(4))+
    have "take 20 (drop 4 b) = enc_req_header h"
      using delivered_segment [OF d m'(2), of 4 "enc_req_header h"] b by (simp add: m'(4))
    moreover have "length b \<le> INT_MAX" using assms(2) b(2) by (simp add: sizes)
    ultimately show ?thesis using b by (auto intro: unpack_req_header_reads)
  qed
  with m(1) m'(1,2) show ?thesis by blast
qed

text \<open>A request crosses the wire intact: arguments of any type whose inserter and extractor
  keep the \<open>codec\<close> contract are marshalled without a fault, and from whatever bytes the receiver
  is handed for that message \<^verbatim>\<open>unpack_req_header\<close> gives back the header and the extractor the
  arguments, with the buffer used up exactly (\<^verbatim>\<open>okdone\<close>).\<close>

lemma request_crosses:
  assumes "codec enc put get" and "RPC_HEADER_SZ + length (enc x) < MSG_MAX"
  shows "\<exists>m m'. put marshall_new x = Inr m \<and> pack_req_header m h = Inr m' \<and> mwf m' \<and>
    (\<forall>b. delivered m' b \<longrightarrow>
      (\<exists>u u'. unpack_req_header (unmarshall_of b) = Inr (h, u) \<and> u_ok u \<and>
              get u = Inr (x, u') \<and> okdone u'))"
proof -
  have "\<exists>u'. get ((unmarshall_of b)\<lparr>u_ind := 24\<rparr>) = Inr (x, u') \<and> okdone u'"
    if b: "drop 24 b = enc x" "length b = 24 + length (enc x)" "length b \<le> INT_MAX" for b
  proof -
    have "get ((unmarshall_of b)\<lparr>u_ind := 24\<rparr>) =
        Inr (x, adv (length (enc x)) ((unmarshall_of b)\<lparr>u_ind := 24\<rparr>))"
      using b by (intro codec.get_reads [OF assms(1), where r = "[]"] ready_at) (simp_all add: unread_at)
    with b(2) show ?thesis by (simp add: okdone_at_end)
  qed
  moreover have "u_ok ((unmarshall_of b)\<lparr>u_ind := 24\<rparr>)" for b by (simp add: unmarshall_of_def)
  ultimately show ?thesis using request_arrives [OF assms, of h] by blast
qed

text \<open>A reply crosses the wire intact: the header written by \<^verbatim>\<open>pack_reply_header\<close> and a result
  of any type with a \<open>codec\<close> come back through \<^verbatim>\<open>unpack_reply_header\<close>, \<^verbatim>\<open>take_in\<close> and the
  extractor, whatever the channel transmits for the twelve header bytes a reply leaves
  uninitialised.\<close>

lemma reply_crosses:
  assumes "codec enc put get" and "RPC_HEADER_SZ + length (enc x) < MSG_MAX"
  shows "\<exists>m m'. put marshall_new x = Inr m \<and> mwf m \<and> pack_reply_header m h = Inr m' \<and> mwf m' \<and>
    take 12 (drop 12 (cells m')) = replicate 12 None \<and>
    (\<forall>b. delivered m' b \<longrightarrow>
      (\<exists>rep u'. unpack_reply_header (unmarshall_of b) = Inr (h, rep) \<and> u_ok rep \<and>
        get (fst (take_in unmarshall_new rep)) = Inr (x, u') \<and> okdone u'))"
proof -
  obtain m where m: "put marshall_new x = Inr m" "appended marshall_new (enc x) m"
    using codec.put_appends [OF assms(1), of marshall_new x] assms(2)
    by (auto simp: marshall_new_def sizes mwf_def)
  then have wm: "mwf m" and cm: "cells m = replicate 24 None @ map Some (enc x)"
    by (simp_all add: appended_def)
  obtain m' where m': "pack_reply_header m h = Inr m'" "mwf m'" "m_ind m' = m_ind m"
    "cells m' = replicate 4 None @ map Some (enc_reply_header h) @ replicate 12 None @ map Some (enc x)"
    using pack_reply_header_writes [OF wm, of h] cm by auto
  have "\<exists>rep u'. unpack_reply_header (unmarshall_of b) = Inr (h, rep) \<and> u_ok rep \<and>
      get (fst (take_in unmarshall_new rep)) = Inr (x, u') \<and> okdone u'" if d: "delivered m' b" for b
  proof -
    note b = delivered_payload [OF d m'(2), of "enc x"]
    have b: "drop 24 b = enc x" "length b = 24 + length (enc x)" "length b = m_ind m'"
      by (rule b; simp add: m'(4))+
    have "take 8 (drop 4 b) = enc_reply_header h"
      using delivered_segment [OF d m'(2), of 4 "enc_reply_header h"] b by (simp add: m'(4))
    moreover have "length b \<le> INT_MAX" using assms(2) b(2) by (simp add: sizes)
    ultimately have u: "unpack_reply_header (unmarshall_of b) = Inr (h, (unmarshall_of b)\<lparr>u_ind := 24\<rparr>)"
      using b(2) by (intro unpack_reply_header_reads) simp_all
    have "get ((unmarshall_of b)\<lparr>u_ind := 24\<rparr>) =
        Inr (x, adv (length (enc x)) ((unmarshall_of b)\<lparr>u_ind := 24\<rparr>))"
      using b \<open>length b \<le> INT_MAX\<close>
      by (intro codec.get_reads [OF assms(1), where r = "[]"] ready_at) (simp_all add: unread_at)
    with u b(2) show ?thesis
      by (auto simp: okdone_at_end take_in_unmarshall_of) (simp add: unmarshall_of_def)
  qed
  with m(1) wm m'(1,2,4) show ?thesis by fastforce
qed

text \<open>A \<^verbatim>\<open>std::map\<close> survives marshalling: the inserter succeeds on its key-ordered
  enumeration and the extractor rebuilds the same map from the bytes it appended.\<close>

theorem map_roundtrip:
  assumes "codec enca puta geta" "codec encb putb getb" "distinct (map fst d)"
    and "RPC_HEADER_SZ + length (enc_map enca encb d) < MSG_MAX"
  shows "\<exists>m. put_map puta putb marshall_new d = Inr m \<and>
    (\<forall>u. ready u \<longrightarrow> map Some (unread u) = drop RPC_HEADER_SZ (cells m) \<longrightarrow>
      (\<exists>u'. get_map geta getb u = Inr (map_of d, u') \<and> okdone u'))"
proof -
  obtain m where m: "put_map puta putb marshall_new d = Inr m" "appended marshall_new (enc_map enca encb d) m"
    using put_map_appends [OF assms(1,2) mwf_new, of d] assms(4) by (auto simp: marshall_new_def)
  have "\<exists>u'. get_map geta getb u = Inr (map_of d, u') \<and> okdone u'"
    if u: "ready u" "map Some (unread u) = drop RPC_HEADER_SZ (cells m)" for u
  proof -
    have "unread u = enc_map enca encb d @ []"
      using u(2) m(2) by (simp add: appended_def sizes inj_map_eq_map)
    from get_map_reads [OF assms(1-3) u(1) this] unread_length [of u] this u(1) show ?thesis
      by (auto simp: okdone_def ready_def uwf_def)
  qed
  with m(1) show ?thesis by blast
qed

lemma map_roundtrip_witness:
  "\<exists>m u u'. put_map put_uint put_string marshall_new [(1, [97]), (2, [])] = Inr m \<and> ready u \<and>
     map Some (unread u) = drop RPC_HEADER_SZ (cells m) \<and>
     get_map get_uint get_string u = Inr (map_of [(1, [97]), (2, [])], u') \<and> okdone u'"
proof -
  let ?d = "[(1 :: u32, [97 :: byte]), (2, [])]"
  have b: "RPC_HEADER_SZ + length (enc_map enc_u32 enc_string ?d) < MSG_MAX"
    by (simp add: sizes enc_map_def)
  from map_roundtrip [OF uint.codec_axioms str.codec_axioms _ b] obtain m where
    m: "put_map put_uint put_string marshall_new ?d = Inr m"
    and r: "\<And>u. ready u \<Longrightarrow> map Some (unread u) = drop RPC_HEADER_SZ (cells m) \<Longrightarrow>
      \<exists>u'. get_map get_uint get_string u = Inr (map_of ?d, u') \<and> okdone u'" by auto
  let ?u = "unmarshall_of (enc_map enc_u32 enc_string ?d)"
  have "cells m = replicate 24 None @ map Some (enc_map enc_u32 enc_string ?d)"
    using put_map_appends [OF uint.codec_axioms str.codec_axioms mwf_new, of ?d] b m
    by (auto simp: marshall_new_def sizes appended_def cells_def)
  moreover have "ready ?u" "unread ?u = enc_map enc_u32 enc_string ?d"
    by (simp_all add: ready_def uwf_def unread_def unmarshall_of_def sizes enc_map_def)
  ultimately show ?thesis using m r [of ?u] by (auto simp: sizes)
qed

text \<open>(C39) The bounds test of \<^verbatim>\<open>unmarshall::rawbytes\<close> wraps around: extracting a string whose
  transmitted length \<open>n\<close> makes \<^verbatim>\<open>_ind + n\<close> overflow \<^verbatim>\<open>unsigned int\<close> passes the test and reads
  outside the buffer, and no other length does.\<close>

theorem string_length_wraps:
  assumes "ready u" "unread u = enc_u32 n @ r"
  shows "get_string u = Inl OutOfBounds \<longleftrightarrow> 2 ^ 32 \<le> u_ind u + 4 + unat n"
proof -
  note n = uint.get_then [OF assms]
  from assms obtain b where b: "u_buf u = Some b" "length b = u_sz u"
    by (auto simp: ready_def uwf_def unread_def enc_u32_def split: option.splits)
  have len: "u_ind u + 4 \<le> u_sz u" "u_sz u \<le> INT_MAX"
    using n(2) by (simp_all add: ready_def uwf_def)
  then have "unat (of_nat (u_ind u + 4) :: u32) = u_ind u + 4" "unat (of_nat (u_sz u) :: u32) = u_sz u"
    by (intro unat_of_nat_u32; simp)+
  then have "of_nat (u_ind u + 4) + n > (of_nat (u_sz u) :: u32) \<longleftrightarrow>
      (u_ind u + 4 + unat n) mod 2 ^ 32 > u_sz u"
    by (simp add: word_less_nat_alt unat_word_ariths)
  then have "get_string u = Inl OutOfBounds \<longleftrightarrow>
      (u_ind u + 4 + unat n) mod 2 ^ 32 \<le> u_sz u \<and> u_ind u + 4 + unat n > u_sz u"
    using n(1,2) b by (auto simp: get_string_into_def u_rawbytes_def ready_def)
  also have "\<dots> \<longleftrightarrow> 2 ^ 32 \<le> u_ind u + 4 + unat n"
  proof -
    have "unat n < 2 ^ 32" using unsigned_less [of n] by simp
    with len show ?thesis by (auto simp: sizes mod_if)
  qed
  finally show ?thesis .
qed

lemma string_length_wraps_witness:
  "get_string (unmarshall_of [255, 255, 255, 252]) = Inl OutOfBounds"
proof -
  have "enc_u32 0xFFFFFFFC = [255, 255, 255, 252]" by (simp add: enc_u32_def)
  then show ?thesis
    using string_length_wraps [of "unmarshall_of [255, 255, 255, 252]" "0xFFFFFFFC" "[]"]
    by (simp add: ready_def uwf_def unread_def unmarshall_of_def sizes)
qed

end
