(* ===== verification/Connection.thy ===== *)
theory Connection
  imports Marshall
begin

text \<open>
  The class \<^verbatim>\<open>connection\<close> of \<^verbatim>\<open>rpc/connection.h\<close> and \<^verbatim>\<open>rpc/connection.cc\<close>: the reference count that
  decides when a connection object is deleted, and the framing of messages (a PDU is a message
  whose first four bytes are its size) over a byte stream that may deliver and accept any part
  of a message at a time. The outcome of each \<^verbatim>\<open>read\<close> and \<^verbatim>\<open>write\<close> system call is an argument.
\<close>

section \<open>State\<close>

record charbuf =
  cb_buf :: "cell list option"
  cb_sz :: int
  cb_solong :: int

definition charbuf_new :: charbuf where
  "charbuf_new = \<lparr>cb_buf = None, cb_sz = 0, cb_solong = 0\<rparr>"

record connection =
  c_dead :: bool
  c_wpdu :: charbuf
  c_rpdu :: charbuf
  c_tv_sec :: int
  c_tv_usec :: int
  c_waiters :: int
  c_refno :: int

definition connection_new :: "int \<Rightarrow> int \<Rightarrow> connection" where
  "connection_new sec usec =
     \<lparr>c_dead = False, c_wpdu = charbuf_new, c_rpdu = charbuf_new,
      c_tv_sec = sec, c_tv_usec = usec, c_waiters = 0, c_refno = 1\<rparr>"

text \<open>Connection objects live in a store; a deleted one is no longer in it.\<close>

type_synonym cid = nat
type_synonym conn_store = "cid \<rightharpoonup> connection"

definition conn_at :: "conn_store \<Rightarrow> cid \<Rightarrow> connection res" where
  "conn_at h c = (case h c of None \<Rightarrow> Inl UseAfterFree | Some k \<Rightarrow> Inr k)"

section \<open>Reference counting\<close>

definition incref :: "conn_store \<Rightarrow> cid \<Rightarrow> conn_store res" where
  "incref h c = rbind (conn_at h c) (\<lambda>k. Inr (h(c \<mapsto> k\<lparr>c_refno := c_refno k + 1\<rparr>)))"

definition isdead :: "conn_store \<Rightarrow> cid \<Rightarrow> bool res" where
  "isdead h c = rbind (conn_at h c) (\<lambda>k. Inr (c_dead k))"

definition conn_ref :: "conn_store \<Rightarrow> cid \<Rightarrow> int res" where
  "conn_ref h c = rbind (conn_at h c) (\<lambda>k. Inr (c_refno k))"

text \<open>The destructor checks that the connection is dead and sends nothing.\<close>

definition conn_delete :: "conn_store \<Rightarrow> cid \<Rightarrow> conn_store res" where
  "conn_delete h c =
     rbind (conn_at h c) (\<lambda>k.
     rbind (verify (c_dead k)) (\<lambda>_.
     rbind (verify (cb_buf (c_wpdu k) = None)) (\<lambda>_.
     Inr (h(c := None)))))"

definition decref :: "conn_store \<Rightarrow> cid \<Rightarrow> conn_store res" where
  "decref h c =
     rbind (conn_at h c) (\<lambda>k.
     let n = c_refno k - 1; h' = h(c \<mapsto> k\<lparr>c_refno := n\<rparr>) in
     rbind (verify (n \<ge> 0)) (\<lambda>_.
     if n = 0 \<and> c_dead k then conn_delete h' c else Inr h'))"

text \<open>The first call to \<^verbatim>\<open>closeconn\<close> marks the connection dead; the result says whether the
  descriptor is to be removed from the poll manager.\<close>

definition closeconn :: "conn_store \<Rightarrow> cid \<Rightarrow> (bool \<times> conn_store) res" where
  "closeconn h c =
     rbind (conn_at h c) (\<lambda>k.
     if \<not> c_dead k then Inr (True, h(c \<mapsto> k\<lparr>c_dead := True\<rparr>)) else Inr (False, h))"

definition compare :: "connection \<Rightarrow> connection \<Rightarrow> int" where
  "compare k another =
     (if c_tv_sec k > c_tv_sec another then 1
      else if c_tv_sec k < c_tv_sec another then -1
      else if c_tv_usec k > c_tv_usec another then 1
      else if c_tv_usec k < c_tv_usec another then -1
      else 0)"

section \<open>Framing\<close>

definition MAX_PDU :: int where "MAX_PDU = 10 * 2 ^ 20"

text \<open>What a system call returned: \<open>n > 0\<close> bytes, or \<open>0\<close> or \<open>-1\<close> together with whether \<^verbatim>\<open>errno\<close>
  is \<^verbatim>\<open>EAGAIN\<close> at that point (after a \<open>0\<close> it has whatever value an earlier call left). The system
  calls themselves are arguments of the operations: \<^verbatim>\<open>read\<close> maps the requested count and a state
  of the descriptor to an outcome and the next state, \<^verbatim>\<open>write\<close> does so for the offered bytes.\<close>

datatype rd = RdData "byte list" | RdEof bool | RdErr bool
datatype wr = WrBytes nat | WrErr bool

type_synonym 's sys_read = "nat \<Rightarrow> 's \<Rightarrow> rd \<times> 's"
type_synonym 's sys_write = "cell list \<Rightarrow> 's \<Rightarrow> wr \<times> 's"

text \<open>A signed value passed where \<^verbatim>\<open>size_t\<close> is expected.\<close>

definition size_t :: "int \<Rightarrow> nat" where
  "size_t i = nat (i mod 2 ^ 64)"

definition htonl_cells :: "int \<Rightarrow> cell list" where
  "htonl_cells n = map Some (enc_u32 (word_of_int n))"

text \<open>Before its first byte goes out, the message gets its size in network order.\<close>

definition fill_size :: "charbuf \<Rightarrow> cell list \<Rightarrow> cell list res" where
  "fill_size p b =
     (if cb_solong p = 0
      then if length b < 4 then Inl OutOfBounds else Inr (htonl_cells (cb_sz p) @ drop 4 b)
      else Inr b)"

definition writepdu :: "'s sys_write \<Rightarrow> charbuf \<Rightarrow> 's \<Rightarrow> (charbuf \<times> bool \<times> 's) res" where
  "writepdu write p s =
     rbind (verify (cb_solong p \<ge> 0)) (\<lambda>_.
     if cb_solong p = cb_sz p then Inr (p, True, s)
     else case cb_buf p of
       None \<Rightarrow> Inl NullDeref
     | Some b0 \<Rightarrow>
         rbind (fill_size p b0) (\<lambda>b.
         let n = size_t (cb_sz p - cb_solong p); data = drop (nat (cb_solong p)) b in
         if n > length data then Inl OutOfBounds
         else let p1 = p\<lparr>cb_buf := Some b\<rparr> in
           case write (take n data) s of
             (WrErr again, s') \<Rightarrow>
               if \<not> again then Inr (p1\<lparr>cb_solong := -1, cb_sz := 0\<rparr>, False, s') else Inr (p1, True, s')
           | (WrBytes m, s') \<Rightarrow> Inr (p1\<lparr>cb_solong := cb_solong p + int m\<rparr>, True, s')))"

fun ntohl :: "byte list \<Rightarrow> int" where
  "ntohl [a, b, c, d] =
     sint (push_bit 24 (ucast a) OR push_bit 16 (ucast b) OR push_bit 8 (ucast c) OR ucast d :: u32)"
| "ntohl _ = 0"

text \<open>The first half of \<^verbatim>\<open>readpdu\<close>, entered while no size is known: \<open>None\<close> is the early
  \<^verbatim>\<open>return false\<close>. \<^verbatim>\<open>malloc\<close> gets \<^verbatim>\<open>sz + sizeof(sz)\<close> as a \<^verbatim>\<open>size_t\<close>, so a size between \<open>-4\<close> and \<open>-1\<close>
  allocates fewer than the four bytes that are then copied, and a smaller one asks for almost
  the whole address space and fails.\<close>

definition read_size :: "rd \<Rightarrow> charbuf \<Rightarrow> charbuf option res" where
  "read_size r p =
     (case r of
        RdEof _ \<Rightarrow> Inr None
      | RdErr again \<Rightarrow> rbind (verify (\<not> again)) (\<lambda>_. Inr None)
      | RdData bs \<Rightarrow>
          if length bs \<noteq> 4 then Inr None
          else let sz = ntohl bs in
            if sz > MAX_PDU then Inr None
            else rbind (verify (cb_buf p = None)) (\<lambda>_.
                 rbind (verify (sz + 4 \<ge> 0)) (\<lambda>_.
                 if sz < 0 then Inl OutOfBounds
                 else Inr (Some \<lparr>cb_buf = Some (map Some bs @ replicate (nat sz) None),
                                 cb_sz = sz, cb_solong = 4\<rparr>))))"

text \<open>The second half: \<^verbatim>\<open>read(fd_, rpdu_.buf + rpdu_.solong, rpdu_.sz - rpdu_.solong)\<close>.\<close>

definition read_body :: "rd \<Rightarrow> charbuf \<Rightarrow> (charbuf \<times> bool) res" where
  "read_body r p =
     (case r of
        RdData bs \<Rightarrow>
          (case cb_buf p of
             None \<Rightarrow> Inl NullDeref
           | Some b \<Rightarrow>
               let i = nat (cb_solong p) in
               if i + length bs \<le> length b
               then Inr (p\<lparr>cb_buf := Some (take i b @ map Some bs @ drop (i + length bs) b),
                           cb_solong := cb_solong p + int (length bs)\<rparr>, True)
               else Inl OutOfBounds)
      | RdEof again \<Rightarrow> if again then Inr (p, True) else Inr (charbuf_new, False)
      | RdErr again \<Rightarrow> if again then Inr (p, True) else Inr (charbuf_new, False))"

definition readpdu :: "'s sys_read \<Rightarrow> charbuf \<Rightarrow> 's \<Rightarrow> (charbuf \<times> bool \<times> 's) res" where
  "readpdu read p s =
     rbind (if cb_sz p = 0
            then case read 4 s of (r, s1) \<Rightarrow> rbind (read_size r p) (\<lambda>q. Inr (q, s1))
            else Inr (Some p, s)) (\<lambda>(q, s1).
     case q of
       None \<Rightarrow> Inr (p, False, s1)
     | Some p1 \<Rightarrow>
         (case read (size_t (cb_sz p1 - cb_solong p1)) s1 of (r, s2) \<Rightarrow>
            rbind (read_body r p1) (\<lambda>(p2, ok). Inr (p2, ok, s2))))"

section \<open>Sending and the poll callbacks\<close>

text \<open>\<^verbatim>\<open>send\<close> gives up the mutex where it waits on a condition variable, so it is four segments:
  its entry, the test of the first waiting loop and what follows it up to the second waiting
  loop, and the test of that loop with the end of the function.\<close>

datatype sstat = Blocked | Waiting | Returned bool

definition send_arrive :: "connection \<Rightarrow> connection" where
  "send_arrive k = k\<lparr>c_waiters := c_waiters k + 1\<rparr>"

definition send_return :: "connection \<Rightarrow> connection \<times> sstat" where
  "send_return k =
     (k\<lparr>c_wpdu := charbuf_new\<rparr>, Returned (\<not> c_dead k \<and> cb_solong (c_wpdu k) = cb_sz (c_wpdu k)))"

definition send_enter ::
  "'s sys_write \<Rightarrow> cell list \<Rightarrow> int \<Rightarrow> connection \<Rightarrow> 's \<Rightarrow> (connection \<times> sstat \<times> 's) res" where
  "send_enter write b sz k s =
     (if \<not> c_dead k \<and> cb_buf (c_wpdu k) \<noteq> None then Inr (k, Blocked, s)
      else let k1 = k\<lparr>c_waiters := c_waiters k - 1\<rparr> in
        if c_dead k then Inr (k1, Returned False, s)
        else rbind (writepdu write \<lparr>cb_buf = Some b, cb_sz = sz, cb_solong = 0\<rparr> s) (\<lambda>(p, ok, s').
          let k2 = k1\<lparr>c_wpdu := p\<rparr> in
          if \<not> ok then case send_return (k2\<lparr>c_dead := True\<rparr>) of (k3, st) \<Rightarrow> Inr (k3, st, s')
          else if cb_solong p = cb_sz p then case send_return k2 of (k3, st) \<Rightarrow> Inr (k3, st, s')
          else Inr (k2, Waiting, s')))"

definition send_wake :: "connection \<Rightarrow> connection \<times> sstat" where
  "send_wake k =
     (if \<not> c_dead k \<and> cb_solong (c_wpdu k) \<ge> 0 \<and> cb_solong (c_wpdu k) < cb_sz (c_wpdu k)
      then (k, Waiting) else send_return k)"

text \<open>\<^verbatim>\<open>write_cb\<close>: the boolean says whether it signals the waiting sender.\<close>

definition write_cb :: "'s sys_write \<Rightarrow> connection \<Rightarrow> 's \<Rightarrow> (connection \<times> bool \<times> 's) res" where
  "write_cb write k s =
     rbind (verify (\<not> c_dead k)) (\<lambda>_.
     if cb_sz (c_wpdu k) = 0 then Inr (k, False, s)
     else rbind (writepdu write (c_wpdu k) s) (\<lambda>(p, ok, s').
       let k1 = k\<lparr>c_wpdu := p\<rparr> in
       if \<not> ok then Inr (k1\<lparr>c_dead := True\<rparr>, True, s')
       else rbind (verify (cb_solong p \<ge> 0)) (\<lambda>_. Inr (k1, \<not> cb_solong p < cb_sz p, s'))))"

text \<open>\<^verbatim>\<open>read_cb\<close>: \<open>accept\<close> is what the channel manager's \<^verbatim>\<open>got_pdu\<close> answers if it is called; the
  second component of the result is the buffer and size it is called with.\<close>

definition read_cb ::
  "'s sys_read \<Rightarrow> bool \<Rightarrow> connection \<Rightarrow> 's \<Rightarrow> (connection \<times> (cell list \<times> int) option \<times> 's) res" where
  "read_cb read accept k s =
     (if c_dead k then Inr (k, None, s)
      else
        rbind (if cb_buf (c_rpdu k) = None \<or> cb_solong (c_rpdu k) < cb_sz (c_rpdu k)
               then readpdu read (c_rpdu k) s else Inr (c_rpdu k, True, s)) (\<lambda>(p, succ, s').
        let k1 = k\<lparr>c_rpdu := p, c_dead := (if succ then c_dead k else True)\<rparr> in
        case cb_buf p of
          None \<Rightarrow> Inr (k1, None, s')
        | Some b \<Rightarrow>
            if cb_sz p = cb_solong p
            then Inr (if accept then k1\<lparr>c_rpdu := charbuf_new\<rparr> else k1, Some (b, cb_sz p), s')
            else Inr (k1, None, s')))"

text \<open>A run of callbacks, with the messages the channel manager accepted.\<close>

fun read_cbs ::
  "'s sys_read \<Rightarrow> bool list \<Rightarrow> connection \<Rightarrow> 's \<Rightarrow> (connection \<times> (cell list \<times> int) list \<times> 's) res" where
  "read_cbs read [] k s = Inr (k, [], s)"
| "read_cbs read (a # as) k s =
     rbind (read_cb read a k s) (\<lambda>(k1, q, s1).
     rbind (read_cbs read as k1 s1) (\<lambda>(k2, ds, s2).
     Inr (k2, (if a then case q of None \<Rightarrow> [] | Some d \<Rightarrow> [d] else []) @ ds, s2)))"

fun write_cbs :: "'s sys_write \<Rightarrow> nat \<Rightarrow> connection \<Rightarrow> 's \<Rightarrow> (connection \<times> 's) res" where
  "write_cbs write 0 k s = Inr (k, s)"
| "write_cbs write (Suc n) k s = rbind (write_cb write k s) (\<lambda>(k1, sig, s1). write_cbs write n k1 s1)"

text \<open>A whole \<^verbatim>\<open>send\<close> by a thread that finds the channel free: if not all of the message went out
  at once, \<open>n\<close> write callbacks happen before the thread wakes up.\<close>

definition conn_send ::
  "'s sys_write \<Rightarrow> nat \<Rightarrow> cell list \<Rightarrow> int \<Rightarrow> connection \<Rightarrow> 's \<Rightarrow> (connection \<times> sstat \<times> 's) res" where
  "conn_send write n b sz k s =
     rbind (send_enter write b sz (send_arrive k) s) (\<lambda>(k1, st, s1).
     if st = Waiting
     then rbind (write_cbs write n k1 s1) (\<lambda>(k2, s2). case send_wake k2 of (k3, st') \<Rightarrow> Inr (k3, st', s2))
     else Inr (k1, st, s1))"

section \<open>The accepting side\<close>

text \<open>\<^verbatim>\<open>tcpsconn::conns_\<close> as the ordered list of its entries. The loop of \<^verbatim>\<open>process_accept\<close> that drops
  dead connections advances its iterator after \<^verbatim>\<open>conns_.erase(i)\<close> has invalidated it.\<close>

fun gc_dead :: "conn_store \<Rightarrow> (int \<times> cid) list \<Rightarrow> conn_store res" where
  "gc_dead h [] = Inr h"
| "gc_dead h ((fd, c) # cs) =
     rbind (isdead h c) (\<lambda>dead.
     rbind (conn_ref h c) (\<lambda>n.
     if dead \<and> n = 1 then rbind (decref h c) (\<lambda>_. Inl UseAfterFree)
     else gc_dead h cs))"

fun conns_put :: "int \<Rightarrow> cid \<Rightarrow> (int \<times> cid) list \<Rightarrow> (int \<times> cid) list" where
  "conns_put fd c [] = [(fd, c)]"
| "conns_put fd c ((fd', c') # cs) =
     (if fd = fd' then (fd, c) # cs
      else if fd < fd' then (fd, c) # (fd', c') # cs
      else (fd', c') # conns_put fd c cs)"

definition process_accept ::
  "conn_store \<Rightarrow> (int \<times> cid) list \<Rightarrow> int \<Rightarrow> cid \<Rightarrow> int \<Rightarrow> int \<Rightarrow> (conn_store \<times> (int \<times> cid) list) res" where
  "process_accept h conns fd ch sec usec =
     rbind (gc_dead (h(ch \<mapsto> connection_new sec usec)) conns) (\<lambda>h'. Inr (h', conns_put fd ch conns))"

fun tcpsconn_delete :: "conn_store \<Rightarrow> (int \<times> cid) list \<Rightarrow> conn_store res" where
  "tcpsconn_delete h [] = Inr h"
| "tcpsconn_delete h ((fd, c) # cs) =
     rbind (closeconn h c) (\<lambda>(_, h1). rbind (decref h1 c) (\<lambda>h2. tcpsconn_delete h2 cs))"

section \<open>The byte stream\<close>

text \<open>What POSIX promises of the two calls: a successful \<^verbatim>\<open>read\<close> returns a nonempty part of what is
  still to be read, no longer than was asked for, a successful \<^verbatim>\<open>write\<close> accepts a prefix of what
  it was offered, and a failing call transfers nothing.\<close>

definition source_ok :: "'s sys_read \<Rightarrow> ('s \<Rightarrow> byte list) \<Rightarrow> bool" where
  "source_ok read rest \<longleftrightarrow>
     (\<forall>n s r s'. read n s = (r, s') \<longrightarrow>
        (case r of
           RdData bs \<Rightarrow> bs \<noteq> [] \<and> length bs \<le> n \<and> rest s = bs @ rest s'
         | RdEof _ \<Rightarrow> rest s' = rest s
         | RdErr _ \<Rightarrow> rest s' = rest s))"

text \<open>A descriptor that has something for every callback and does not cut four bytes.\<close>

definition whole :: "'s sys_read \<Rightarrow> ('s \<Rightarrow> byte list) \<Rightarrow> bool" where
  "whole read rest \<longleftrightarrow>
     (\<forall>n s. 0 < n \<and> rest s \<noteq> [] \<longrightarrow> (\<exists>bs s'. read n s = (RdData bs, s') \<and> (n = 4 \<longrightarrow> length bs = min 4 (length (rest s)))))"

definition sink_ok :: "'s sys_write \<Rightarrow> ('s \<Rightarrow> cell list) \<Rightarrow> bool" where
  "sink_ok write out \<longleftrightarrow>
     (\<forall>b s r s'. write b s = (r, s') \<longrightarrow>
        (case r of
           WrBytes n \<Rightarrow> n \<le> length b \<and> out s' = out s @ take n b
         | WrErr _ \<Rightarrow> out s' = out s))"

text \<open>The bytes of a message on the wire: its size in front, then the message from byte four.\<close>

definition frame :: "byte list \<Rightarrow> byte list" where
  "frame m = enc_u32 (of_nat (length m)) @ drop 4 m"

definition pdu_ok :: "byte list \<Rightarrow> bool" where
  "pdu_ok m \<longleftrightarrow> 4 < length m \<and> int (length m) \<le> MAX_PDU"

text \<open>Where a receiver stands: \<open>ms\<close> is what is still to be delivered of the messages sent and
  \<open>r\<close> the bytes still to be read.\<close>

definition receiving :: "byte list list \<Rightarrow> charbuf \<Rightarrow> byte list \<Rightarrow> bool" where
  "receiving ms p r \<longleftrightarrow>
     p = charbuf_new \<and> r = concat (map frame ms) \<or>
     (\<exists>m ms' i. ms = m # ms' \<and> 4 \<le> i \<and> i \<le> length m \<and>
        p = \<lparr>cb_buf = Some (map Some (take i (frame m)) @ replicate (length m + 4 - i) None),
             cb_sz = int (length m), cb_solong = int i\<rparr> \<and>
        r = drop i (frame m) @ concat (map frame ms'))"

definition pdu_bytes :: "cell list \<times> int \<Rightarrow> cell list" where
  "pdu_bytes d = take (nat (snd d)) (fst d)"

text \<open>A message being read, \<open>i\<close> bytes of which have arrived.\<close>

definition partly :: "byte list \<Rightarrow> nat \<Rightarrow> charbuf" where
  "partly m i =
     \<lparr>cb_buf = Some (map Some (take i (frame m)) @ replicate (length m + 4 - i) None),
      cb_sz = int (length m), cb_solong = int i\<rparr>"

text \<open>The invariant of a receiving connection.\<close>

definition receiver :: "byte list list \<Rightarrow> connection \<Rightarrow> byte list \<Rightarrow> bool" where
  "receiver ms k r \<longleftrightarrow> (\<not> c_dead k \<longrightarrow> receiving ms (c_rpdu k) r)"

text \<open>An alive connection that is in need of bytes.\<close>

definition hungry :: "connection \<Rightarrow> bool" where
  "hungry k \<longleftrightarrow> \<not> c_dead k \<and> (cb_buf (c_rpdu k) = None \<or> cb_solong (c_rpdu k) < cb_sz (c_rpdu k))"

text \<open>A descriptor that returns at most four bytes at a time, and two messages.\<close>

definition chunked :: "byte list sys_read" where
  "chunked n s =
     (if n = 0 \<or> s = [] then (RdErr True, s) else (RdData (take (min n 4) s), drop (min n 4) s))"

definition two_messages :: "byte list list" where
  "two_messages = [[0, 0, 0, 0, 1, 2, 3, 4, 5, 6], [0, 0, 0, 0, 7]]"

text \<open>The cells that \<^verbatim>\<open>send(b, sz)\<close> puts on the wire, and a buffer part of which is out.\<close>

definition frame_cells :: "cell list \<Rightarrow> int \<Rightarrow> cell list" where
  "frame_cells b sz = htonl_cells sz @ take (nat sz - 4) (drop 4 b)"

definition sending :: "cell list \<Rightarrow> int \<Rightarrow> charbuf \<Rightarrow> nat \<Rightarrow> bool" where
  "sending b sz p i \<longleftrightarrow>
     int i \<le> sz \<and> cb_sz p = sz \<and> cb_solong p = int i \<and>
     (\<exists>b'. cb_buf p = Some b' \<and> length b' = length b \<and> drop 4 b' = drop 4 b \<and>
        (0 < i \<longrightarrow> take 4 b' = htonl_cells sz))"

definition transmitting :: "cell list \<Rightarrow> int \<Rightarrow> cell list \<Rightarrow> connection \<Rightarrow> cell list \<Rightarrow> bool" where
  "transmitting b sz o0 k out \<longleftrightarrow>
     (\<exists>i. out = o0 @ take i (frame_cells b sz) \<and> (\<not> c_dead k \<longrightarrow> sending b sz (c_wpdu k) i))"

text \<open>A descriptor that accepts at most the listed numbers of bytes, call by call.\<close>

definition slow_sink :: "(cell list \<times> nat list) sys_write" where
  "slow_sink b s =
     (case s of
        (out, []) \<Rightarrow> (WrErr True, s)
      | (out, n # ns) \<Rightarrow>
          if n = 0 then (WrErr True, (out, ns)) else (WrBytes (min n (length b)), (out @ take (min n (length b)) b, ns)))"

text \<open>The references that are held, per connection, agree with the counts of the objects.\<close>

definition refs_ok :: "conn_store \<Rightarrow> (cid \<Rightarrow> nat) \<Rightarrow> bool" where
  "refs_ok h R \<longleftrightarrow>
     (\<forall>c. h c = None \<longrightarrow> R c = 0) \<and>
     (\<forall>c k. h c = Some k \<longrightarrow> c_refno k = int (R c) \<and> (c_dead k \<longrightarrow> 0 < R c))"

section \<open>Receiving\<close>

lemma length_frame [simp]: "pdu_ok m \<Longrightarrow> length (frame m) = length m"
  by (auto simp: frame_def pdu_ok_def enc_u32_def)

lemma take4_frame: "take 4 (frame m) = enc_u32 (of_nat (length m))"
  by (simp add: frame_def enc_u32_def)

lemma ntohl_enc: "ntohl (enc_u32 x) = sint x"
  by (simp add: enc_u32_def u32_of_bytes)

lemma sint_pdu_size: "pdu_ok m \<Longrightarrow> sint (of_nat (length m) :: u32) = int (length m)"
  by (simp add: pdu_ok_def MAX_PDU_def signed_of_nat signed_take_bit_int_eq_self)

lemma size_t_nonneg: "0 \<le> i \<Longrightarrow> i < 2 ^ 64 \<Longrightarrow> size_t i = nat i"
  by (simp add: size_t_def)

lemma receiving_cases:
  assumes "receiving ms p r"
  obtains (idle) "p = charbuf_new" "r = concat (map frame ms)"
    | (busy) m ms' i where "ms = m # ms'" "4 \<le> i" "i \<le> length m" "p = partly m i"
        "r = drop i (frame m) @ concat (map frame ms')"
  using assms by (auto simp: receiving_def partly_def)

lemma receiving_partly:
  "4 \<le> i \<Longrightarrow> i \<le> length m \<Longrightarrow> r = drop i (frame m) @ concat (map frame ms) \<Longrightarrow>
   receiving (m # ms) (partly m i) r"
  by (auto simp: receiving_def partly_def)

lemma source_data:
  assumes "source_ok read rest" "read n s = (RdData bs, s')"
  shows "bs \<noteq> []" "length bs \<le> n" "rest s = bs @ rest s'"
  using assms by (fastforce simp: source_ok_def)+

lemma source_nothing:
  assumes "source_ok read rest" "read n s = (RdEof e, s') \<or> read n s = (RdErr e, s')"
  shows "rest s' = rest s"
  using assms by (fastforce simp: source_ok_def)

lemma chunk_split:
  assumes "bs @ r = xs @ ys" "length bs \<le> length xs"
  shows "bs = take (length bs) xs" "r = drop (length bs) xs @ ys"
  using assms append_eq_conv_conj [of bs r "xs @ ys"] by simp_all

lemma read_body_receives:
  assumes "source_ok read rest" "pdu_ok m" "4 \<le> i" "i \<le> length m"
    and "rest s = drop i (frame m) @ concat (map frame ms)"
    and "read (length m - i) s = (r, s')"
  shows "\<exists>p ok. read_body r (partly m i) = Inr (p, ok) \<and>
    (if ok then receiving (m # ms) p (rest s') else p = charbuf_new)"
proof (cases r)
  case (RdData bs)
  note d = source_data [OF assms(1) assms(6) [unfolded RdData]]
  have len: "length bs \<le> length (drop i (frame m))" using d(2) assms(2) by simp
  note c = chunk_split [OF trans [OF d(3) [symmetric] assms(5)] len]
  have t: "take i (frame m) @ bs = take (i + length bs) (frame m)"
    using c(1) by (simp add: take_add)
  have "read_body r (partly m i) = Inr (partly m (i + length bs), True)"
    using RdData d(2) assms(2,4) t by (simp add: read_body_def partly_def flip: map_append)
  moreover have "rest s' = drop (i + length bs) (frame m) @ concat (map frame ms)"
    using c(2) by (simp add: add.commute)
  ultimately show ?thesis using d(2) assms(3,4) by (auto simp: receiving_partly)
next
  case (RdEof again)
  with assms source_nothing [OF assms(1), of "length m - i" s again s'] show ?thesis
    by (cases again) (auto simp: read_body_def receiving_partly)
next
  case (RdErr again)
  with assms source_nothing [OF assms(1), of "length m - i" s again s'] show ?thesis
    by (cases again) (auto simp: read_body_def receiving_partly)
qed

lemma read_size_new:
  assumes "pdu_ok m"
  shows "read_size (RdData (take 4 (frame m))) charbuf_new = Inr (Some (partly m 4))"
  using assms
  by (simp add: read_size_def take4_frame ntohl_enc sint_pdu_size Let_def charbuf_new_def partly_def)
    (simp add: pdu_ok_def)

lemma readpdu_receives:
  assumes "source_ok read rest" "\<forall>m \<in> set ms. pdu_ok m" "receiving ms p (rest s)"
    and "cb_buf p = None \<or> cb_solong p < cb_sz p"
  shows "case readpdu read p s of
      Inl f \<Rightarrow> f = Abort
    | Inr (p', ok, s') \<Rightarrow> if ok then receiving ms p' (rest s') else p' = charbuf_new"
  using assms(3)
proof (cases rule: receiving_cases)
  case idle
  obtain r s1 where r: "read 4 s = (r, s1)" by fastforce
  show ?thesis
  proof (cases "\<exists>bs. r = RdData bs \<and> length bs = 4")
    case False
    with idle r show ?thesis
      by (auto simp: readpdu_def charbuf_new_def read_size_def verify_def split: rd.splits)
  next
    case True
    then obtain bs where bs: "r = RdData bs" "length bs = 4" by blast
    note d = source_data [OF assms(1) r [unfolded bs]]
    with idle(2) obtain m ms' where ms: "ms = m # ms'" by (cases ms) auto
    with assms(2) have m: "pdu_ok m" by simp
    have "bs @ rest s1 = frame m @ concat (map frame ms')" using d(3) idle(2) ms by simp
    note c = chunk_split [OF this, unfolded bs(2) length_frame [OF m]]
    have le: "4 \<le> length m" using m by (simp add: pdu_ok_def)
    obtain r2 s2 where r2: "read (length m - 4) s1 = (r2, s2)" by fastforce
    have "size_t (int (length m) - 4) = length m - 4"
      using m by (simp add: size_t_def pdu_ok_def MAX_PDU_def)
    moreover from read_body_receives [OF assms(1) m _ le c(2) [OF le] r2] obtain p2 ok where
      "read_body r2 (partly m 4) = Inr (p2, ok)"
      "if ok then receiving (m # ms') p2 (rest s2) else p2 = charbuf_new" by auto
    moreover have "read_size r charbuf_new = Inr (Some (partly m 4))"
      using read_size_new [OF m] c(1) [OF le] bs(1) by simp
    ultimately show ?thesis
      using idle(1) r r2 ms by (simp add: readpdu_def partly_def charbuf_new_def)
  qed
next
  case (busy m ms' i)
  then have m: "pdu_ok m" using assms(2) by simp
  have lt: "i < length m" using assms(4) busy(4) by (simp add: partly_def)
  obtain r2 s2 where r2: "read (length m - i) s = (r2, s2)" by fastforce
  have "size_t (int (length m) - int i) = length m - i"
    using m lt by (simp add: size_t_def pdu_ok_def MAX_PDU_def)
  moreover from read_body_receives [OF assms(1) m busy(2,3,5) r2] obtain p2 ok where
    "read_body r2 (partly m i) = Inr (p2, ok)"
    "if ok then receiving (m # ms') p2 (rest s2) else p2 = charbuf_new" by auto
  ultimately show ?thesis
    using busy(1,4) r2 lt by (cases "m = []") (simp_all add: readpdu_def partly_def)
qed

lemma receiving_offer:
  assumes "receiving ms p r" "\<forall>m \<in> set ms. pdu_ok m"
  shows "case cb_buf p of
      None \<Rightarrow> True
    | Some b \<Rightarrow> cb_sz p = cb_solong p \<longrightarrow>
        (\<exists>m ms'. ms = m # ms' \<and> pdu_bytes (b, cb_sz p) = map Some (frame m) \<and>
          receiving ms' charbuf_new r)"
  using assms(1)
proof (cases rule: receiving_cases)
  case idle
  then show ?thesis by (simp add: charbuf_new_def)
next
  case (busy m ms' i)
  with assms(2) show ?thesis by (auto simp: partly_def pdu_bytes_def receiving_def)
qed

lemma read_cb_receives:
  assumes "source_ok read rest" "\<forall>m \<in> set ms. pdu_ok m" "receiver ms k (rest s)"
  shows "case read_cb read a k s of
      Inl f \<Rightarrow> f = Abort
    | Inr (k', q, s') \<Rightarrow>
        if a \<and> q \<noteq> None
        then \<exists>m ms'. ms = m # ms' \<and> pdu_bytes (the q) = map Some (frame m) \<and> receiver ms' k' (rest s')
        else receiver ms k' (rest s')"
proof (cases "c_dead k")
  case True
  then show ?thesis by (simp add: read_cb_def receiver_def)
next
  case False
  then have r: "receiving ms (c_rpdu k) (rest s)" using assms(3) by (simp add: receiver_def)
  let ?r = "if cb_buf (c_rpdu k) = None \<or> cb_solong (c_rpdu k) < cb_sz (c_rpdu k)
    then readpdu read (c_rpdu k) s else Inr (c_rpdu k, True, s)"
  have "case ?r of Inl f \<Rightarrow> f = Abort
    | Inr (p', ok, s') \<Rightarrow> if ok then receiving ms p' (rest s') else p' = charbuf_new"
    using readpdu_receives [OF assms(1,2) r] r by simp
  then consider "?r = Inl Abort"
    | p ok s' where "?r = Inr (p, ok, s')" "if ok then receiving ms p (rest s') else p = charbuf_new"
    by (auto split: sum.splits)
  then show ?thesis
  proof cases
    case 1
    with False show ?thesis by (simp add: read_cb_def)
  next
    case (2 p ok s')
    show ?thesis
    proof (cases ok)
      case True
      with 2(2) receiving_offer [OF _ assms(2), of p "rest s'"] show ?thesis
        unfolding read_cb_def 2(1)
        by (auto simp: False receiver_def Let_def split: option.splits)
    next
      case False
      with 2(2) show ?thesis
        unfolding read_cb_def 2(1) by (simp add: \<open>\<not> c_dead k\<close> receiver_def charbuf_new_def)
    qed
  qed
qed

lemma read_cbs_receives:
  assumes "source_ok read rest"
  shows "\<forall>m \<in> set ms. pdu_ok m \<Longrightarrow> receiver ms k (rest s) \<Longrightarrow>
    case read_cbs read as k s of
      Inl f \<Rightarrow> f = Abort
    | Inr (k', ds, s') \<Rightarrow> \<exists>i. i \<le> length ms \<and>
        map pdu_bytes ds = map (map Some \<circ> frame) (take i ms) \<and> receiver (drop i ms) k' (rest s')"
proof (induction as arbitrary: ms k s)
  case Nil
  then show ?case by (auto intro!: exI [of _ 0])
next
  case (Cons a as)
  show ?case
  proof (cases "read_cb read a k s")
    case (Inl f)
    with read_cb_receives [OF assms Cons.prems, of a] show ?thesis by simp
  next
    case (Inr t)
    then obtain k1 q s1 where st: "read_cb read a k s = Inr (k1, q, s1)" by (cases t) auto
    note c = read_cb_receives [OF assms Cons.prems, of a, unfolded st, simplified]
    show ?thesis
    proof (cases "a \<and> q \<noteq> None")
      case True
      with c obtain m ms' where ms: "ms = m # ms'" "pdu_bytes (the q) = map Some (frame m)"
        "receiver ms' k1 (rest s1)" by auto
      with Cons.IH [of ms' k1 s1] Cons.prems(1) True st show ?thesis
        by (force split: sum.splits intro: exI [of _ "Suc _"])
    next
      case False
      with c have "receiver ms k1 (rest s1)" by (auto split: if_splits)
      moreover have "(if a then case q of None \<Rightarrow> [] | Some d \<Rightarrow> [d] else []) = []"
        using False by (cases q) auto
      ultimately show ?thesis using Cons.IH [OF Cons.prems(1), of k1 s1] st
        by (auto split: sum.splits)
    qed
  qed
qed

lemma read_cb_readpdu:
  assumes "hungry k" "readpdu read (c_rpdu k) s = Inr (partly m i, True, s')" "i \<le> length m"
  shows "\<exists>k' q. read_cb read True k s = Inr (k', q, s') \<and> hungry k'"
  using assms by (cases "i = length m") (auto simp: read_cb_def hungry_def partly_def charbuf_new_def Let_def)

lemma readpdu_body:
  assumes "source_ok read rest" "whole read rest" "pdu_ok m" "4 \<le> i" "i < length m"
    and "rest s = drop i (frame m) @ concat (map frame ms)"
  shows "\<exists>j s'. read (length m - i) s = (RdData (take (j - i) (drop i (frame m))), s') \<and> i < j \<and> j \<le> length m \<and>
    read_body (RdData (take (j - i) (drop i (frame m)))) (partly m i) = Inr (partly m j, True) \<and>
    length (rest s') < length (rest s)"
proof -
  have "rest s \<noteq> []" using assms(3,5,6) by auto
  moreover have "0 < length m - i" using assms(5) by simp
  ultimately obtain bs s' where r: "read (length m - i) s = (RdData bs, s')" using assms(2) unfolding whole_def by blast
  note d = source_data [OF assms(1) r]
  have len: "length bs \<le> length (drop i (frame m))" using d(2) assms(3) by simp
  note c = chunk_split [OF trans [OF d(3) [symmetric] assms(6)] len]
  have t: "take i (frame m) @ bs = take (i + length bs) (frame m)" using c(1) by (simp add: take_add)
  have "read_body (RdData bs) (partly m i) = Inr (partly m (i + length bs), True)"
    using d(2) assms(3,5) t by (simp add: read_body_def partly_def flip: map_append)
  with r c(1) d assms(5) show ?thesis by (intro exI [of _ "i + length bs"] exI [of _ s']) auto
qed

lemma read_cb_progress:
  assumes "source_ok read rest" "whole read rest" "\<forall>m \<in> set ms. pdu_ok m"
    and "receiver ms k (rest s)" "hungry k" "rest s \<noteq> []"
  shows "\<exists>k' q s'. read_cb read True k s = Inr (k', q, s') \<and> hungry k' \<and> length (rest s') < length (rest s)"
proof -
  have "receiving ms (c_rpdu k) (rest s)" using assms(4,5) by (simp add: receiver_def hungry_def)
  then show ?thesis
  proof (cases rule: receiving_cases)
    case idle
    with assms(6) obtain m ms' where ms: "ms = m # ms'" by (cases ms) auto
    with assms(3) have m: "pdu_ok m" by simp
    then have le: "4 \<le> length m" "4 < length m" by (simp_all add: pdu_ok_def)
    from assms(2,6) obtain bs s1 where r1: "read 4 s = (RdData bs, s1)" "length bs = min 4 (length (rest s))"
      unfolding whole_def by (metis zero_less_numeral)
    have "4 \<le> length (rest s)" using idle(2) ms m le by simp
    with r1 have r: "read 4 s = (RdData bs, s1)" "length bs = 4" by simp_all
    note d = source_data [OF assms(1) r(1)]
    have "bs @ rest s1 = frame m @ concat (map frame ms')" using d(3) idle(2) ms by simp
    note c = chunk_split [OF this, unfolded r(2) length_frame [OF m]]
    from readpdu_body [OF assms(1,2) m _ le(2) c(2) [OF le(1)]] obtain j s2 where j:
      "read (length m - 4) s1 = (RdData (take (j - 4) (drop 4 (frame m))), s2)" "j \<le> length m"
      "read_body (RdData (take (j - 4) (drop 4 (frame m)))) (partly m 4) = Inr (partly m j, True)"
      "length (rest s2) < length (rest s1)" by auto
    have "size_t (int (length m) - 4) = length m - 4" using m by (simp add: size_t_def pdu_ok_def MAX_PDU_def)
    moreover have "read_size (RdData bs) charbuf_new = Inr (Some (partly m 4))"
      using read_size_new [OF m] c(1) [OF le(1)] by simp
    ultimately have "readpdu read (c_rpdu k) s = Inr (partly m j, True, s2)"
      using idle(1) r(1) j(1,3) by (simp add: readpdu_def partly_def charbuf_new_def)
    from read_cb_readpdu [OF assms(5) this j(2)] j(4) d(3) show ?thesis by fastforce
  next
    case (busy m ms' i)
    then have m: "pdu_ok m" using assms(3) by simp
    have lt: "i < length m" using assms(5) busy(4) by (simp add: hungry_def partly_def)
    from readpdu_body [OF assms(1,2) m busy(2) lt busy(5)] obtain j s2 where j:
      "read (length m - i) s = (RdData (take (j - i) (drop i (frame m))), s2)" "j \<le> length m"
      "read_body (RdData (take (j - i) (drop i (frame m)))) (partly m i) = Inr (partly m j, True)"
      "length (rest s2) < length (rest s)" by auto
    have "size_t (int (length m) - int i) = length m - i" using m lt by (simp add: size_t_def pdu_ok_def MAX_PDU_def)
    with busy(4) lt j(1,3) have "readpdu read (c_rpdu k) s = Inr (partly m j, True, s2)"
      by (cases "m = []") (simp_all add: readpdu_def partly_def)
    from read_cb_readpdu [OF assms(5) this j(2)] j(4) show ?thesis by fastforce
  qed
qed

lemma read_cbs_progress:
  assumes "source_ok read rest" "whole read rest" "\<forall>m \<in> set ms. pdu_ok m" "receiver ms k (rest s)" "hungry k"
  shows "\<exists>n k' ds s'. n \<le> length (rest s) \<and> read_cbs read (replicate n True) k s = Inr (k', ds, s') \<and> hungry k' \<and> rest s' = []"
  using assms(3-)
proof (induction "length (rest s)" arbitrary: ms k s rule: less_induct)
  case less
  show ?case
  proof (cases "rest s = []")
    case True
    with less.prems(3) show ?thesis by (intro exI [of _ 0]) simp
  next
    case False
    from read_cb_progress [OF assms(1,2) less.prems False] obtain k1 q s1 where st: "read_cb read True k s = Inr (k1, q, s1)"
      and k1: "hungry k1" "length (rest s1) < length (rest s)" by blast
    from read_cb_receives [OF assms(1) less.prems(1,2), of True] obtain ms' where "receiver ms' k1 (rest s1)" "set ms' \<subseteq> set ms"
      by (cases "q = None") (auto simp: st intro: that)
    with less.hyps [OF k1(2), of ms' k1] k1 less.prems(1) obtain n k' ds s' where n: "n \<le> length (rest s1)"
      "read_cbs read (replicate n True) k1 s1 = Inr (k', ds, s')" "hungry k'" "rest s' = []" by blast
    then show ?thesis using st k1(2) by (intro exI [of _ "Suc n"]) auto
  qed
qed

lemma receiver_done:
  assumes "\<forall>m \<in> set ms. pdu_ok m" "i \<le> length ms" "receiver (drop i ms) k []" "\<not> c_dead k"
  shows "i = length ms \<or> Suc i = length ms \<and> cb_solong (c_rpdu k) = cb_sz (c_rpdu k) \<and> cb_buf (c_rpdu k) \<noteq> None"
proof -
  have ok: "\<forall>m \<in> set (drop i ms). pdu_ok m" using assms(1) by (blast dest: in_set_dropD)
  from assms(3,4) have "receiving (drop i ms) (c_rpdu k) []" by (simp add: receiver_def)
  then show ?thesis
  proof (cases rule: receiving_cases)
    case idle
    have "drop i ms = []"
    proof (cases "drop i ms")
      case (Cons m ms')
      with ok have "frame m \<noteq> []" by (auto simp: frame_def enc_u32_def)
      with idle(2) Cons show ?thesis by simp
    qed simp
    with assms(2) show ?thesis by simp
  next
    case (busy m ms' j)
    have "ms' = []"
    proof (cases ms')
      case (Cons m2 ms2)
      with busy(5) show ?thesis by (auto simp: frame_def enc_u32_def)
    qed simp
    with busy(1) assms(2) have "Suc i = length ms"
      by (metis length_drop length_Cons list.size(3) le_add_diff_inverse2 plus_1_eq_Suc One_nat_def)
    moreover have "j = length m" using busy ok by simp
    ultimately show ?thesis using busy(4) by (simp add: partly_def)
  qed
qed

text \<open>(C8) Framing. However the byte stream is cut into reads, whatever errors interrupt it and
  whenever the channel manager refuses a message, the messages that \<^verbatim>\<open>read_cb\<close> hands over and that
  are accepted are a prefix of those sent, each once and unchanged, in order; while the
  connection is alive and the stream is read to its end, only a last message that the manager
  refused can be missing; and the only fault is the failed \<^verbatim>\<open>VERIFY\<close> when a callback finds nothing to
  read where a size is expected. A read that cuts the four bytes of a size ends the connection. If no read does, every callback finds
  something, and nothing is refused, then all messages are delivered, the connection stays alive, and
  this takes no more callbacks than there are bytes.\<close>

theorem framing_delivers:
  assumes "source_ok read rest" "\<forall>m \<in> set ms. pdu_ok m" "rest s = concat (map frame ms)"
  shows "(case read_cbs read as (connection_new sec usec) s of
      Inl f \<Rightarrow> f = Abort
    | Inr (k, ds, s') \<Rightarrow> \<exists>i. i \<le> length ms \<and> map pdu_bytes ds = map (map Some \<circ> frame) (take i ms) \<and>
        (\<not> c_dead k \<and> rest s' = [] \<longrightarrow>
           i = length ms \<or> Suc i = length ms \<and> cb_solong (c_rpdu k) = cb_sz (c_rpdu k))) \<and>
    (whole read rest \<longrightarrow>
      (\<exists>n k ds s'. n \<le> length (rest s) \<and> read_cbs read (replicate n True) (connection_new sec usec) s = Inr (k, ds, s') \<and>
         \<not> c_dead k \<and> rest s' = [] \<and> map pdu_bytes ds = map (map Some \<circ> frame) ms)) \<and>
    (\<forall>k s0 bs s1. \<not> c_dead k \<and> c_rpdu k = charbuf_new \<and> read 4 s0 = (RdData bs, s1) \<and> length bs < 4 \<longrightarrow>
      (\<exists>k'. read_cb read a k s0 = Inr (k', None, s1) \<and> c_dead k'))"
proof -
  let ?k = "connection_new sec usec"
  have rc: "receiver ms ?k (rest s)" using assms(3) by (simp add: receiver_def receiving_def connection_new_def)
  note r = read_cbs_receives [OF assms(1,2) rc] and fin = receiver_done [OF assms(2)]
  have "case read_cbs read as ?k s of
      Inl f \<Rightarrow> f = Abort
    | Inr (k, ds, s') \<Rightarrow> \<exists>i. i \<le> length ms \<and> map pdu_bytes ds = map (map Some \<circ> frame) (take i ms) \<and>
        (\<not> c_dead k \<and> rest s' = [] \<longrightarrow>
           i = length ms \<or> Suc i = length ms \<and> cb_solong (c_rpdu k) = cb_sz (c_rpdu k))"
    using r [of as] fin by (fastforce split: sum.splits)
  moreover have "\<exists>n k ds s'. n \<le> length (rest s) \<and> read_cbs read (replicate n True) ?k s = Inr (k, ds, s') \<and>
      \<not> c_dead k \<and> rest s' = [] \<and> map pdu_bytes ds = map (map Some \<circ> frame) ms" if "whole read rest"
  proof -
    have "hungry ?k" by (simp add: hungry_def connection_new_def charbuf_new_def)
    from read_cbs_progress [OF assms(1) that assms(2) rc this] obtain n k ds s' where n: "n \<le> length (rest s)"
      "read_cbs read (replicate n True) ?k s = Inr (k, ds, s')" "hungry k" "rest s' = []" by blast
    with r [of "replicate n True"] obtain i where i: "i \<le> length ms" "map pdu_bytes ds = map (map Some \<circ> frame) (take i ms)"
      "receiver (drop i ms) k []" by auto
    from fin [OF i(1,3)] n(3) have "i = length ms" by (auto simp: hungry_def)
    with i(2) n show ?thesis by (auto simp: hungry_def)
  qed
  moreover have "\<exists>k'. read_cb read a k s0 = Inr (k', None, s1) \<and> c_dead k'"
    if "\<not> c_dead k \<and> c_rpdu k = charbuf_new \<and> read 4 s0 = (RdData bs, s1) \<and> length bs < 4" for k s0 bs s1
    using that by (auto simp: read_cb_def readpdu_def read_size_def charbuf_new_def)
  ultimately show ?thesis by blast
qed

lemma framing_delivers_witness:
  "(\<exists>k ds. read_cbs chunked [True, False, True, True] (connection_new 0 0)
       (concat (map frame two_messages)) = Inr (k, ds, []) \<and> length ds = 2 \<and> \<not> c_dead k \<and>
     (\<exists>i \<le> 2. map pdu_bytes ds = map (map Some \<circ> frame) (take i two_messages))) \<and>
   (\<exists>n k ds. n \<le> 15 \<and> read_cbs chunked (replicate n True) (connection_new 0 0) (concat (map frame two_messages)) = Inr (k, ds, []) \<and>
      \<not> c_dead k \<and> map pdu_bytes ds = map (map Some \<circ> frame) two_messages)"
proof -
  have src: "source_ok chunked id" "whole chunked id"
    by (auto simp: source_ok_def whole_def chunked_def split: if_splits)
  have ok: "\<forall>m \<in> set two_messages. pdu_ok m"
    by (simp add: two_messages_def pdu_ok_def MAX_PDU_def)
  have len: "length (concat (map frame two_messages)) = 15" by (simp add: two_messages_def frame_def enc_u32_def)
  have "\<exists>k ds. read_cbs chunked [True, False, True, True] (connection_new 0 0)
       (concat (map frame two_messages)) = Inr (k, ds, []) \<and> length ds = 2 \<and> \<not> c_dead k"
    by (simp add: two_messages_def frame_def connection_new_def read_cb_def readpdu_def charbuf_new_def
        chunked_def enc_u32_def read_size_def read_body_def MAX_PDU_def size_t_def Let_def)
  with framing_delivers [OF src(1) ok, of "concat (map frame two_messages)" "[True, False, True, True]" 0 0] src(2) len
  show ?thesis by (fastforce simp: two_messages_def)
qed

text \<open>(C38) A message whose size field is negative stops the receiving process: a size from \<open>-4\<close> to
  \<open>-1\<close> passes the test against \<^verbatim>\<open>MAX_PDU\<close>, allocates fewer than four bytes and copies the four
  bytes of the size over them, and any smaller one makes \<^verbatim>\<open>malloc\<close> fail and the \<^verbatim>\<open>VERIFY\<close> that
  follows abort.\<close>

theorem negative_size_faults:
  assumes "read 4 s = (RdData (enc_u32 n), s1)" "sint n < 0"
  shows "read_cb read a (connection_new sec usec) s =
    Inl (if sint n \<ge> -4 then OutOfBounds else Abort)"
proof -
  have "length (enc_u32 n) = 4" by (simp add: enc_u32_def)
  with assms show ?thesis
    by (simp add: read_cb_def connection_new_def charbuf_new_def readpdu_def read_size_def ntohl_enc
        Let_def MAX_PDU_def verify_def)
qed

lemma negative_size_faults_witness:
  "read_cb chunked True (connection_new 0 0) (enc_u32 (-2)) = Inl OutOfBounds \<and>
   read_cb chunked True (connection_new 0 0) (enc_u32 (-9)) = Inl Abort"
proof -
  have "chunked 4 (enc_u32 n) = (RdData (enc_u32 n), [])" for n
    by (simp add: chunked_def enc_u32_def)
  from negative_size_faults [where read = chunked, OF this, of "-2" True 0 0]
    negative_size_faults [where read = chunked, OF this, of "-9" True 0 0]
  show ?thesis by simp
qed

section \<open>Sending\<close>

lemma length_htonl [simp]: "length (htonl_cells n) = 4"
  by (simp add: htonl_cells_def enc_u32_def)

lemma framed_buffer:
  assumes "take 4 b' = htonl_cells sz" "drop 4 b' = drop 4 b" "4 \<le> sz"
  shows "take (nat sz) b' = frame_cells b sz"
proof -
  have "take (nat sz) b' = take 4 b' @ take (nat sz - 4) (drop 4 b')"
    using take_add [of 4 "nat sz - 4" b'] assms(3) by simp
  then show ?thesis by (simp add: assms(1,2) frame_cells_def)
qed

lemma sink_bytes:
  assumes "sink_ok write out" "write b s = (WrBytes n, s')"
  shows "n \<le> length b" "out s' = out s @ take n b"
  using assms by (fastforce simp: sink_ok_def)+

lemma sink_nothing:
  assumes "sink_ok write out" "write b s = (WrErr e, s')"
  shows "out s' = out s"
  using assms by (fastforce simp: sink_ok_def)

lemma writepdu_sends:
  assumes "sink_ok write out" "4 \<le> sz" "sz \<le> int (length b)" "sz < 2 ^ 31" "sending b sz p i"
  shows "case writepdu write p s of
      Inl f \<Rightarrow> False
    | Inr (p', ok, s') \<Rightarrow>
        if ok then \<exists>j. i \<le> j \<and> sending b sz p' j \<and> out s' = out s @ take (j - i) (drop i (frame_cells b sz))
        else out s' = out s"
proof (cases "int i = sz")
  case True
  with assms(5) have "writepdu write p s = Inr (p, True, s)"
    by (simp add: writepdu_def sending_def)
  with assms(5) show ?thesis by (simp add: exI [of _ i])
next
  case False
  from assms(5) obtain b' where b': "cb_buf p = Some b'" "length b' = length b"
    "drop 4 b' = drop 4 b" "0 < i \<Longrightarrow> take 4 b' = htonl_cells sz"
    and p: "cb_sz p = sz" "cb_solong p = int i" "int i < sz"
    using False by (auto simp: sending_def)
  define b2 where "b2 = (if i = 0 then htonl_cells sz @ drop 4 b' else b')"
  have b2: "take 4 b2 = htonl_cells sz" "drop 4 b2 = drop 4 b" "length b2 = length b"
    using b' assms(2,3) by (auto simp: b2_def)
  have n: "size_t (sz - int i) = nat sz - i" "nat sz - i \<le> length b2 - i"
    using p(3) assms(3,4) b2(3) by (auto simp: size_t_def)
  have d: "take (nat sz - i) (drop i b2) = drop i (frame_cells b sz)"
    by (simp add: drop_take flip: framed_buffer [OF b2(1,2) assms(2)])
  obtain r s' where w: "write (drop i (frame_cells b sz)) s = (r, s')" by fastforce
  have wp: "writepdu write p s = (let p1 = p\<lparr>cb_buf := Some b2\<rparr> in case (r, s') of
      (WrErr again, s') \<Rightarrow>
        if \<not> again then Inr (p1\<lparr>cb_solong := -1, cb_sz := 0\<rparr>, False, s') else Inr (p1, True, s')
    | (WrBytes m, s') \<Rightarrow> Inr (p1\<lparr>cb_solong := cb_solong p + int m\<rparr>, True, s'))"
  proof -
    have "fill_size p b' = Inr b2"
      using p b'(2) assms(2,3) by (simp add: b2_def fill_size_def)
    then show ?thesis
      using p b'(1) n b2(3) by (simp add: writepdu_def d w)
  qed
  have lf: "length (drop i (frame_cells b sz)) = nat sz - i"
    unfolding d [symmetric] using n(2) by simp
  show ?thesis
  proof (cases r)
    case (WrBytes m)
    note m = sink_bytes [OF assms(1) w [unfolded WrBytes], unfolded lf]
    then have "sending b sz (p\<lparr>cb_buf := Some b2, cb_solong := int i + int m\<rparr>) (i + m)"
      using p b2 by (auto simp: sending_def)
    then show ?thesis using wp WrBytes m(2) p(2) by (simp add: exI [of _ "i + m"])
  next
    case (WrErr again)
    have "out s' = out s" using sink_nothing [OF assms(1) w [unfolded WrErr]] .
    moreover have "sending b sz (p\<lparr>cb_buf := Some b2\<rparr>) i" using p b2 by (auto simp: sending_def)
    ultimately show ?thesis using wp WrErr by (cases again) (simp_all add: exI [of _ i])
  qed
qed

lemma take_more: "i \<le> j \<Longrightarrow> take i xs @ take (j - i) (drop i xs) = take j xs"
  by (metis le_add_diff_inverse take_add)

lemma length_frame_cells: "4 \<le> sz \<Longrightarrow> sz \<le> int (length b) \<Longrightarrow> length (frame_cells b sz) = nat sz"
  by (auto simp: frame_cells_def)

lemma write_cb_transmits:
  assumes "sink_ok write out" "4 \<le> sz" "sz \<le> int (length b)" "sz < 2 ^ 31"
    and "transmitting b sz o0 k (out s)" "write_cb write k s = Inr (k', sig, s')"
  shows "transmitting b sz o0 k' (out s')"
proof -
  from assms(6) have alive: "\<not> c_dead k" by (cases "c_dead k") (simp_all add: write_cb_def)
  with assms(5) obtain i where i: "out s = o0 @ take i (frame_cells b sz)" "sending b sz (c_wpdu k) i"
    by (auto simp: transmitting_def)
  then have "cb_sz (c_wpdu k) \<noteq> 0" using assms(2) by (simp add: sending_def)
  with assms(6) obtain p ok where p: "writepdu write (c_wpdu k) s = Inr (p, ok, s')"
    and k': "k' = (if ok then k\<lparr>c_wpdu := p\<rparr> else k\<lparr>c_wpdu := p, c_dead := True\<rparr>)"
    by (auto simp: write_cb_def alive rbind_eq_Inr Let_def split: if_splits)
  from writepdu_sends [OF assms(1-4) i(2), of s, unfolded p] show ?thesis
    using i(1) k' by (cases ok) (auto simp: transmitting_def take_more)
qed

lemma write_cbs_transmit:
  assumes "sink_ok write out" "4 \<le> sz" "sz \<le> int (length b)" "sz < 2 ^ 31"
  shows "transmitting b sz o0 k (out s) \<Longrightarrow> write_cbs write n k s = Inr (k', s') \<Longrightarrow>
    transmitting b sz o0 k' (out s')"
proof (induction n arbitrary: k s)
  case (Suc n)
  from Suc.prems(2) obtain k1 sig s1 where
    "write_cb write k s = Inr (k1, sig, s1)" "write_cbs write n k1 s1 = Inr (k', s')"
    by (auto simp: rbind_eq_Inr)
  then show ?case using Suc.IH write_cb_transmits [OF assms Suc.prems(1)] by blast
qed simp

lemma send_return_transmits:
  assumes "4 \<le> sz" "sz \<le> int (length b)" "transmitting b sz o0 k out" "send_return k = (k', st)"
  shows "\<exists>i. out = o0 @ take i (frame_cells b sz)"
    "st = Returned True \<Longrightarrow> out = o0 @ frame_cells b sz" "cb_buf (c_wpdu k') = None" "st \<noteq> Waiting"
    "c_dead k' = c_dead k"
  using assms length_frame_cells [OF assms(1,2)]
  by (auto simp: send_return_def transmitting_def sending_def charbuf_new_def)

lemma send_wake_transmits:
  assumes "4 \<le> sz" "sz \<le> int (length b)" "transmitting b sz o0 k out" "send_wake k = (k', st)"
  shows "(\<exists>i. out = o0 @ take i (frame_cells b sz)) \<and>
    (st = Returned True \<longrightarrow> out = o0 @ frame_cells b sz) \<and>
    (st = Returned False \<longrightarrow> c_dead k') \<and> (st \<noteq> Waiting \<longrightarrow> cb_buf (c_wpdu k') = None)"
proof (cases "send_wake k = (k, Waiting)")
  case True
  with assms(3,4) show ?thesis by (auto simp: transmitting_def)
next
  case False
  then have r: "send_return k = (k', st)"
    and stop: "c_dead k \<or> \<not> (0 \<le> cb_solong (c_wpdu k) \<and> cb_solong (c_wpdu k) < cb_sz (c_wpdu k))"
    using assms(4) by (auto simp: send_wake_def split: if_splits)
  have "c_dead k" if "st = Returned False"
    using that r stop assms(3) by (auto simp: send_return_def transmitting_def sending_def)
  with send_return_transmits [OF assms(1-3) r] show ?thesis by blast
qed

lemma send_enter_transmits:
  assumes "sink_ok write out" "4 \<le> sz" "sz \<le> int (length b)" "sz < 2 ^ 31"
    and "\<not> c_dead k" "cb_buf (c_wpdu k) = None"
  shows "case send_enter write b sz k s of
      Inl f \<Rightarrow> False
    | Inr (k1, st, s1) \<Rightarrow>
        if st = Waiting then transmitting b sz (out s) k1 (out s1)
        else (\<exists>i. out s1 = out s @ take i (frame_cells b sz)) \<and>
          (st = Returned True \<longrightarrow> out s1 = out s @ frame_cells b sz) \<and>
          (st = Returned False \<longrightarrow> c_dead k1) \<and> cb_buf (c_wpdu k1) = None"
proof -
  let ?p = "\<lparr>cb_buf = Some b, cb_sz = sz, cb_solong = 0\<rparr>"
  have "sending b sz ?p 0" using assms(2) by (simp add: sending_def)
  note w = writepdu_sends [OF assms(1-4) this, of s]
  then obtain p ok s1 where p: "writepdu write ?p s = Inr (p, ok, s1)" by (auto split: sum.splits)
  define k2 where "k2 = k\<lparr>c_waiters := c_waiters k - 1, c_wpdu := p\<rparr>"
  show ?thesis
  proof (cases "ok \<and> cb_solong p \<noteq> cb_sz p")
    case True
    with w p have "transmitting b sz (out s) k2 (out s1)" by (auto simp: transmitting_def k2_def)
    with True p assms(5,6) show ?thesis by (simp add: send_enter_def k2_def)
  next
    case False
    let ?k = "if ok then k2 else k2\<lparr>c_dead := True\<rparr>"
    have t: "transmitting b sz (out s) ?k (out s1)"
      using w p by (auto simp: transmitting_def k2_def exI [of _ 0])
    obtain k3 st where r: "send_return ?k = (k3, st)" by fastforce
    have "c_dead ?k" if "st = Returned False"
      using that r False by (auto simp: send_return_def k2_def split: if_splits)
    with send_return_transmits [OF assms(2,3) t r] False p r assms(5,6) show ?thesis
      by (auto simp: send_enter_def k2_def Let_def split: if_splits)
  qed
qed

text \<open>(C9) A completed send puts exactly the message on the wire: on a free connection, however the
  kernel splits the writes and however many write callbacks it takes, what has gone out is a
  prefix of the framed message, all of it if \<^verbatim>\<open>send\<close> returns true; it returns false only on a dead connection; and once it returns the channel is free for
  the next sender.\<close>

theorem send_transmits:
  assumes "sink_ok write out" "4 \<le> sz" "sz \<le> int (length b)" "sz < 2 ^ 31"
    and "\<not> c_dead k" "cb_buf (c_wpdu k) = None" "conn_send write n b sz k s = Inr (k', st, s')"
  shows "(\<exists>i. out s' = out s @ take i (frame_cells b sz)) \<and>
    (st = Returned True \<longrightarrow> out s' = out s @ frame_cells b sz) \<and>
    (st = Returned False \<longrightarrow> c_dead k') \<and> (st \<noteq> Waiting \<longrightarrow> cb_buf (c_wpdu k') = None)"
proof -
  have "\<not> c_dead (send_arrive k)" "cb_buf (c_wpdu (send_arrive k)) = None"
    using assms(5,6) by (simp_all add: send_arrive_def)
  note e = send_enter_transmits [OF assms(1-4) this, of s]
  from assms(7) obtain k1 st1 s1 where 1: "send_enter write b sz (send_arrive k) s = Inr (k1, st1, s1)"
    and rest: "(if st1 = Waiting then rbind (write_cbs write n k1 s1)
        (\<lambda>(k2, s2). case send_wake k2 of (k3, st') \<Rightarrow> Inr (k3, st', s2)) else Inr (k1, st1, s1)) =
      Inr (k', st, s')"
    by (auto simp: conn_send_def rbind_eq_Inr)
  show ?thesis
  proof (cases "st1 = Waiting")
    case True
    with rest obtain k2 where 2: "write_cbs write n k1 s1 = Inr (k2, s')" "send_wake k2 = (k', st)"
      by (cases "write_cbs write n k1 s1") (auto split: prod.splits)
    from True e 1 have "transmitting b sz (out s) k1 (out s1)" by simp
    from send_wake_transmits [OF assms(2,3) write_cbs_transmit [OF assms(1-4) this 2(1)] 2(2)]
    show ?thesis .
  qed (use e 1 rest in auto)
qed

lemma send_transmits_witness:
  "\<exists>k' s'. conn_send slow_sink 3 (replicate 4 None @ map Some [1, 2, 3, 4, 5, 6]) 10
       (connection_new 0 0) ([Some 9], [2, 0, 5, 9]) = Inr (k', Returned True, s') \<and>
     fst s' = [Some 9] @ frame_cells (replicate 4 None @ map Some [1, 2, 3, 4, 5, 6]) 10"
proof -
  have snk: "sink_ok slow_sink fst"
    by (auto simp: sink_ok_def slow_sink_def split: wr.splits list.splits prod.splits if_splits)
  have run: "\<exists>k' s'. conn_send slow_sink 3 (replicate 4 None @ map Some [1, 2, 3, 4, 5, 6]) 10
       (connection_new 0 0) ([Some 9], [2, 0, 5, 9]) = Inr (k', Returned True, s')"
    by (simp add: conn_send_def send_arrive_def send_enter_def connection_new_def charbuf_new_def
        writepdu_def fill_size_def slow_sink_def size_t_def write_cb_def send_wake_def send_return_def
        htonl_cells_def enc_u32_def numeral_3_eq_3)
  then obtain k' s' where "conn_send slow_sink 3 (replicate 4 None @ map Some [1, 2, 3, 4, 5, 6]) 10
       (connection_new 0 0) ([Some 9], [2, 0, 5, 9]) = Inr (k', Returned True, s')" by blast
  with send_transmits [OF snk _ _ _ _ _ this] show ?thesis
    by (simp add: connection_new_def charbuf_new_def)
qed

section \<open>Reference counts\<close>

lemma refs_ok_held: "refs_ok h R \<Longrightarrow> 0 < R c \<Longrightarrow> \<exists>k. h c = Some k \<and> c_refno k = int (R c)"
  by (cases "h c") (auto simp: refs_ok_def)

lemma incref_refs:
  assumes "refs_ok h R" "0 < R c"
  shows "\<exists>h'. incref h c = Inr h' \<and> refs_ok h' (R(c := Suc (R c)))"
  using assms refs_ok_held [OF assms]
  by (auto simp: incref_def conn_at_def refs_ok_def)

lemma decref_refs:
  assumes "refs_ok h R" "0 < R c" "\<forall>k. h c = Some k \<longrightarrow> R c = 1 \<longrightarrow> cb_buf (c_wpdu k) = None"
  shows "\<exists>h'. decref h c = Inr h' \<and> refs_ok h' (R(c := R c - 1)) \<and> (\<forall>c'. c' \<noteq> c \<longrightarrow> h' c' = h c')"
proof -
  obtain k where k: "h c = Some k" "c_refno k = int (R c)" using refs_ok_held [OF assms(1,2)] by blast
  then show ?thesis
    using assms by (auto simp: decref_def conn_at_def conn_delete_def refs_ok_def Let_def)
qed

lemma gc_dead_faults:
  assumes "\<forall>(fd, c) \<in> set conns. \<exists>k. h c = Some k \<and> cb_buf (c_wpdu k) = None"
    and "\<exists>(fd, c) \<in> set conns. \<exists>k. h c = Some k \<and> c_dead k \<and> c_refno k = 1"
  shows "gc_dead h conns = Inl UseAfterFree"
  using assms
proof (induction conns)
  case (Cons p cs)
  obtain fd c where p: "p = (fd, c)" by fastforce
  with Cons.prems(1) obtain k where k: "h c = Some k" "cb_buf (c_wpdu k) = None" by auto
  show ?case
  proof (cases "c_dead k \<and> c_refno k = 1")
    case True
    with p k show ?thesis
      by (simp add: isdead_def conn_ref_def conn_at_def decref_def conn_delete_def)
  next
    case False
    with Cons p k show ?thesis by (auto simp: isdead_def conn_ref_def conn_at_def)
  qed
qed simp

text \<open>The garbage collection of \<^verbatim>\<open>process_accept\<close> is broken: as soon as it finds a dead
  connection that only the accepting side still references, it erases the map entry its iterator
  points to and then advances that iterator.\<close>

theorem accept_gc_faults:
  assumes "\<forall>(fd, c) \<in> set conns. c \<noteq> ch \<and> (\<exists>k. h c = Some k \<and> cb_buf (c_wpdu k) = None)"
    and "\<exists>(fd, c) \<in> set conns. \<exists>k. h c = Some k \<and> c_dead k \<and> c_refno k = 1"
  shows "process_accept h conns fd ch sec usec = Inl UseAfterFree"
proof -
  have "gc_dead (h(ch \<mapsto> connection_new sec usec)) conns = Inl UseAfterFree"
    using assms by (intro gc_dead_faults) fastforce+
  then show ?thesis by (simp add: process_accept_def)
qed

lemma accept_gc_faults_witness:
  "process_accept [1 \<mapsto> connection_new 0 0, 2 \<mapsto> (connection_new 0 0)\<lparr>c_dead := True\<rparr>]
     [(4, 1), (5, 2)] 6 3 0 0 = Inl UseAfterFree"
  by (rule accept_gc_faults) (auto simp: connection_new_def charbuf_new_def)

end
