(* ===== verification/Rpc_Server.thy ===== *)
theory Rpc_Server
  imports Connection
begin

text \<open>
  The server endpoint \<^verbatim>\<open>rpcs\<close> of \<^verbatim>\<open>rpc/rpc.h\<close> and \<^verbatim>\<open>rpc/rpc.cc\<close>: the per-client window of replies
  that is meant to give at-most-once execution (\<^verbatim>\<open>checkduplicate_and_update\<close>, \<^verbatim>\<open>add_reply\<close>,
  \<^verbatim>\<open>free_reply_window\<close>), the call statistics and the dispatcher.

  The handlers registered with \<^verbatim>\<open>reg\<close> are an argument of the dispatcher: a handler takes the
  application's state and the unmarshalled request and returns the status, the marshalled
  result and the new state.
\<close>

section \<open>The reply window\<close>

datatype rpcstate_t = NEW | INPROGRESS | DONE | FORGOTTEN

record reply_t =
  r_xid :: u32
  cb_present :: bool
  r_buf :: "cell list option"
  r_sz :: nat

definition reply_new :: "u32 \<Rightarrow> reply_t" where
  "reply_new x = \<lparr>r_xid = x, cb_present = False, r_buf = None, r_sz = 0\<rparr>"

type_synonym window = "reply_t list"
type_synonym reply_windows = "u32 \<rightharpoonup> window"

text \<open>\<^verbatim>\<open>reply_window_[clt_nonce]\<close>: a missing client gets an empty list.\<close>

definition window_of :: "reply_windows \<Rightarrow> u32 \<Rightarrow> window" where
  "window_of s clt = (case s clt of None \<Rightarrow> [] | Some w \<Rightarrow> w)"

text \<open>The loop that frees acknowledged replies reads \<^verbatim>\<open>it->xid\<close> before it compares \<^verbatim>\<open>it\<close> with
  \<^verbatim>\<open>window.end()\<close>. It returns what is left of the window and the buffers it freed.\<close>

fun free_acked :: "u32 \<Rightarrow> window \<Rightarrow> (window \<times> cell list list) res" where
  "free_acked rep [] = Inl OutOfBounds"
| "free_acked rep (r # rs) =
     (if r_xid r \<le> rep
      then case r_buf r of
             Some b \<Rightarrow>
               if \<not> cb_present r then Inr (r # rs, [])
               else rbind (free_acked rep rs) (\<lambda>(w, fs). Inr (w, b # fs))
           | None \<Rightarrow> Inr (r # rs, [])
      else Inr (r # rs, []))"

fun find_xid :: "u32 \<Rightarrow> window \<Rightarrow> reply_t option" where
  "find_xid x [] = None"
| "find_xid x (r # rs) = (if r_xid r = x then Some r else find_xid x rs)"

text \<open>The insertion loop: before the first entry with a larger \<^verbatim>\<open>xid\<close>, else at the end.\<close>

fun insert_reply :: "reply_t \<Rightarrow> window \<Rightarrow> window" where
  "insert_reply r [] = [r]"
| "insert_reply r (q # qs) = (if r_xid q > r_xid r then r # q # qs else q # insert_reply r qs)"

text \<open>The result is the state returned, the reply stored through \<^verbatim>\<open>b\<close> and \<^verbatim>\<open>sz\<close> if any, the
  buffers freed, and the new windows.\<close>

type_synonym check_result = "rpcstate_t \<times> (cell list option \<times> nat) option \<times> cell list list \<times> reply_windows"

definition remember_new ::
  "reply_windows \<Rightarrow> u32 \<Rightarrow> u32 \<Rightarrow> window \<Rightarrow> cell list list \<Rightarrow> check_result" where
  "remember_new s clt x w freed =
     (NEW, None, freed, s(clt \<mapsto> insert_reply ((reply_new x)\<lparr>cb_present := True\<rparr>) w))"

definition checkduplicate_and_update ::
  "reply_windows \<Rightarrow> u32 \<Rightarrow> u32 \<Rightarrow> u32 \<Rightarrow> check_result res" where
  "checkduplicate_and_update s clt x rep =
     rbind (verify (x > rep)) (\<lambda>_.
     let window = window_of s clt in
     if window = [] then Inr (remember_new s clt x [] [])
     else
       rbind (if r_xid (hd window) \<le> rep then free_acked rep window else Inr (window, []))
         (\<lambda>(w, freed).
         if w = [] then Inr (remember_new s clt x w freed)
         else if r_xid (hd w) > x then Inr (FORGOTTEN, None, freed, s(clt \<mapsto> w))
         else if r_xid (last window) \<ge> x
         then case find_xid x w of
                Some r \<Rightarrow>
                  if cb_present r then Inr (INPROGRESS, None, freed, s(clt \<mapsto> w))
                  else Inr (DONE, Some (r_buf r, r_sz r), freed, s(clt \<mapsto> w))
              | None \<Rightarrow> Inr (remember_new s clt x w freed)
         else Inr (remember_new s clt x w freed)))"

fun set_reply :: "u32 \<Rightarrow> cell list option \<Rightarrow> nat \<Rightarrow> window \<Rightarrow> window" where
  "set_reply x b sz [] = []"
| "set_reply x b sz (r # rs) =
     (if r_xid r = x then r\<lparr>r_buf := b, r_sz := sz, cb_present := False\<rparr> # rs
      else r # set_reply x b sz rs)"

definition add_reply ::
  "reply_windows \<Rightarrow> u32 \<Rightarrow> u32 \<Rightarrow> cell list option \<Rightarrow> nat \<Rightarrow> reply_windows res" where
  "add_reply s clt x b sz =
     rbind (verify (window_of s clt \<noteq> [])) (\<lambda>_.
     Inr (s(clt \<mapsto> set_reply x b sz (window_of s clt))))"

definition free_reply_window :: "reply_windows \<Rightarrow> reply_windows" where
  "free_reply_window s = Map.empty"

subsection \<open>Runs of the window\<close>

text \<open>Every access to the windows happens under \<^verbatim>\<open>reply_window_m_\<close>, so a run of the server is a
  sequence of these operations, in whatever order the dispatch threads reach the mutex.\<close>

datatype rw_op = Check u32 u32 u32 | Reply u32 u32 "cell list" nat

datatype rw_out = Checked rpcstate_t "(cell list option \<times> nat) option" | Stored

definition rw_step :: "reply_windows \<Rightarrow> rw_op \<Rightarrow> (rw_out \<times> reply_windows) res" where
  "rw_step s ev =
     (case ev of
        Check clt x rep \<Rightarrow>
          rbind (checkduplicate_and_update s clt x rep) (\<lambda>(st, out, freed, s'). Inr (Checked st out, s'))
      | Reply clt x b sz \<Rightarrow> rbind (add_reply s clt x (Some b) sz) (\<lambda>s'. Inr (Stored, s')))"

fun rw_run :: "reply_windows \<Rightarrow> rw_op list \<Rightarrow> (rw_out list \<times> reply_windows) res" where
  "rw_run s [] = Inr ([], s)"
| "rw_run s (e # es) =
     rbind (rw_step s e) (\<lambda>(ev, s'). rbind (rw_run s' es) (\<lambda>(os, s''). Inr (ev # os, s'')))"

text \<open>How often a run told the dispatcher to execute request \<open>x\<close> of client \<open>clt\<close>.\<close>

definition executions :: "u32 \<Rightarrow> u32 \<Rightarrow> rw_op list \<Rightarrow> rw_out list \<Rightarrow> nat" where
  "executions clt x es os =
     length (filter (\<lambda>(e, ev). case e of
         Check c y rep \<Rightarrow> c = clt \<and> y = x \<and> (case ev of Checked st b \<Rightarrow> st = NEW | Stored \<Rightarrow> False)
       | Reply _ _ _ _ \<Rightarrow> False) (zip es os))"

definition admitted :: "u32 \<Rightarrow> rw_op list \<Rightarrow> rw_out list \<Rightarrow> nat" where
  "admitted clt es os =
     length (filter (\<lambda>(e, ev). case e of
         Check c y rep \<Rightarrow> c = clt \<and> (case ev of Checked st b \<Rightarrow> st = NEW | Stored \<Rightarrow> False)
       | Reply _ _ _ _ \<Rightarrow> False) (zip es os))"

section \<open>Invariant and abstraction\<close>

definition wok :: "window \<Rightarrow> bool" where
  "wok w \<longleftrightarrow> sorted_wrt (<) (map r_xid w) \<and> list_all (\<lambda>r. cb_present r \<longleftrightarrow> r_buf r = None) w"

definition rw_ok :: "reply_windows \<Rightarrow> bool" where
  "rw_ok s \<longleftrightarrow> (\<forall>clt w. s clt = Some w \<longrightarrow> wok w)"

definition xids :: "window \<Rightarrow> u32 set" where
  "xids w = r_xid ` set w"

definition known :: "reply_windows \<Rightarrow> u32 \<Rightarrow> u32 set" where
  "known s clt = xids (window_of s clt)"

text \<open>The abstract memory of a client: the requests seen, each with its reply once it has one.\<close>

definition seen :: "window \<Rightarrow> u32 \<rightharpoonup> (cell list \<times> nat) option" where
  "seen w x = map_option (\<lambda>r. map_option (\<lambda>b. (b, r_sz r)) (r_buf r)) (find_xid x w)"

text \<open>A run with duplicates of a finished and of an unfinished request.\<close>

definition amo_example :: "rw_op list" where
  "amo_example =
     [Check 5 1 0, Reply 5 1 [Some 7] 1, Check 5 2 1, Check 5 2 1, Check 5 1 0,
      Reply 5 2 [] 0, Check 5 2 1]"

section \<open>Lemmas on windows\<close>

named_theorems window_simps \<open>facts on the list operations of the reply window\<close>

lemma wok_Cons [window_simps]:
  "wok (r # w) \<longleftrightarrow> (\<forall>q \<in> set w. r_xid r < r_xid q) \<and> (cb_present r \<longleftrightarrow> r_buf r = None) \<and> wok w"
  by (auto simp: wok_def)

lemma wok_Nil [simp]: "wok []"
  by (simp add: wok_def)

lemma xids_simps [simp]:
  "xids [] = {}" "xids (r # w) = insert (r_xid r) (xids w)"
  by (simp_all add: xids_def)

lemma free_acked_nothing: "w \<noteq> [] \<Longrightarrow> wok w \<Longrightarrow> free_acked rep w = Inr (w, [])"
  by (cases w) (auto simp: window_simps split: option.splits)

lemma find_xid_None [window_simps]: "find_xid x w = None \<longleftrightarrow> x \<notin> xids w"
  by (induction w) auto

lemma find_xid_Some: "find_xid x w = Some r \<Longrightarrow> r \<in> set w \<and> r_xid r = x"
  by (induction w) (auto split: if_splits)

lemma wok_find: "wok w \<Longrightarrow> find_xid x w = Some r \<Longrightarrow> cb_present r \<longleftrightarrow> r_buf r = None"
  by (auto simp: wok_def list_all_iff dest: find_xid_Some)

lemma set_insert_reply [simp]: "set (insert_reply r w) = insert r (set w)"
  by (induction w) auto

lemma xids_insert_reply [simp]: "xids (insert_reply r w) = insert (r_xid r) (xids w)"
  by (simp add: xids_def)

lemma length_insert_reply [simp]: "length (insert_reply r w) = Suc (length w)"
  by (induction w) auto

lemma wok_insert_reply:
  "wok w \<Longrightarrow> r_xid r \<notin> xids w \<Longrightarrow> cb_present r \<longleftrightarrow> r_buf r = None \<Longrightarrow> wok (insert_reply r w)"
  by (induction w) (auto simp: window_simps)

lemma find_insert_reply:
  "r_xid r \<notin> xids w \<Longrightarrow> find_xid x (insert_reply r w) = (if x = r_xid r then Some r else find_xid x w)"
  by (induction w) (auto simp: window_simps)

lemma xids_set_reply [simp]: "xids (set_reply x b sz w) = xids w"
  by (induction w) auto

lemma wok_set_reply: "wok w \<Longrightarrow> wok (set_reply x (Some b) sz w)"
proof (induction w)
  case (Cons r w)
  have "\<forall>y \<in> xids w. r_xid r < y" using Cons.prems by (auto simp: window_simps xids_def)
  then have "\<forall>y \<in> xids (set_reply x (Some b) sz w). r_xid r < y" by simp
  then have "\<forall>q \<in> set (set_reply x (Some b) sz w). r_xid r < r_xid q" by (simp add: xids_def)
  with Cons show ?case by (auto simp: window_simps)
qed simp

lemma find_set_reply:
  "find_xid y (set_reply x b sz w) =
     (if y = x then map_option (\<lambda>r. r\<lparr>r_buf := b, r_sz := sz, cb_present := False\<rparr>) (find_xid x w)
      else find_xid y w)"
  by (induction w) auto

lemma wok_le_last: "wok w \<Longrightarrow> r \<in> set w \<Longrightarrow> r_xid r \<le> r_xid (last w)"
  by (induction w) (auto simp: window_simps intro: less_imp_le)

lemma wok_last_less: "wok w \<Longrightarrow> w \<noteq> [] \<Longrightarrow> r_xid (last w) < x \<Longrightarrow> x \<notin> xids w"
  by (auto simp: xids_def dest: wok_le_last)

lemma seen_insert_reply:
  "x \<notin> xids w \<Longrightarrow> seen (insert_reply ((reply_new x)\<lparr>cb_present := True\<rparr>) w) = (seen w)(x \<mapsto> None)"
  by (rule ext) (simp add: seen_def find_insert_reply reply_new_def)

lemma seen_set_reply:
  "x \<in> xids w \<Longrightarrow> seen (set_reply x (Some b) sz w) = (seen w)(x \<mapsto> Some (b, sz))"
  by (cases "find_xid x w") (auto simp: seen_def find_set_reply window_simps fun_eq_iff)

lemma dom_seen: "dom (seen w) = xids w"
  by (auto simp: seen_def dom_def window_simps)

section \<open>What the check answers\<close>

text \<open>The answer in terms of the window alone; the trimming loop plays no part in it.\<close>

lemma check_cases:
  assumes "wok (window_of s clt)" "x > rep"
  shows "checkduplicate_and_update s clt x rep =
    (let w = window_of s clt in
     if w \<noteq> [] \<and> r_xid (hd w) > x then Inr (FORGOTTEN, None, [], s(clt \<mapsto> w))
     else case find_xid x w of
            None \<Rightarrow> Inr (remember_new s clt x w [])
          | Some r \<Rightarrow>
              if cb_present r then Inr (INPROGRESS, None, [], s(clt \<mapsto> w))
              else Inr (DONE, Some (r_buf r, r_sz r), [], s(clt \<mapsto> w)))"
proof (cases "window_of s clt = []")
  case True
  with assms(2) show ?thesis by (simp add: checkduplicate_and_update_def)
next
  case False
  let ?w = "window_of s clt"
  have "r_xid (last ?w) < x \<Longrightarrow> find_xid x ?w = None"
    using wok_last_less [OF assms(1) False] by (simp add: window_simps)
  with False assms free_acked_nothing [OF False assms(1), of rep] show ?thesis
    by (auto simp: checkduplicate_and_update_def Let_def not_le split: option.splits)
qed

lemma check_wok:
  assumes "wok (window_of s clt)" "checkduplicate_and_update s clt x rep = Inr (st, out, freed, s')"
  shows "freed = []" "\<exists>w'. s' = s(clt \<mapsto> w') \<and> wok w' \<and>
    xids w' = (if st = NEW then insert x (xids (window_of s clt)) else xids (window_of s clt)) \<and>
    length w' = length (window_of s clt) + (if st = NEW then 1 else 0) \<and>
    (st = NEW \<longrightarrow> x \<notin> xids (window_of s clt))"
proof -
  have x: "x > rep"
    using assms(2) by (cases "x > rep") (auto simp: checkduplicate_and_update_def)
  note c = assms(2) [unfolded check_cases [OF assms(1) x] Let_def]
  show "freed = []"
    using c by (auto simp: remember_new_def split: if_splits option.splits)
  show "\<exists>w'. s' = s(clt \<mapsto> w') \<and> wok w' \<and>
    xids w' = (if st = NEW then insert x (xids (window_of s clt)) else xids (window_of s clt)) \<and>
    length w' = length (window_of s clt) + (if st = NEW then 1 else 0) \<and>
    (st = NEW \<longrightarrow> x \<notin> xids (window_of s clt))"
    using c assms(1)
    by (auto simp: remember_new_def window_simps reply_new_def
        intro!: wok_insert_reply split: if_splits option.splits)
qed

section \<open>Runs\<close>

lemma rw_ok_window: "rw_ok s \<Longrightarrow> wok (window_of s clt)"
  by (auto simp: rw_ok_def window_of_def split: option.splits)

lemma rw_ok_upd: "rw_ok s \<Longrightarrow> wok w \<Longrightarrow> rw_ok (s(clt \<mapsto> w))"
  by (auto simp: rw_ok_def)

lemma rw_ok_empty [simp]: "rw_ok Map.empty"
  by (simp add: rw_ok_def)

lemma window_of_upd: "window_of (s(c \<mapsto> w)) clt = (if clt = c then w else window_of s clt)"
  by (simp add: window_of_def)

lemma executions_single [simp]:
  "executions clt x [Check c y rep] [Checked st b] = (if c = clt \<and> y = x \<and> st = NEW then 1 else 0)"
  "executions clt x [Reply c y d sz] [ev] = 0"
  by (simp_all add: executions_def)

lemma known_upd: "known (s(c \<mapsto> w)) clt = (if clt = c then xids w else known s clt)"
  by (simp add: known_def window_of_upd)

lemma rw_step_known:
  assumes "rw_ok s" "rw_step s e = Inr (ev, s')"
  shows "rw_ok s'" "known s clt \<subseteq> known s' clt"
    "\<And>x. executions clt x [e] [ev] = (if x \<in> known s' clt - known s clt then 1 else 0)"
proof -
  have "rw_ok s' \<and> known s clt \<subseteq> known s' clt \<and>
    (\<forall>x. executions clt x [e] [ev] = (if x \<in> known s' clt - known s clt then 1 else 0))"
  proof (cases e)
    case (Check c y rep)
    with assms(2) obtain st b fr where
      c: "checkduplicate_and_update s c y rep = Inr (st, b, fr, s')" and ev: "ev = Checked st b"
      by (auto simp: rw_step_def rbind_eq_Inr)
    from check_wok(2) [OF rw_ok_window [OF assms(1)] c] obtain w' where
      "s' = s(c \<mapsto> w')" "wok w'"
      "xids w' = (if st = NEW then insert y (xids (window_of s c)) else xids (window_of s c))"
      "st = NEW \<longrightarrow> y \<notin> xids (window_of s c)" by blast
    with Check ev rw_ok_upd [OF assms(1)] show ?thesis
      unfolding known_def [symmetric]
      by (cases "st = NEW"; cases "c = clt") (auto simp: known_upd)
  next
    case (Reply c y b sz)
    with assms(2) have "s' = s(c \<mapsto> set_reply y (Some b) sz (window_of s c))" and "ev = Stored"
      by (auto simp: rw_step_def add_reply_def rbind_eq_Inr)
    with Reply rw_ok_upd [OF assms(1) wok_set_reply [OF rw_ok_window [OF assms(1)]]] show ?thesis
      by (auto simp: known_def window_of_upd)
  qed
  then show "rw_ok s'" "known s clt \<subseteq> known s' clt"
    "\<And>x. executions clt x [e] [ev] = (if x \<in> known s' clt - known s clt then 1 else 0)"
    by blast+
qed

lemma executions_Cons:
  "executions clt x (e # es) (ev # os) = executions clt x [e] [ev] + executions clt x es os"
  by (simp add: executions_def)

lemma rw_run_known:
  "rw_ok s \<Longrightarrow> rw_run s es = Inr (os, s') \<Longrightarrow>
   rw_ok s' \<and> known s clt \<subseteq> known s' clt \<and>
   executions clt x es os = (if x \<in> known s' clt - known s clt then 1 else 0)"
proof (induction es arbitrary: s os)
  case Nil
  then show ?case by (simp add: executions_def)
next
  case (Cons e es)
  from Cons.prems(2) obtain ev s1 os1 where
    1: "rw_step s e = Inr (ev, s1)" "rw_run s1 es = Inr (os1, s')" "os = ev # os1"
    by (auto simp: rbind_eq_Inr)
  note st = rw_step_known [OF Cons.prems(1) 1(1)]
  from Cons.IH [OF st(1) 1(2)] st(2) [of clt] st(3) [of clt x] 1(3) show ?case
    by (auto simp: executions_Cons [of clt x e es ev os1] split: if_splits)
qed

text \<open>(C7) At most once: in every run of the server's reply window, whatever requests arrive, in
  whatever order, however often each is retransmitted and whenever its reply is recorded, a
  client's request is handed to its handler (\<^verbatim>\<open>NEW\<close>) at most once.\<close>

theorem at_most_once:
  assumes "rw_run Map.empty es = Inr (os, s')"
  shows "executions clt x es os \<le> 1"
  using rw_run_known [OF rw_ok_empty assms, of clt x] by simp

lemma at_most_once_witness:
  "\<exists>os s'. rw_run Map.empty amo_example = Inr (os, s') \<and>
     os = [Checked NEW None, Stored, Checked NEW None, Checked INPROGRESS None,
           Checked DONE (Some (Some [Some 7], 1)), Stored, Checked DONE (Some (Some [], 0))] \<and>
     executions 5 2 amo_example os \<le> 1"
proof -
  have "\<exists>s'. rw_run Map.empty amo_example =
      Inr ([Checked NEW None, Stored, Checked NEW None, Checked INPROGRESS None,
        Checked DONE (Some (Some [Some 7], 1)), Stored, Checked DONE (Some (Some [], 0))], s')"
    by (simp add: amo_example_def rw_step_def checkduplicate_and_update_def remember_new_def
        reply_new_def add_reply_def window_of_def Let_def)
  then show ?thesis using at_most_once [of amo_example _ _ 5 2] by blast
qed



lemma rw_step_length:
  assumes "rw_ok s" "rw_step s e = Inr (ev, s')"
  shows "length (window_of s' clt) = length (window_of s clt) + admitted clt [e] [ev]"
proof (cases e)
  case (Check c y rep)
  with assms(2) obtain st b fr where
    c: "checkduplicate_and_update s c y rep = Inr (st, b, fr, s')" and ev: "ev = Checked st b"
    by (auto simp: rw_step_def rbind_eq_Inr)
  from check_wok(2) [OF rw_ok_window [OF assms(1)] c] Check ev show ?thesis
    by (auto simp: window_of_upd admitted_def)
next
  case (Reply c y b sz)
  have "length (set_reply y (Some b) sz w) = length w" for w by (induction w) auto
  with assms(2) Reply show ?thesis
    by (auto simp: rw_step_def add_reply_def rbind_eq_Inr window_of_upd admitted_def)
qed

lemma rw_run_length:
  "rw_ok s \<Longrightarrow> rw_run s es = Inr (os, s') \<Longrightarrow>
   length (window_of s' clt) = length (window_of s clt) + admitted clt es os"
proof (induction es arbitrary: s os)
  case Nil
  then show ?case by (simp add: admitted_def)
next
  case (Cons e es)
  from Cons.prems(2) obtain ev s1 os1 where
    1: "rw_step s e = Inr (ev, s1)" "rw_run s1 es = Inr (os1, s')" "os = ev # os1"
    by (auto simp: rbind_eq_Inr)
  have "admitted clt (e # es) (ev # os1) = admitted clt [e] [ev] + admitted clt es os1"
    by (simp add: admitted_def)
  with Cons.IH [OF rw_step_known(1) [OF Cons.prems(1) 1(1)] 1(2)]
    rw_step_length [OF Cons.prems(1) 1(1), of clt] 1(3) show ?case by simp
qed

text \<open>(C35) Acknowledged replies are never freed: although every request carries the number up to
  which its client has received all replies, the window of a client always has one entry for
  every request that was ever executed for it, because the loop that should free acknowledged
  entries stops at the first entry that has a reply (\<^verbatim>\<open>cb_present\<close> is set while a request is in
  progress and cleared when the reply is stored).\<close>

theorem window_never_shrinks:
  assumes "rw_run Map.empty es = Inr (os, s')"
  shows "length (window_of s' clt) = admitted clt es os"
  using rw_run_length [OF rw_ok_empty assms, of clt] by (simp add: window_of_def)

lemma window_never_shrinks_witness:
  "\<exists>os s'. rw_run Map.empty [Check 5 1 0, Reply 5 1 [Some 7] 1, Check 5 2 1] = Inr (os, s') \<and>
     length (window_of s' 5) = 2"
proof -
  let ?es = "[Check 5 1 0, Reply 5 1 [Some 7] 1, Check 5 2 1]"
  have "\<exists>s'. rw_run Map.empty ?es = Inr ([Checked NEW None, Stored, Checked NEW None], s')"
    by (simp add: rw_step_def checkduplicate_and_update_def remember_new_def reply_new_def
        add_reply_def window_of_def Let_def)
  then show ?thesis
    using window_never_shrinks [of ?es _ _ 5] by (fastforce simp: admitted_def)
qed

end
