(* ===== verification/Rpc_Dispatch.thy ===== *)
theory Rpc_Dispatch
  imports Rpc_Server
begin

text \<open>
  The dispatcher of the server endpoint \<^verbatim>\<open>rpcs\<close> in \<^verbatim>\<open>rpc/rpc.cc\<close>: what one worker thread does with
  one request, from the header to the reply, with the reference it holds on the connection the
  request came in on and the references \<^verbatim>\<open>conns_\<close> holds.

  A handler is an argument: it takes the application's state, the request positioned after its
  header and the reply buffer, and returns the status, the reply and the new state.
\<close>

section \<open>Constants and state\<close>

definition rpc_bind :: u32 where "rpc_bind = 1"
definition timeout_failure :: u32 where "timeout_failure = -1"
definition unmarshal_args_failure :: u32 where "unmarshal_args_failure = -2"
definition unmarshal_reply_failure :: u32 where "unmarshal_reply_failure = -3"
definition atmostonce_failure :: u32 where "atmostonce_failure = -4"
definition oldsrv_failure :: u32 where "oldsrv_failure = -5"
definition bind_failure :: u32 where "bind_failure = -6"
definition cancel_failure :: u32 where "cancel_failure = -7"

type_synonym 'a handler = "'a \<Rightarrow> unmarshall \<Rightarrow> marshall \<Rightarrow> (u32 \<times> marshall \<times> 'a) res"

text \<open>\<open>s_conns\<close> maps a client to a pointer that may be null; \<open>s_store\<close> holds the connection
  objects, \<open>s_sent\<close> the messages handed to live connections, and \<open>s_app\<close> the state of the
  application whose methods are registered.\<close>

record 'a rpcs =
  s_nonce :: u32
  s_counting :: int
  s_curr_counts :: int
  s_counts :: "u32 \<rightharpoonup> int"
  s_reachable :: bool
  s_procs :: "u32 \<rightharpoonup> 'a handler"
  s_window :: reply_windows
  s_conns :: "u32 \<rightharpoonup> cid option"
  s_store :: conn_store
  s_sent :: "(cid \<times> cell list \<times> nat) list"
  s_app :: 'a

section \<open>Registration and statistics\<close>

definition reg1 :: "'a rpcs \<Rightarrow> u32 \<Rightarrow> 'a handler \<Rightarrow> 'a rpcs res" where
  "reg1 s p f = rbind (verify (s_procs s p = None)) (\<lambda>_. Inr (s\<lparr>s_procs := (s_procs s)(p \<mapsto> f)\<rparr>))"

text \<open>The bind handler of the server itself: \<^verbatim>\<open>rpcbind\<close>, wrapped by \<^verbatim>\<open>reg\<close>.\<close>

definition rpcbind :: "u32 \<Rightarrow> 'a handler" where
  "rpcbind nonce app args ret =
     rbind (get_int args) (\<lambda>(a, u).
     if \<not> okdone u then Inr (unmarshal_args_failure, ret, app)
     else rbind (put_int ret nonce) (\<lambda>m. Inr (0, m, app)))"

definition rpcs_new :: "u32 \<Rightarrow> int \<Rightarrow> 'a \<Rightarrow> 'a rpcs res" where
  "rpcs_new nonce count app =
     reg1 \<lparr>s_nonce = nonce, s_counting = count, s_curr_counts = count, s_counts = Map.empty,
           s_reachable = True, s_procs = Map.empty, s_window = Map.empty, s_conns = Map.empty,
           s_store = Map.empty, s_sent = [], s_app = app\<rparr> rpc_bind (rpcbind nonce)"

definition updatestat :: "'a rpcs \<Rightarrow> u32 \<Rightarrow> 'a rpcs" where
  "updatestat s p =
     (let n = (case s_counts s p of None \<Rightarrow> 0 | Some k \<Rightarrow> k);
          s1 = s\<lparr>s_counts := (s_counts s)(p \<mapsto> n + 1), s_curr_counts := s_curr_counts s - 1\<rparr> in
      if s_curr_counts s1 = 0 then s1\<lparr>s_curr_counts := s_counting s1\<rparr> else s1)"

section \<open>The dispatcher\<close>

text \<open>\<^verbatim>\<open>c->send(b, sz)\<close>: a dead connection transmits nothing.\<close>

definition srv_send :: "'a rpcs \<Rightarrow> cid \<Rightarrow> cell list option \<Rightarrow> nat \<Rightarrow> 'a rpcs res" where
  "srv_send s c b sz =
     (case b of
        None \<Rightarrow> Inl NullDeref
      | Some cs \<Rightarrow> rbind (isdead (s_store s) c) (\<lambda>dead.
          Inr (if dead then s else s\<lparr>s_sent := s_sent s @ [(c, cs, sz)]\<rparr>)))"

definition srv_decref :: "'a rpcs \<Rightarrow> cid \<Rightarrow> 'a rpcs res" where
  "srv_decref s c = rbind (decref (s_store s) c) (\<lambda>h. Inr (s\<lparr>s_store := h\<rparr>))"

definition srv_incref :: "'a rpcs \<Rightarrow> cid \<Rightarrow> 'a rpcs res" where
  "srv_incref s c = rbind (incref (s_store s) c) (\<lambda>h. Inr (s\<lparr>s_store := h\<rparr>))"

text \<open>A reply without results, sent on the connection the request came in on.\<close>

definition send_failure :: "'a rpcs \<Rightarrow> cid \<Rightarrow> req_header \<Rightarrow> u32 \<Rightarrow> 'a rpcs res" where
  "send_failure s c h ret =
     rbind (pack_reply_header marshall_new \<lparr>rh_xid = xid h, rh_ret = ret\<rparr>) (\<lambda>rep.
     srv_send s c (m_buf rep) (m_ind rep))"

text \<open>Save the latest good connection to the client.\<close>

definition save_conn :: "'a rpcs \<Rightarrow> u32 \<Rightarrow> cid \<Rightarrow> 'a rpcs res" where
  "save_conn s clt c =
     (case s_conns s clt of
        None \<Rightarrow> rbind (srv_incref s c) (\<lambda>s1. Inr (s1\<lparr>s_conns := (s_conns s1)(clt \<mapsto> Some c)\<rparr>))
      | Some None \<Rightarrow> Inl NullDeref
      | Some (Some d) \<Rightarrow>
          rbind (conn_at (s_store s) d) (\<lambda>kd.
          rbind (conn_at (s_store s) c) (\<lambda>kc.
          if compare kd kc < 0
          then rbind (srv_decref s d) (\<lambda>s1.
               rbind (srv_incref s1 c) (\<lambda>s2.
               Inr (s2\<lparr>s_conns := (s_conns s2)(clt \<mapsto> Some c)\<rparr>)))
          else Inr s)))"

text \<open>Get the latest connection to the client: \<^verbatim>\<open>conns_[clt]\<close> is a null pointer, inserted by the
  subscript, if there is none.\<close>

definition latest_conn :: "'a rpcs \<Rightarrow> u32 \<Rightarrow> cid \<Rightarrow> (cid \<times> 'a rpcs) res" where
  "latest_conn s clt c =
     rbind (isdead (s_store s) c) (\<lambda>dead.
     if dead \<and> s_conns s clt \<noteq> Some (Some c)
     then rbind (srv_decref s c) (\<lambda>s1.
          case s_conns s1 clt of
            Some (Some d) \<Rightarrow> rbind (srv_incref s1 d) (\<lambda>s2. Inr (d, s2))
          | _ \<Rightarrow> Inl NullDeref)
     else Inr (c, s))"

text \<open>The case \<^verbatim>\<open>NEW\<close>: run the handler, record the reply and send it.\<close>

definition run_handler ::
  "'a rpcs \<Rightarrow> req_header \<Rightarrow> 'a handler \<Rightarrow> unmarshall \<Rightarrow> (cell list option \<times> nat \<times> 'a rpcs) res" where
  "run_handler s h f req =
     (let s1 = (if s_counting s \<noteq> 0 then updatestat s (proc h) else s) in
      rbind (f (s_app s1) req marshall_new) (\<lambda>(ret, rep, app).
      rbind (verify (ret \<noteq> unmarshal_args_failure)) (\<lambda>_.
      rbind (verify (0 \<le> sint ret)) (\<lambda>_.
      rbind (pack_reply_header rep \<lparr>rh_xid = xid h, rh_ret = ret\<rparr>) (\<lambda>rep1.
      case take_buf rep1 of (b, sz, _) \<Rightarrow> Inr (b, sz, s1\<lparr>s_app := app\<rparr>))))))"

definition record_reply :: "'a rpcs \<Rightarrow> req_header \<Rightarrow> cell list option \<Rightarrow> nat \<Rightarrow> 'a rpcs res" where
  "record_reply s h b sz =
     (if clt_nonce h > 0
      then rbind (add_reply (s_window s) (clt_nonce h) (xid h) b sz) (\<lambda>w. Inr (s\<lparr>s_window := w\<rparr>))
      else Inr s)"

definition dispatch_new ::
  "'a rpcs \<Rightarrow> cid \<Rightarrow> req_header \<Rightarrow> 'a handler \<Rightarrow> unmarshall \<Rightarrow> (cid \<times> 'a rpcs) res" where
  "dispatch_new s c h f req =
     rbind (run_handler s h f req) (\<lambda>(b, sz, s1).
     rbind (record_reply s1 h b sz) (\<lambda>s2.
     rbind (latest_conn s2 (clt_nonce h) c) (\<lambda>(c', s3).
     rbind (srv_send s3 c' b sz) (\<lambda>s4. Inr (c', s4)))))"

text \<open>The duplicate check, for clients that ask for at-most-once execution.\<close>

definition dispatch_check ::
  "'a rpcs \<Rightarrow> cid \<Rightarrow> req_header \<Rightarrow> (rpcstate_t \<times> (cell list option \<times> nat) option \<times> 'a rpcs) res" where
  "dispatch_check s c h =
     (if clt_nonce h \<noteq> 0
      then rbind (save_conn s (clt_nonce h) c) (\<lambda>s1.
           rbind (checkduplicate_and_update (s_window s1) (clt_nonce h) (xid h) (xid_rep h))
             (\<lambda>(st, out, freed, w). Inr (st, out, s1\<lparr>s_window := w\<rparr>)))
      else Inr (NEW, None, s))"

text \<open>The \<^verbatim>\<open>switch\<close> on the duplicate status; its result names the connection whose reference the
  worker holds afterwards.\<close>

definition dispatch_switch ::
  "'a rpcs \<Rightarrow> cid \<Rightarrow> req_header \<Rightarrow> 'a handler \<Rightarrow> unmarshall \<Rightarrow> rpcstate_t \<Rightarrow>
   (cell list option \<times> nat) option \<Rightarrow> (cid \<times> 'a rpcs) res" where
  "dispatch_switch s c h f req st out =
     (case st of
        NEW \<Rightarrow> dispatch_new s c h f req
      | INPROGRESS \<Rightarrow> Inr (c, s)
      | DONE \<Rightarrow>
          (case out of
             None \<Rightarrow> Inl NullDeref
           | Some (b1, sz1) \<Rightarrow> rbind (srv_send s c b1 sz1) (\<lambda>s1. Inr (c, s1)))
      | FORGOTTEN \<Rightarrow> rbind (send_failure s c h atmostonce_failure) (\<lambda>s1. Inr (c, s1)))"

definition dispatch :: "'a rpcs \<Rightarrow> cid \<Rightarrow> byte list \<Rightarrow> 'a rpcs res" where
  "dispatch s c b =
     rbind (unpack_req_header (unmarshall_of b)) (\<lambda>(h, req).
     if \<not> u_ok req then srv_decref s c
     else if srv_nonce h \<noteq> 0 \<and> srv_nonce h \<noteq> s_nonce s then send_failure s c h oldsrv_failure
     else case s_procs s (proc h) of
       None \<Rightarrow> rbind (srv_decref s c) (\<lambda>_. Inl Abort)
     | Some f \<Rightarrow>
         rbind (dispatch_check s c h) (\<lambda>(st, out, s1).
         rbind (dispatch_switch s1 c h f req st out) (\<lambda>(c', s2). srv_decref s2 c')))"

text \<open>\<^verbatim>\<open>got_pdu\<close>: a worker gets the message with a reference to its connection; \<open>room\<close> says whether
  the job queue of the thread pool has space, and \<open>still\<close> is \<^verbatim>\<open>reachable_\<close> when it is read for the second time.
  If it was cleared in between, the job is deleted although it is in the queue; the fault is that of the
  worker that takes it.\<close>

definition got_pdu :: "'a rpcs \<Rightarrow> bool \<Rightarrow> bool \<Rightarrow> cid \<Rightarrow> byte list \<Rightarrow> (bool \<times> (cid \<times> byte list) option \<times> 'a rpcs) res" where
  "got_pdu s room still c b =
     (if \<not> s_reachable s then Inr (True, None, s)
      else rbind (srv_incref s c) (\<lambda>s1.
        if \<not> room \<or> \<not> still
        then rbind (srv_decref s1 c) (\<lambda>s2. if room then Inl UseAfterFree else Inr (False, None, s2))
        else Inr (True, Some (c, b), s1)))"

section \<open>Who holds which reference\<close>

definition conn_refs :: "'a rpcs \<Rightarrow> cid \<Rightarrow> nat" where
  "conn_refs s c = card {clt. s_conns s clt = Some (Some c)}"

text \<open>The counts of the connection objects agree with the references held by \<^verbatim>\<open>conns_\<close> and, as
  given by \<open>E\<close>, elsewhere; no send is going on and \<^verbatim>\<open>conns_\<close> has no null pointers.\<close>

definition srv_ok :: "'a rpcs \<Rightarrow> (cid \<Rightarrow> nat) \<Rightarrow> bool" where
  "srv_ok s E \<longleftrightarrow>
     refs_ok (s_store s) (\<lambda>c. E c + conn_refs s c) \<and>
     (\<forall>c k. s_store s c = Some k \<longrightarrow> cb_buf (c_wpdu k) = None) \<and>
     (\<forall>clt. s_conns s clt \<noteq> Some None)"

text \<open>A request for an earlier instance of the server.\<close>

definition to_old_server :: "'a rpcs \<Rightarrow> byte list \<Rightarrow> bool" where
  "to_old_server s b =
     (case unpack_req_header (unmarshall_of b) of
        Inl _ \<Rightarrow> False
      | Inr (h, req) \<Rightarrow> u_ok req \<and> srv_nonce h \<noteq> 0 \<and> srv_nonce h \<noteq> s_nonce s)"

text \<open>A server with one method, which returns a counter and increments it, connected to a client
  through connection \<open>3\<close>; and a request of client \<open>9\<close> for it, to server instance \<open>n\<close>.\<close>

definition counter_handler :: "u32 handler" where
  "counter_handler app args ret = rbind (put_int ret app) (\<lambda>m. Inr (0, m, app + 1))"

definition idle_server :: "u32 rpcs" where
  "idle_server =
     \<lparr>s_nonce = 77, s_counting = 0, s_curr_counts = 0, s_counts = Map.empty, s_reachable = True,
      s_procs = [4 \<mapsto> counter_handler], s_window = Map.empty, s_conns = Map.empty,
      s_store = [3 \<mapsto> (connection_new 0 0)\<lparr>c_refno := 2\<rparr>], s_sent = [], s_app = 5\<rparr>"

definition request_header :: "u32 \<Rightarrow> u32 \<Rightarrow> req_header" where
  "request_header clt n = \<lparr>xid = 2, proc = 4, clt_nonce = clt, srv_nonce = n, xid_rep = 1\<rparr>"

definition request :: "u32 \<Rightarrow> u32 \<Rightarrow> byte list" where
  "request clt n = replicate 4 0 @ enc_req_header (request_header clt n)"

text \<open>The reply remembered for a request, and a sequence of dispatched requests.\<close>

definition has_reply :: "reply_windows \<Rightarrow> u32 \<Rightarrow> u32 \<Rightarrow> cell list \<times> nat \<Rightarrow> bool" where
  "has_reply w clt x rn \<longleftrightarrow> seen (window_of w clt) x = Some (Some rn)"

fun dispatches :: "'a rpcs \<Rightarrow> (cid \<times> byte list) list \<Rightarrow> 'a rpcs res" where
  "dispatches s [] = Inr s"
| "dispatches s ((c, b) # js) = rbind (dispatch s c b) (\<lambda>s1. dispatches s1 js)"

lemma u_ok_unmarshall_of [simp]: "u_ok (unmarshall_of b)"
  by (simp add: unmarshall_of_def)

lemma request_parses:
  "unpack_req_header (unmarshall_of (request clt n)) =
     Inr (request_header clt n, (unmarshall_of (request clt n))\<lparr>u_ind := 24\<rparr>)"
  by (rule unpack_req_header_reads) (simp_all add: request_def INT_MAX_def)

lemma counter_reply:
  "\<exists>m m' b. put_int marshall_new a = Inr m \<and> pack_reply_header m h = Inr m' \<and> m_buf m' = Some b \<and>
     m_ind m' = 28"
proof -
  obtain m where m: "put_int marshall_new a = Inr m" "appended marshall_new (enc_u32 a) m"
    using sint.put_appends [OF mwf_new, of a] by (auto simp: marshall_new_def sizes MSG_MAX_def enc_u32_def)
  then have w: "mwf m" by (simp add: appended_def)
  from pack_reply_header_writes [OF this, of h] obtain m' where
    m': "pack_reply_header m h = Inr m'" "mwf m'" "m_ind m' = m_ind m" by blast
  have "m_ind m = 28"
    using appended_ind [OF mwf_new m(2)] by (simp add: marshall_new_def sizes enc_u32_def)
  with m(1) m' mwf_cases [OF m'(2)] show ?thesis by (metis)
qed

lemmas dispatch_eval =
  dispatch_def request_parses request_header_def dispatch_check_def save_conn_def
  srv_incref_def srv_decref_def incref_def decref_def conn_at_def checkduplicate_and_update_def
  window_of_def remember_new_def reply_new_def dispatch_switch_def dispatch_new_def run_handler_def
  counter_handler_def unmarshal_args_failure_def take_buf_def record_reply_def add_reply_def
  latest_conn_def isdead_def srv_send_def idle_server_def connection_new_def charbuf_new_def

lemma idle_dispatch:
  "\<exists>b. dispatch idle_server 3 (request 9 0) = Inr (idle_server
     \<lparr>s_window := [9 \<mapsto> [\<lparr>r_xid = 2, cb_present = False, r_buf = Some b, r_sz = 28\<rparr>]],
      s_conns := [9 \<mapsto> Some 3], s_sent := [(3, b, 28)], s_app := 6\<rparr>)"
proof -
  obtain m m' b where "put_int marshall_new 5 = Inr m" "m_buf m' = Some b" "m_ind m' = 28"
    "pack_reply_header m \<lparr>rh_xid = 2, rh_ret = 0\<rparr> = Inr m'" using counter_reply by metis
  then show ?thesis
    by (intro exI [of _ b]) (simp add: dispatch_eval fun_upd_idem_iff)
qed

lemma conn_refs_upd:
  "conn_refs (s\<lparr>s_conns := (s_conns s)(clt := v)\<rparr>) c + (if s_conns s clt = Some (Some c) then 1 else 0) =
   conn_refs s c + (if v = Some (Some c) then 1 else 0)"
proof -
  let ?A = "{k. s_conns s k = Some (Some c)}"
  have "{k. ((s_conns s)(clt := v)) k = Some (Some c)} =
      (if v = Some (Some c) then insert clt (?A - {clt}) else ?A - {clt})"
    by auto
  moreover have "card ?A = card (?A - {clt}) + (if clt \<in> ?A then 1 else 0)"
    using card.remove [of ?A clt] by simp
  ultimately show ?thesis by (simp add: conn_refs_def card.insert_remove)
qed

lemma conn_refs_frame [simp]:
  "conn_refs (s\<lparr>s_store := h\<rparr>) = conn_refs s" "conn_refs (s\<lparr>s_window := w\<rparr>) = conn_refs s"
  "conn_refs (s\<lparr>s_sent := l\<rparr>) = conn_refs s" "conn_refs (s\<lparr>s_app := a\<rparr>) = conn_refs s"
  "conn_refs (s\<lparr>s_counts := n\<rparr>) = conn_refs s" "conn_refs (s\<lparr>s_curr_counts := i\<rparr>) = conn_refs s"
  by (simp_all add: conn_refs_def fun_eq_iff)

lemma srv_ok_frame [simp]:
  "srv_ok (s\<lparr>s_window := w\<rparr>) E = srv_ok s E" "srv_ok (s\<lparr>s_sent := l\<rparr>) E = srv_ok s E"
  "srv_ok (s\<lparr>s_app := a\<rparr>) E = srv_ok s E" "srv_ok (s\<lparr>s_counts := n\<rparr>) E = srv_ok s E"
  "srv_ok (s\<lparr>s_curr_counts := i\<rparr>) E = srv_ok s E"
  by (simp_all add: srv_ok_def)

lemma srv_ok_conn: "srv_ok s E \<Longrightarrow> 0 < E c + conn_refs s c \<Longrightarrow> \<exists>k. s_store s c = Some k"
  using refs_ok_held [of "s_store s" "\<lambda>c. E c + conn_refs s c" c] by (auto simp: srv_ok_def)

lemma conn_refs_pos: "s_conns s clt = Some (Some d) \<Longrightarrow> 0 < conn_refs s d"
  by (auto simp: conn_refs_def card_gt_0_iff)

lemma srv_incref_ok:
  assumes "srv_ok s E" "0 < E c + conn_refs s c"
  shows "\<exists>h. srv_incref s c = Inr (s\<lparr>s_store := h\<rparr>) \<and> srv_ok (s\<lparr>s_store := h\<rparr>) (E(c := Suc (E c)))"
proof -
  from assms(1) have r: "refs_ok (s_store s) (\<lambda>c. E c + conn_refs s c)" by (simp add: srv_ok_def)
  obtain k where k: "s_store s c = Some k" using srv_ok_conn [OF assms] by blast
  from incref_refs [OF r] assms(2) obtain h where h: "incref (s_store s) c = Inr h"
    "refs_ok h ((\<lambda>c. E c + conn_refs s c)(c := Suc (E c + conn_refs s c)))" by auto
  moreover have "(\<lambda>c. E c + conn_refs s c)(c := Suc (E c + conn_refs s c)) =
      (\<lambda>c'. (E(c := Suc (E c))) c' + conn_refs s c')" by auto
  moreover have "h = (s_store s)(c \<mapsto> k\<lparr>c_refno := c_refno k + 1\<rparr>)"
    using h(1) k by (simp add: incref_def conn_at_def)
  ultimately show ?thesis using assms(1) k
    by (intro exI [of _ h]) (auto simp: srv_incref_def srv_ok_def)
qed

lemma srv_decref_ok:
  assumes "srv_ok s E" "0 < E c"
  shows "\<exists>h. srv_decref s c = Inr (s\<lparr>s_store := h\<rparr>) \<and> srv_ok (s\<lparr>s_store := h\<rparr>) (E(c := E c - 1))"
proof -
  let ?R = "\<lambda>c. E c + conn_refs s c"
  from assms(1) have r: "refs_ok (s_store s) ?R" by (simp add: srv_ok_def)
  have "\<forall>k. s_store s c = Some k \<longrightarrow> ?R c = 1 \<longrightarrow> cb_buf (c_wpdu k) = None"
    using assms(1) by (simp add: srv_ok_def)
  from decref_refs [OF r _ this] assms(2) obtain h where h: "decref (s_store s) c = Inr h"
    "refs_ok h (?R(c := ?R c - 1))" "\<forall>c'. c' \<noteq> c \<longrightarrow> h c' = s_store s c'" by auto
  moreover have "?R(c := ?R c - 1) = (\<lambda>c'. (E(c := E c - 1)) c' + conn_refs s c')"
    using assms(2) by auto
  moreover have "cb_buf (c_wpdu k) = None" if "h c' = Some k" for c' k
  proof (cases "c' = c")
    case True
    from srv_ok_conn [OF assms(1), of c] assms(2) obtain k0 where k0: "s_store s c = Some k0" by auto
    with h(1) that True assms(1) show ?thesis
      by (auto simp: decref_def conn_at_def conn_delete_def srv_ok_def Let_def rbind_eq_Inr split: if_splits)
  next
    case False
    with h(3) that assms(1) show ?thesis by (auto simp: srv_ok_def)
  qed
  ultimately show ?thesis using assms(1)
    by (intro exI [of _ h]) (auto simp: srv_decref_def srv_ok_def)
qed

text \<open>Handing a reference over to \<^verbatim>\<open>conns_\<close>, or taking one back from it.\<close>

lemma srv_ok_give:
  assumes "srv_ok s E" "0 < E c" "s_conns s clt = None"
  shows "srv_ok (s\<lparr>s_conns := (s_conns s)(clt \<mapsto> Some c)\<rparr>) (E(c := E c - 1))"
proof -
  let ?s = "s\<lparr>s_conns := (s_conns s)(clt \<mapsto> Some c)\<rparr>"
  have "(E(c := E c - 1)) x + conn_refs ?s x = E x + conn_refs s x" for x
    using conn_refs_upd [of s clt "Some (Some c)" x] assms(2,3) by auto
  with assms(1) show ?thesis by (simp add: srv_ok_def)
qed

lemma srv_ok_take:
  assumes "srv_ok s E" "s_conns s clt = Some (Some d)"
  shows "srv_ok (s\<lparr>s_conns := (s_conns s)(clt := None)\<rparr>) (E(d := Suc (E d)))"
proof -
  let ?s = "s\<lparr>s_conns := (s_conns s)(clt := None)\<rparr>"
  have "(E(d := Suc (E d))) x + conn_refs ?s x = E x + conn_refs s x" for x
    using conn_refs_upd [of s clt None x] assms(2) by auto
  with assms(1) show ?thesis by (simp add: srv_ok_def)
qed

lemma save_conn_ok:
  assumes "srv_ok s E" "0 < E c"
  shows "\<exists>h m. save_conn s clt c = Inr (s\<lparr>s_store := h, s_conns := m\<rparr>) \<and>
    srv_ok (s\<lparr>s_store := h, s_conns := m\<rparr>) E \<and> m clt \<noteq> None"
proof (cases "s_conns s clt")
  case None
  from srv_incref_ok [OF assms(1), of c] assms(2) obtain h where h: "srv_incref s c = Inr (s\<lparr>s_store := h\<rparr>)"
    "srv_ok (s\<lparr>s_store := h\<rparr>) (E(c := Suc (E c)))" by auto
  from srv_ok_give [OF h(2), of c clt] None h(1) show ?thesis
    by (intro exI [of _ h] exI [of _ "(s_conns s)(clt \<mapsto> Some c)"]) (simp add: save_conn_def)
next
  case (Some v)
  then obtain d where d: "s_conns s clt = Some (Some d)" using assms(1) by (cases v) (auto simp: srv_ok_def)
  from srv_ok_conn [OF assms(1), of d] conn_refs_pos [OF d] obtain kd where kd: "s_store s d = Some kd" by auto
  from srv_ok_conn [OF assms(1), of c] assms(2) obtain kc where kc: "s_store s c = Some kc" by auto
  show ?thesis
  proof (cases "compare kd kc < 0")
    case False
    with d kd kc assms(1) show ?thesis
      by (intro exI [of _ "s_store s"] exI [of _ "s_conns s"]) (simp add: save_conn_def conn_at_def)
  next
    case True
    let ?s = "s\<lparr>s_conns := (s_conns s)(clt := None)\<rparr>"
    from srv_decref_ok [OF srv_ok_take [OF assms(1) d], of d] obtain h1 where
      1: "decref (s_store s) d = Inr h1" "srv_ok (?s\<lparr>s_store := h1\<rparr>) E"
      by (auto simp: srv_decref_def rbind_eq_Inr dest!: arg_cong [where f = s_store])
    from srv_incref_ok [OF 1(2), of c] assms(2) obtain h2 where
      2: "incref h1 c = Inr h2" "srv_ok (?s\<lparr>s_store := h2\<rparr>) (E(c := Suc (E c)))"
      by (auto simp: srv_incref_def rbind_eq_Inr dest!: arg_cong [where f = s_store])
    from srv_ok_give [OF 2(2), of c clt] have
      "srv_ok (s\<lparr>s_store := h2, s_conns := (s_conns s)(clt \<mapsto> Some c)\<rparr>) E" by simp
    then show ?thesis using True d kd kc 1(1) 2(1)
      by (intro exI [of _ h2] exI [of _ "(s_conns s)(clt \<mapsto> Some c)"])
        (simp add: save_conn_def conn_at_def srv_decref_def srv_incref_def)
  qed
qed

lemma latest_conn_ok:
  assumes "srv_ok s E" "0 < E c" "latest_conn s clt c = Inr (c', s')"
  shows "srv_ok s' ((E(c := E c - 1))(c' := Suc ((E(c := E c - 1)) c')))"
proof -
  from srv_ok_conn [OF assms(1), of c] assms(2) obtain kc where kc: "s_store s c = Some kc" by auto
  show ?thesis
  proof (cases "c_dead kc \<and> s_conns s clt \<noteq> Some (Some c)")
    case False
    with kc assms show ?thesis by (auto simp: latest_conn_def isdead_def conn_at_def)
  next
    case True
    from srv_decref_ok [OF assms(1,2)] obtain h1 where
      1: "srv_decref s c = Inr (s\<lparr>s_store := h1\<rparr>)" "srv_ok (s\<lparr>s_store := h1\<rparr>) (E(c := E c - 1))" by auto
    with True kc assms(3) have d: "s_conns s clt = Some (Some c')"
      and i: "srv_incref (s\<lparr>s_store := h1\<rparr>) c' = Inr s'"
      by (auto simp: latest_conn_def isdead_def conn_at_def rbind_eq_Inr split: option.splits)
    from srv_incref_ok [OF 1(2), of c'] conn_refs_pos [OF d] i show ?thesis by auto
  qed
qed

lemma srv_send_ok: "srv_send s c b sz = Inr s' \<Longrightarrow> srv_ok s' E = srv_ok s E \<and> s_conns s' = s_conns s"
  by (auto simp: srv_send_def rbind_eq_Inr split: option.splits if_splits)

lemma send_failure_ok: "send_failure s c h r = Inr s' \<Longrightarrow> srv_ok s' E = srv_ok s E"
  by (auto simp: send_failure_def rbind_eq_Inr dest: srv_send_ok)

lemma run_handler_ok:
  assumes "run_handler s h f req = Inr (b, sz, s')"
  shows "srv_ok s' E = srv_ok s E" "s_conns s' = s_conns s" "s_store s' = s_store s" "s_window s' = s_window s"
  using assms
  by (auto simp: run_handler_def updatestat_def rbind_eq_Inr Let_def take_buf_def split: if_splits)

lemma record_reply_ok:
  assumes "record_reply s h b sz = Inr s'"
  shows "srv_ok s' E = srv_ok s E" "s_conns s' = s_conns s" "s_store s' = s_store s"
  using assms by (auto simp: record_reply_def rbind_eq_Inr split: if_splits)

lemma dispatch_new_ok:
  assumes "srv_ok s E" "0 < E c" "dispatch_new s c h f req = Inr (c', s')"
  shows "srv_ok s' ((E(c := E c - 1))(c' := Suc ((E(c := E c - 1)) c')))"
proof -
  from assms(3) obtain b sz s1 s2 s3 where
    1: "run_handler s h f req = Inr (b, sz, s1)" and 2: "record_reply s1 h b sz = Inr s2"
    and 3: "latest_conn s2 (clt_nonce h) c = Inr (c', s3)" and 4: "srv_send s3 c' b sz = Inr s'"
    by (auto simp: dispatch_new_def rbind_eq_Inr)
  have "srv_ok s2 E" using run_handler_ok [OF 1] record_reply_ok [OF 2] assms(1) by simp
  from latest_conn_ok [OF this assms(2) 3] srv_send_ok [OF 4] show ?thesis by blast
qed

lemma dispatch_check_ok:
  assumes "srv_ok s E" "0 < E c" "dispatch_check s c h = Inr (st, out, s')"
  shows "srv_ok s' E"
  using save_conn_ok [OF assms(1,2), of "clt_nonce h"] assms(1,3)
  by (auto simp: dispatch_check_def rbind_eq_Inr split: if_splits)

lemma drop_held: "0 < E c \<Longrightarrow> ((E(c := E c - 1))(c' := Suc ((E(c := E c - 1)) c')))
    (c' := ((E(c := E c - 1))(c' := Suc ((E(c := E c - 1)) c'))) c' - 1) = E(c := E c - (1::nat))"
  by auto

text \<open>(C14) The dispatcher balances references: whatever the request, its duplicate status and the
  state of the connections, when a worker is done with a request it has given up exactly the one
  reference it was handed, every reference \<^verbatim>\<open>conns_\<close> holds is counted once, and no object in use
  was deleted. A request addressed to an earlier instance of the server is different: the worker keeps its
  reference for ever, and all counts stay as they were.\<close>

theorem dispatch_balances_references:
  assumes "srv_ok s E" "0 < E c" "dispatch s c b = Inr s'"
  shows "srv_ok s' (E(c := E c - (if to_old_server s b then 0 else 1)))"
proof (cases "to_old_server s b")
  case True
  with assms(3) obtain h where "send_failure s c h oldsrv_failure = Inr s'"
    by (auto simp: to_old_server_def dispatch_def rbind_eq_Inr split: sum.splits)
  with assms(1) True show ?thesis by (simp add: send_failure_ok)
next
  case False
  from assms(3) obtain h req where h: "unpack_req_header (unmarshall_of b) = Inr (h, req)"
    by (auto simp: dispatch_def rbind_eq_Inr)
  have "srv_ok s' (E(c := E c - 1))"
  proof (cases "u_ok req")
    case False
    with h assms srv_decref_ok [OF assms(1,2)] show ?thesis by (auto simp: dispatch_def)
  next
    case True
    with h False have n: "\<not> (srv_nonce h \<noteq> 0 \<and> srv_nonce h \<noteq> s_nonce s)"
      by (simp add: to_old_server_def)
    with True h assms(3) obtain f st out s1 c' s3 where
      c: "dispatch_check s c h = Inr (st, out, s1)" and d: "srv_decref s3 c' = Inr s'"
      and m: "dispatch_switch s1 c h f req st out = Inr (c', s3)"
      by (auto simp: dispatch_def rbind_eq_Inr split: option.splits)
    note ok = dispatch_check_ok [OF assms(1,2) c]
    have "srv_ok s3 ((E(c := E c - 1))(c' := Suc ((E(c := E c - 1)) c')))"
    proof (cases "st = NEW")
      case True
      with m dispatch_new_ok [OF ok assms(2)] show ?thesis by (simp add: dispatch_switch_def)
    next
      case False
      with m have "c' = c" and "srv_ok s3 E = srv_ok s1 E"
        by (auto simp: dispatch_switch_def rbind_eq_Inr split: rpcstate_t.splits option.splits
            dest: srv_send_ok send_failure_ok)
      with ok assms(2) show ?thesis by simp
    qed
    from srv_decref_ok [OF this, of c'] d show ?thesis
      unfolding drop_held [of E c c', OF assms(2)] by auto
  qed
  with False show ?thesis by simp
qed

lemma dispatch_balances_references_witness:
  "\<exists>s'. dispatch idle_server 3 (request 9 0) = Inr s' \<and> srv_ok s' (\<lambda>c. if c = 3 then 1 else 0)"
proof -
  have ok: "srv_ok idle_server (\<lambda>c. if c = 3 then 2 else 0)"
    by (simp add: srv_ok_def refs_ok_def idle_server_def conn_refs_def connection_new_def charbuf_new_def)
  have n: "\<not> to_old_server idle_server (request 9 0)"
    by (simp add: to_old_server_def request_parses request_header_def)
  obtain s' where s': "dispatch idle_server 3 (request 9 0) = Inr s'" using idle_dispatch by blast
  have "(\<lambda>c :: nat. if c = 3 then 2 else 0 :: nat)(3 := 2 - 1) = (\<lambda>c. if c = 3 then 1 else 0)" by auto
  with dispatch_balances_references [OF ok _ s'] s' n show ?thesis by simp
qed

section \<open>What the parts of the dispatcher change\<close>

lemma srv_decref_frame: "srv_decref s c = Inr s' \<Longrightarrow> s' = s\<lparr>s_store := s_store s'\<rparr>"
  by (auto simp: srv_decref_def rbind_eq_Inr)

lemma srv_incref_frame: "srv_incref s c = Inr s' \<Longrightarrow> s' = s\<lparr>s_store := s_store s'\<rparr>"
  by (auto simp: srv_incref_def rbind_eq_Inr)

lemma srv_send_frame:
  assumes "srv_send s c b sz = Inr s'"
  shows "\<exists>cs k. b = Some cs \<and> s_store s c = Some k \<and>
    s' = (if c_dead k then s else s\<lparr>s_sent := s_sent s @ [(c, cs, sz)]\<rparr>)"
  using assms by (auto simp: srv_send_def isdead_def conn_at_def rbind_eq_Inr split: option.splits)

lemma save_conn_frame:
  "save_conn s clt c = Inr s' \<Longrightarrow> s' = s\<lparr>s_store := s_store s', s_conns := s_conns s'\<rparr>"
  by (auto simp: save_conn_def rbind_eq_Inr srv_incref_def srv_decref_def split: option.splits if_splits)

lemma latest_conn_frame: "latest_conn s clt c = Inr (c', s') \<Longrightarrow> s' = s\<lparr>s_store := s_store s'\<rparr>"
  by (cases "isdead (s_store s) c"; cases "decref (s_store s) c")
    (auto simp: latest_conn_def rbind_eq_Inr srv_incref_def srv_decref_def split: option.splits if_splits)

lemma run_handler_frame:
  assumes "run_handler s h f req = Inr (b, sz, s')"
  shows "s_nonce s' = s_nonce s" "s_procs s' = s_procs s" "s_window s' = s_window s" "s_sent s' = s_sent s"
    "\<exists>ret rep. f (s_app s) req marshall_new = Inr (ret, rep, s_app s')"
  using assms
  by (auto simp: run_handler_def updatestat_def rbind_eq_Inr Let_def take_buf_def split: if_splits)

text \<open>A request that gets as far as the duplicate check.\<close>

lemma dispatch_cases:
  assumes "unpack_req_header (unmarshall_of b) = Inr (h, req)" "u_ok req" "\<not> to_old_server s b"
    and "dispatch s c b = Inr s'"
  obtains f st out s1 c' s2 where "s_procs s (proc h) = Some f" "dispatch_check s c h = Inr (st, out, s1)"
    "dispatch_switch s1 c h f req st out = Inr (c', s2)" "srv_decref s2 c' = Inr s'"
proof -
  from assms(1-3) have "\<not> (srv_nonce h \<noteq> 0 \<and> srv_nonce h \<noteq> s_nonce s)"
    by (simp add: to_old_server_def)
  with assms that show thesis by (auto simp: dispatch_def rbind_eq_Inr split: option.splits)
qed

lemma dispatch_check_frame:
  assumes "clt_nonce h \<noteq> 0" "dispatch_check s c h = Inr (st, out, s')"
  shows "\<exists>freed. checkduplicate_and_update (s_window s) (clt_nonce h) (xid h) (xid_rep h) =
      Inr (st, out, freed, s_window s')"
    "s_nonce s' = s_nonce s" "s_procs s' = s_procs s" "s_sent s' = s_sent s" "s_app s' = s_app s"
proof -
  from assms obtain s1 freed w where
    1: "save_conn s (clt_nonce h) c = Inr s1" "s' = s1\<lparr>s_window := w\<rparr>"
    "checkduplicate_and_update (s_window s1) (clt_nonce h) (xid h) (xid_rep h) = Inr (st, out, freed, w)"
    by (auto simp: dispatch_check_def rbind_eq_Inr)
  from save_conn_frame [OF 1(1)] have
    "s_nonce s1 = s_nonce s" "s_procs s1 = s_procs s" "s_sent s1 = s_sent s" "s_app s1 = s_app s"
    "s_window s1 = s_window s" by (metis rpcs.ext_inject rpcs.surjective rpcs.update_convs(8,9))+
  with 1 show "\<exists>freed. checkduplicate_and_update (s_window s) (clt_nonce h) (xid h) (xid_rep h) =
      Inr (st, out, freed, s_window s')"
    "s_nonce s' = s_nonce s" "s_procs s' = s_procs s" "s_sent s' = s_sent s" "s_app s' = s_app s"
    by simp_all
qed

lemma srv_store_frame:
  assumes "s' = s\<lparr>s_store := h\<rparr>"
  shows "s_nonce s' = s_nonce s" "s_procs s' = s_procs s" "s_sent s' = s_sent s" "s_app s' = s_app s"
    "s_window s' = s_window s" "s_conns s' = s_conns s"
  by (simp_all add: assms)

lemma dispatch_new_frame:
  assumes "dispatch_new s c h f req = Inr (c', s')" "clt_nonce h \<noteq> 0"
  shows "\<exists>b sz. s_window s' = (s_window s)(clt_nonce h \<mapsto>
        set_reply (xid h) (Some b) sz (window_of (s_window s) (clt_nonce h))) \<and>
      s_sent s' \<in> {s_sent s, s_sent s @ [(c', b, sz)]}"
    "s_nonce s' = s_nonce s" "s_procs s' = s_procs s"
    "\<exists>ret rep. f (s_app s) req marshall_new = Inr (ret, rep, s_app s')"
proof -
  from assms(1) obtain b sz s1 s2 s3 where
    1: "run_handler s h f req = Inr (b, sz, s1)" and 2: "record_reply s1 h b sz = Inr s2"
    and 3: "latest_conn s2 (clt_nonce h) c = Inr (c', s3)" and 4: "srv_send s3 c' b sz = Inr s'"
    by (auto simp: dispatch_new_def rbind_eq_Inr)
  note s3 = srv_store_frame [OF latest_conn_frame [OF 3]]
  obtain cs k where "b = Some cs \<and> s_store s3 c' = Some k \<and>
    s' = (if c_dead k then s3 else s3\<lparr>s_sent := s_sent s3 @ [(c', cs, sz)]\<rparr>)"
    using srv_send_frame [OF 4] by (elim exE) (rule that)
  then have b: "b = Some cs" and s': "s' = (if c_dead k then s3 else s3\<lparr>s_sent := s_sent s3 @ [(c', cs, sz)]\<rparr>)"
    by simp_all
  from 2 assms(2) have "s2 = s1\<lparr>s_window := (s_window s1)(clt_nonce h \<mapsto>
        set_reply (xid h) b sz (window_of (s_window s1) (clt_nonce h)))\<rparr>"
    by (cases "window_of (s_window s1) (clt_nonce h) = []") (simp_all add: record_reply_def add_reply_def word_gt_0)
  with b s' s3 run_handler_frame [OF 1] show
    "\<exists>b sz. s_window s' = (s_window s)(clt_nonce h \<mapsto>
        set_reply (xid h) (Some b) sz (window_of (s_window s) (clt_nonce h))) \<and>
      s_sent s' \<in> {s_sent s, s_sent s @ [(c', b, sz)]}"
    "s_nonce s' = s_nonce s" "s_procs s' = s_procs s"
    "\<exists>ret rep. f (s_app s) req marshall_new = Inr (ret, rep, s_app s')"
    by auto
qed

lemma check_new_iff:
  assumes "wok (window_of s clt)" "x > rep" "x \<notin> known s clt" "known s clt = {} \<or> (\<exists>y \<in> known s clt. y \<le> x)"
  shows "checkduplicate_and_update s clt x rep = Inr (remember_new s clt x (window_of s clt) [])"
proof -
  let ?w = "window_of s clt"
  have "\<not> (?w \<noteq> [] \<and> r_xid (hd ?w) > x)"
  proof
    assume a: "?w \<noteq> [] \<and> r_xid (hd ?w) > x"
    then have "x < y" if "y \<in> known s clt" for y
      using that assms(1) by (cases ?w) (auto simp: known_def window_simps xids_def)
    with assms(4) a show False by (cases ?w) (fastforce simp: known_def)+
  qed
  moreover have "find_xid x ?w = None" using assms(3) by (simp add: window_simps known_def)
  ultimately show ?thesis by (auto simp: check_cases [OF assms(1,2)] Let_def)
qed

lemma dispatch_first:
  assumes "unpack_req_header (unmarshall_of b) = Inr (h, req)" "u_ok req" "clt_nonce h \<noteq> 0"
    and "\<not> to_old_server s b" "wok (window_of (s_window s) (clt_nonce h))"
    and "xid h \<notin> known (s_window s) (clt_nonce h)"
    and "known (s_window s) (clt_nonce h) = {} \<or> (\<exists>y \<in> known (s_window s) (clt_nonce h). y \<le> xid h)"
    and "dispatch s c b = Inr s'"
  shows "\<exists>r n c'. wok (window_of (s_window s') (clt_nonce h)) \<and>
    seen (window_of (s_window s') (clt_nonce h)) =
      (seen (window_of (s_window s) (clt_nonce h)))(xid h \<mapsto> Some (r, n)) \<and>
    s_sent s' \<in> {s_sent s, s_sent s @ [(c', r, n)]}"
    "\<not> to_old_server s' b"
    "\<exists>f ret rep. s_procs s (proc h) = Some f \<and> f (s_app s) req marshall_new = Inr (ret, rep, s_app s')"
proof -
  let ?w = "window_of (s_window s) (clt_nonce h)"
  obtain f st out s1 c' s2 where d: "s_procs s (proc h) = Some f" "dispatch_check s c h = Inr (st, out, s1)"
    "dispatch_switch s1 c h f req st out = Inr (c', s2)" "srv_decref s2 c' = Inr s'"
    using dispatch_cases [OF assms(1,2,4,8)] by blast
  note fr = dispatch_check_frame [OF assms(3) d(2)]
  from fr(1) obtain fd where
    c: "checkduplicate_and_update (s_window s) (clt_nonce h) (xid h) (xid_rep h) = Inr (st, out, fd, s_window s1)"
    by blast
  then have "xid h > xid_rep h"
    by (cases "xid h > xid_rep h") (auto simp: checkduplicate_and_update_def)
  from c check_new_iff [OF assms(5) this assms(6,7)] have st: "st = NEW"
    and w1: "s_window s1 = (s_window s)(clt_nonce h \<mapsto> insert_reply ((reply_new (xid h))\<lparr>cb_present := True\<rparr>) ?w)"
    by (simp_all add: remember_new_def)
  from st d(3) have "dispatch_new s1 c h f req = Inr (c', s2)" by (simp add: dispatch_switch_def)
  note n = dispatch_new_frame [OF this assms(3)]
  from n(1) obtain r m where
    r: "s_window s2 = (s_window s1)(clt_nonce h \<mapsto>
        set_reply (xid h) (Some r) m (window_of (s_window s1) (clt_nonce h)))"
    "s_sent s2 \<in> {s_sent s1, s_sent s1 @ [(c', r, m)]}" by blast
  note s' = srv_store_frame [OF srv_decref_frame [OF d(4)]]
  let ?v = "insert_reply ((reply_new (xid h))\<lparr>cb_present := True\<rparr>) ?w"
  have x: "xid h \<notin> xids ?w" using assms(6) by (simp add: known_def)
  have win: "window_of (s_window s') (clt_nonce h) = set_reply (xid h) (Some r) m ?v"
    using s'(5) r(1) w1 by (simp add: window_of_upd)
  have "wok ?v" using wok_insert_reply [OF assms(5), of "(reply_new (xid h))\<lparr>cb_present := True\<rparr>"] x
    by (simp add: reply_new_def)
  then have "wok (window_of (s_window s') (clt_nonce h))" unfolding win by (rule wok_set_reply)
  moreover have "seen (set_reply (xid h) (Some r) m ?v) = (seen ?w)(xid h \<mapsto> Some (r, m))"
    using seen_set_reply [of "xid h" ?v r m] seen_insert_reply [OF x] by (simp add: reply_new_def)
  ultimately show "\<exists>r n c'. wok (window_of (s_window s') (clt_nonce h)) \<and>
    seen (window_of (s_window s') (clt_nonce h)) = (seen ?w)(xid h \<mapsto> Some (r, n)) \<and>
    s_sent s' \<in> {s_sent s, s_sent s @ [(c', r, n)]}"
    using r(2) fr(4) s'(3) win by auto
  show "\<not> to_old_server s' b"
    using assms(1,2,4) s'(1) n(2) fr(2) by (simp add: to_old_server_def)
  show "\<exists>f ret rep. s_procs s (proc h) = Some f \<and> f (s_app s) req marshall_new = Inr (ret, rep, s_app s')"
    using d(1) n(4) fr(5) s'(4) by auto
qed

section \<open>Replies that are kept\<close>

lemma has_reply_known: "has_reply w c y rn \<Longrightarrow> y \<in> xids (window_of w c)"
  using dom_seen [of "window_of w c"] by (auto simp: has_reply_def)

lemma check_keeps_replies:
  assumes "rw_ok w" "checkduplicate_and_update w c y rep = Inr (st, out, fd, w')"
  shows "rw_ok w'" "has_reply w clt x rn \<Longrightarrow> has_reply w' clt x rn"
    "st = NEW \<Longrightarrow> has_reply w c y rn \<Longrightarrow> False"
proof -
  have y: "y > rep"
    using assms(2) by (cases "y > rep") (auto simp: checkduplicate_and_update_def)
  note e = assms(2) [unfolded check_cases [OF rw_ok_window [OF assms(1)] y] Let_def]
  from check_wok(2) [OF rw_ok_window [OF assms(1)] assms(2)] rw_ok_upd [OF assms(1)]
  show "rw_ok w'" by auto
  have "w' = w(c \<mapsto> window_of w c) \<or> y \<notin> xids (window_of w c) \<and>
      w' = w(c \<mapsto> insert_reply ((reply_new y)\<lparr>cb_present := True\<rparr>) (window_of w c))"
    using e by (auto simp: remember_new_def window_simps split: if_splits option.splits)
  then show "has_reply w' clt x rn" if "has_reply w clt x rn"
    using that seen_insert_reply [of y "window_of w c"] has_reply_known [of w c y rn]
    by (auto simp: has_reply_def window_of_upd)
  show False if "st = NEW" "has_reply w c y rn"
    using e that has_reply_known [of w c y rn]
    by (auto simp: remember_new_def window_simps split: if_splits option.splits)
qed

lemma set_reply_keeps:
  assumes "has_reply w clt x rn" "(c, y) \<noteq> (clt, x)"
  shows "has_reply (w(c \<mapsto> set_reply y (Some b) sz (window_of w c))) clt x rn"
  using assms by (auto simp: has_reply_def window_of_upd seen_def find_set_reply)

lemma send_failure_window: "send_failure s c h r = Inr s' \<Longrightarrow> s_window s' = s_window s \<and> s_app s' = s_app s"
  by (auto simp: send_failure_def srv_send_def rbind_eq_Inr split: option.splits if_splits)

lemma dispatch_switch_window:
  assumes "dispatch_switch s c h f req st out = Inr (c', s')"
  shows "s_window s' = s_window s \<or> st = NEW \<and> clt_nonce h \<noteq> 0 \<and>
    (\<exists>b sz. s_window s' = (s_window s)(clt_nonce h \<mapsto>
        set_reply (xid h) (Some b) sz (window_of (s_window s) (clt_nonce h))))"
proof (cases "st = NEW")
  case True
  with assms have n: "dispatch_new s c h f req = Inr (c', s')" by (simp add: dispatch_switch_def)
  show ?thesis
  proof (cases "clt_nonce h = 0")
    case False
    with True dispatch_new_frame(1) [OF n] show ?thesis by blast
  next
    case z: True
    from n obtain b sz s1 s2 s3 where
      1: "run_handler s h f req = Inr (b, sz, s1)" and 2: "record_reply s1 h b sz = Inr s2"
      and 3: "latest_conn s2 (clt_nonce h) c = Inr (c', s3)" and 4: "srv_send s3 c' b sz = Inr s'"
      by (auto simp: dispatch_new_def rbind_eq_Inr)
    have "s_window s' = s_window s3"
      using 4 by (auto simp: srv_send_def rbind_eq_Inr split: option.splits if_splits)
    then show ?thesis
      using run_handler_frame(3) [OF 1] 2 z srv_store_frame(5) [OF latest_conn_frame [OF 3]]
      by (simp add: record_reply_def)
  qed
next
  case False
  have "s_window s1 = s_window s" if "srv_send s c b sz = Inr s1" for b sz s1
    using that by (auto simp: srv_send_def rbind_eq_Inr split: option.splits if_splits)
  with False assms show ?thesis
    by (auto simp: dispatch_switch_def rbind_eq_Inr split: rpcstate_t.splits option.splits
        dest: send_failure_window)
qed

lemma dispatch_keeps_replies:
  assumes "rw_ok (s_window s)" "dispatch s c b = Inr s'"
  shows "rw_ok (s_window s') \<and> (has_reply (s_window s) clt x rn \<longrightarrow> has_reply (s_window s') clt x rn)"
proof -
  from assms(2) obtain h req where h: "unpack_req_header (unmarshall_of b) = Inr (h, req)"
    by (auto simp: dispatch_def rbind_eq_Inr)
  show ?thesis
  proof (cases "u_ok req \<and> \<not> to_old_server s b")
    case False
    with h assms have "s_window s' = s_window s"
      by (auto simp: dispatch_def to_old_server_def dest: send_failure_window
          srv_store_frame(5) [OF srv_decref_frame] split: if_splits)
    with assms(1) show ?thesis by simp
  next
    case True
    then have "u_ok req" "\<not> to_old_server s b" by simp_all
    then obtain f st out s1 c' s2 where d: "dispatch_check s c h = Inr (st, out, s1)"
      "dispatch_switch s1 c h f req st out = Inr (c', s2)" "srv_decref s2 c' = Inr s'"
      by (rule dispatch_cases [OF h _ _ assms(2)])
    have s': "s_window s' = s_window s2" using srv_store_frame(5) [OF srv_decref_frame [OF d(3)]] .
    show ?thesis
    proof (cases "clt_nonce h = 0")
      case z: True
      with d(1) dispatch_switch_window [OF d(2)] s' assms(1) show ?thesis by (auto simp: dispatch_check_def)
    next
      case nz: False
      from dispatch_check_frame(1) [OF nz d(1)] obtain fd where
        c: "checkduplicate_and_update (s_window s) (clt_nonce h) (xid h) (xid_rep h) =
          Inr (st, out, fd, s_window s1)" by blast
      note k = check_keeps_replies [OF assms(1) c]
      from dispatch_switch_window [OF d(2)] show ?thesis
      proof
        assume "s_window s2 = s_window s1"
        with k s' show ?thesis by simp
      next
        assume n: "st = NEW \<and> clt_nonce h \<noteq> 0 \<and>
          (\<exists>b sz. s_window s2 = (s_window s1)(clt_nonce h \<mapsto>
            set_reply (xid h) (Some b) sz (window_of (s_window s1) (clt_nonce h))))"
        then have "has_reply (s_window s) clt x rn \<Longrightarrow> (clt_nonce h, xid h) \<noteq> (clt, x)"
          using k(3) by (cases rn) auto
        with n k s' set_reply_keeps show ?thesis
          using rw_ok_upd [OF k(1) wok_set_reply [OF rw_ok_window [OF k(1)]]] by metis
      qed
    qed
  qed
qed

lemma dispatches_keep_replies:
  "rw_ok (s_window s) \<Longrightarrow> dispatches s js = Inr s' \<Longrightarrow>
   rw_ok (s_window s') \<and> (has_reply (s_window s) clt x rn \<longrightarrow> has_reply (s_window s') clt x rn)"
proof (induction js arbitrary: s)
  case (Cons j js)
  obtain c b where j: "j = (c, b)" by fastforce
  with Cons.prems(2) obtain s1 where 1: "dispatch s c b = Inr s1" "dispatches s1 js = Inr s'"
    by (auto simp: rbind_eq_Inr)
  from dispatch_keeps_replies [OF Cons.prems(1) 1(1), of clt x rn] Cons.IH [OF _ 1(2)] show ?case by blast
qed simp

lemma decref_dead:
  assumes "decref h d = Inr h'" "h c = Some k" "h' c = Some k'"
  shows "c_dead k' = c_dead k"
  using assms by (cases "d = c") (auto simp: decref_def conn_at_def conn_delete_def rbind_eq_Inr Let_def split: if_splits)

lemma incref_dead: "incref h d = Inr h' \<Longrightarrow> h c = Some k \<Longrightarrow> \<exists>k'. h' c = Some k' \<and> c_dead k' = c_dead k"
  by (cases "d = c") (auto simp: incref_def conn_at_def rbind_eq_Inr)

lemma save_conn_dead:
  assumes "save_conn s clt c = Inr s'" "s_store s c = Some k"
  shows "\<exists>k'. s_store s' c = Some k' \<and> c_dead k' = c_dead k"
proof (cases "s_conns s clt")
  case None
  with assms show ?thesis by (auto simp: save_conn_def srv_incref_def rbind_eq_Inr dest: incref_dead)
next
  case (Some v)
  with assms(1) obtain d where d: "s_conns s clt = Some (Some d)" by (cases v) (auto simp: save_conn_def)
  with assms obtain kd where kd: "s_store s d = Some kd"
    by (auto simp: save_conn_def conn_at_def rbind_eq_Inr split: option.splits)
  show ?thesis
  proof (cases "compare kd k < 0")
    case False
    with assms d kd show ?thesis by (auto simp: save_conn_def conn_at_def)
  next
    case True
    with assms d kd obtain h1 h2 where h: "decref (s_store s) d = Inr h1" "incref h1 c = Inr h2" "s_store s' = h2"
      by (auto simp: save_conn_def conn_at_def srv_decref_def srv_incref_def rbind_eq_Inr)
    from h(2) obtain k1 where k1: "h1 c = Some k1"
      by (auto simp: incref_def conn_at_def rbind_eq_Inr split: option.splits)
    from incref_dead [OF h(2) k1] decref_dead [OF h(1) assms(2) k1] h(3) show ?thesis by simp
  qed
qed

lemma dispatch_again:
  assumes "unpack_req_header (unmarshall_of b) = Inr (h, req)" "u_ok req" "clt_nonce h \<noteq> 0"
    and "\<not> to_old_server s b" "rw_ok (s_window s)" "has_reply (s_window s) (clt_nonce h) (xid h) (r, n)"
    and "dispatch s c b = Inr s'" "s_store s c = Some k"
  shows "s_app s' = s_app s" "s_sent s' = s_sent s @ (if c_dead k then [] else [(c, r, n)])"
proof -
  let ?w = "window_of (s_window s) (clt_nonce h)"
  obtain f st out s1 c' s2 where "s_procs s (proc h) = Some f" and
    d: "dispatch_check s c h = Inr (st, out, s1)"
    "dispatch_switch s1 c h f req st out = Inr (c', s2)" "srv_decref s2 c' = Inr s'"
    by (rule dispatch_cases [OF assms(1,2,4,7)])
  note fr = dispatch_check_frame [OF assms(3) d(1)]
  from fr(1) obtain fd where
    c: "checkduplicate_and_update (s_window s) (clt_nonce h) (xid h) (xid_rep h) = Inr (st, out, fd, s_window s1)"
    by blast
  then have x: "xid h > xid_rep h"
    by (cases "xid h > xid_rep h") (auto simp: checkduplicate_and_update_def)
  have w: "wok ?w" using rw_ok_window [OF assms(5)] .
  from assms(6) obtain q where q: "find_xid (xid h) ?w = Some q" "r_buf q = Some r" "r_sz q = n"
    by (auto simp: has_reply_def seen_def)
  have "\<not> (?w \<noteq> [] \<and> r_xid (hd ?w) > xid h)"
  proof
    assume a: "?w \<noteq> [] \<and> r_xid (hd ?w) > xid h"
    then have "xid h < r_xid p" if "p \<in> set ?w" for p
      using that w by (cases ?w) (auto simp: window_simps)
    with find_xid_Some [OF q(1)] show False by fastforce
  qed
  moreover have "\<not> cb_present q" using wok_find [OF w q(1)] q(2) by simp
  ultimately have st: "st = DONE" "out = Some (Some r, n)"
    using c q by (auto simp: check_cases [OF w x] Let_def split: if_splits)
  with d(2) have send: "srv_send s1 c (Some r) n = Inr s2" by (auto simp: dispatch_switch_def rbind_eq_Inr)
  from d(1) assms(3) obtain s0 where s0: "save_conn s (clt_nonce h) c = Inr s0" "s_store s1 = s_store s0"
    by (auto simp: dispatch_check_def rbind_eq_Inr)
  from save_conn_dead [OF s0(1) assms(8)] obtain k' where
    "s_store s1 c = Some k'" "c_dead k' = c_dead k" using s0(2) by auto
  then have s2: "s2 = (if c_dead k then s1 else s1\<lparr>s_sent := s_sent s1 @ [(c, r, n)]\<rparr>)"
    using send by (simp add: srv_send_def isdead_def conn_at_def)
  note s' = srv_store_frame [OF srv_decref_frame [OF d(3)]]
  show "s_app s' = s_app s" using s'(4) s2 fr(5) by simp
  show "s_sent s' = s_sent s @ (if c_dead k then [] else [(c, r, n)])" using s'(3) s2 fr(4) by simp
qed

lemma dispatch_switch_nonce:
  assumes "dispatch_switch s c h f req st out = Inr (c', s')"
  shows "s_nonce s' = s_nonce s"
proof (cases "st = NEW")
  case True
  with assms obtain b sz s1 s2 s3 where
    1: "run_handler s h f req = Inr (b, sz, s1)" and 2: "record_reply s1 h b sz = Inr s2"
    and 3: "latest_conn s2 (clt_nonce h) c = Inr (c', s3)" and 4: "srv_send s3 c' b sz = Inr s'"
    by (auto simp: dispatch_switch_def dispatch_new_def rbind_eq_Inr)
  have "s_nonce s' = s_nonce s3"
    using 4 by (auto simp: srv_send_def rbind_eq_Inr split: option.splits if_splits)
  moreover have "s_nonce s2 = s_nonce s1"
    using 2 by (auto simp: record_reply_def rbind_eq_Inr split: if_splits)
  ultimately show ?thesis
    using run_handler_frame(1) [OF 1] srv_store_frame(1) [OF latest_conn_frame [OF 3]] by simp
next
  case False
  with assms show ?thesis
    by (auto simp: dispatch_switch_def send_failure_def srv_send_def rbind_eq_Inr
        split: rpcstate_t.splits option.splits if_splits)
qed

lemma dispatch_nonce:
  assumes "dispatch s c b = Inr s'"
  shows "s_nonce s' = s_nonce s"
proof -
  from assms obtain h req where h: "unpack_req_header (unmarshall_of b) = Inr (h, req)"
    by (auto simp: dispatch_def rbind_eq_Inr)
  show ?thesis
  proof (cases "u_ok req \<and> \<not> to_old_server s b")
    case False
    have "s_nonce s1 = s_nonce s" if "send_failure s c h r = Inr s1" for r s1
      using that by (auto simp: send_failure_def srv_send_def rbind_eq_Inr split: option.splits if_splits)
    with False h assms show ?thesis
      by (auto simp: dispatch_def to_old_server_def dest: srv_store_frame(1) [OF srv_decref_frame] split: if_splits)
  next
    case True
    then have "u_ok req" "\<not> to_old_server s b" by simp_all
    then obtain f st out s1 c' s2 where "s_procs s (proc h) = Some f" and
      d: "dispatch_check s c h = Inr (st, out, s1)"
      "dispatch_switch s1 c h f req st out = Inr (c', s2)" "srv_decref s2 c' = Inr s'"
      by (rule dispatch_cases [OF h _ _ assms])
    have "s_nonce s1 = s_nonce s"
      using d(1) dispatch_check_frame(2) [OF _ d(1)] by (cases "clt_nonce h = 0") (auto simp: dispatch_check_def)
    with dispatch_switch_nonce [OF d(2)] srv_store_frame(1) [OF srv_decref_frame [OF d(3)]]
    show ?thesis by simp
  qed
qed

lemma dispatches_nonce: "dispatches s js = Inr s' \<Longrightarrow> s_nonce s' = s_nonce s"
  by (induction s js rule: dispatches.induct) (auto simp: rbind_eq_Inr dest: dispatch_nonce)

text \<open>(C13) A request is executed once and answered alike ever after: if a request of an at-most-once
  client is new, its handler runs once on the application's state and one reply is recorded and
  sent; however many other requests are dispatched next, when the same request arrives again, on
  whatever connection, the application's state stays as it is and the recorded reply is sent on
  that connection unless it is dead.\<close>

theorem retransmission_same_reply:
  assumes "unpack_req_header (unmarshall_of b) = Inr (h, req)" "u_ok req" "clt_nonce h \<noteq> 0"
    and "\<not> to_old_server s b" "rw_ok (s_window s)" "xid h \<notin> known (s_window s) (clt_nonce h)"
    and "known (s_window s) (clt_nonce h) = {} \<or> (\<exists>y \<in> known (s_window s) (clt_nonce h). y \<le> xid h)"
    and "dispatch s c b = Inr s1" "dispatches s1 js = Inr s2"
    and "dispatch s2 c2 b = Inr s3" "s_store s2 c2 = Some k"
  shows "\<exists>r n. (\<exists>c'. s_sent s1 \<in> {s_sent s, s_sent s @ [(c', r, n)]}) \<and>
    (\<exists>f ret rep. s_procs s (proc h) = Some f \<and> f (s_app s) req marshall_new = Inr (ret, rep, s_app s1)) \<and>
    s_app s3 = s_app s2 \<and> s_sent s3 = s_sent s2 @ (if c_dead k then [] else [(c2, r, n)])"
proof -
  note first = dispatch_first [OF assms(1-4) rw_ok_window [OF assms(5)] assms(6-8)]
  from first(1) obtain r n c' where r: "has_reply (s_window s1) (clt_nonce h) (xid h) (r, n)"
    "s_sent s1 \<in> {s_sent s, s_sent s @ [(c', r, n)]}" by (auto simp: has_reply_def)
  have w1: "rw_ok (s_window s1)" using dispatch_keeps_replies [OF assms(5,8)] by blast
  from dispatches_keep_replies [OF w1 assms(9), of "clt_nonce h" "xid h" "(r, n)"] r(1)
  have w2: "rw_ok (s_window s2)" "has_reply (s_window s2) (clt_nonce h) (xid h) (r, n)" by blast+
  have "\<not> to_old_server s2 b"
    using assms(1,4) dispatch_nonce [OF assms(8)] dispatches_nonce [OF assms(9)]
    by (simp add: to_old_server_def)
  note again = dispatch_again [OF assms(1-3) this w2 assms(10,11)]
  from again r(2) first(3) show ?thesis by blast
qed

lemma retransmission_same_reply_witness:
  "\<exists>s1 s3 r n. dispatch idle_server 3 (request 9 0) = Inr s1 \<and> dispatch s1 3 (request 9 0) = Inr s3 \<and>
     s_app s3 = s_app s1 \<and> s_sent s3 = s_sent s1 @ [(3, r, n)]"
proof -
  let ?h = "request_header 9 0" and ?u = "(unmarshall_of (request 9 0))\<lparr>u_ind := 24\<rparr>"
  obtain b where s1: "dispatch idle_server 3 (request 9 0) = Inr (idle_server
     \<lparr>s_window := [9 \<mapsto> [\<lparr>r_xid = 2, cb_present = False, r_buf = Some b, r_sz = 28\<rparr>]],
      s_conns := [9 \<mapsto> Some 3], s_sent := [(3, b, 28)], s_app := 6\<rparr>)" (is "_ = Inr ?s1")
    using idle_dispatch by blast
  have "\<exists>s3. dispatch ?s1 3 (request 9 0) = Inr s3"
    by (simp add: dispatch_eval compare_def Let_def)
  then obtain s3 where s3: "dispatch ?s1 3 (request 9 0) = Inr s3" by blast
  have "u_ok ?u" "clt_nonce ?h \<noteq> 0" "\<not> to_old_server idle_server (request 9 0)" "rw_ok (s_window idle_server)"
    "xid ?h \<notin> known (s_window idle_server) (clt_nonce ?h)"
    "known (s_window idle_server) (clt_nonce ?h) = {} \<or>
      (\<exists>y \<in> known (s_window idle_server) (clt_nonce ?h). y \<le> xid ?h)"
    by (simp_all add: request_header_def to_old_server_def request_parses idle_server_def known_def window_of_def)
  from retransmission_same_reply [OF request_parses this s1, of "[]" ?s1 3 s3] s1 s3 show ?thesis
    by (simp add: idle_server_def connection_new_def)
qed

section \<open>Two ways the dispatcher goes wrong\<close>

lemma failure_reply: "\<exists>rep b. pack_reply_header marshall_new h = Inr rep \<and> m_buf rep = Some b \<and> m_ind rep = 24"
proof -
  from pack_reply_header_writes [OF mwf_new, of h] obtain m where
    m: "pack_reply_header marshall_new h = Inr m" "mwf m" "m_ind m = m_ind marshall_new" by blast
  then show ?thesis by (auto simp: marshall_new_def sizes elim: mwf_cases)
qed

text \<open>A request for an earlier instance of the server leaks its connection: the failure reply is
  sent, but the worker returns without giving up the reference it was handed, so every connection
  object keeps its count and the connection can never be deleted.\<close>

theorem old_server_leaks_reference:
  assumes "to_old_server s b" "s_store s c = Some k"
  shows "\<exists>s'. dispatch s c b = Inr s' \<and> s_store s' = s_store s \<and> conn_ref (s_store s') c = Inr (c_refno k) \<and>
    length (s_sent s') = length (s_sent s) + (if c_dead k then 0 else 1)"
proof -
  from assms(1) obtain h req where h: "unpack_req_header (unmarshall_of b) = Inr (h, req)" "u_ok req"
    "srv_nonce h \<noteq> 0 \<and> srv_nonce h \<noteq> s_nonce s"
    by (auto simp: to_old_server_def split: sum.splits)
  obtain rep rb where "pack_reply_header marshall_new \<lparr>rh_xid = xid h, rh_ret = oldsrv_failure\<rparr> = Inr rep"
    "m_buf rep = Some rb" using failure_reply by blast
  then have "send_failure s c h oldsrv_failure =
      Inr (if c_dead k then s else s\<lparr>s_sent := s_sent s @ [(c, rb, m_ind rep)]\<rparr>)"
    using assms(2) by (simp add: send_failure_def srv_send_def isdead_def conn_at_def)
  with h assms(2) show ?thesis by (simp add: dispatch_def conn_ref_def conn_at_def)
qed

lemma old_server_leaks_reference_witness:
  "\<exists>s'. dispatch idle_server 3 (request 9 76) = Inr s' \<and> conn_ref (s_store s') 3 = Inr 2"
proof -
  have "to_old_server idle_server (request 9 76)"
    by (simp add: to_old_server_def request_parses request_header_def idle_server_def)
  moreover have "s_store idle_server 3 = Some ((connection_new 0 0)\<lparr>c_refno := 2\<rparr>)"
    by (simp add: idle_server_def)
  ultimately show ?thesis using old_server_leaks_reference [of idle_server "request 9 76" 3] by fastforce
qed

text \<open>A client that does not ask for at-most-once execution can crash the server by going away:
  if its connection is dead when the handler returns, the dispatcher looks for a newer connection
  under client number \<open>0\<close>, which is never stored, and calls a method through the null pointer.\<close>

theorem anonymous_client_crashes_server:
  assumes "unpack_req_header (unmarshall_of b) = Inr (h, req)" "u_ok req" "\<not> to_old_server s b"
    and "clt_nonce h = 0" "s_conns s 0 = None" "s_procs s (proc h) = Some f"
    and "f (s_app s) req marshall_new = Inr (ret, rep, app)" "0 \<le> sint ret" "mwf rep"
    and "s_store s c = Some k" "c_dead k" "c_refno k \<ge> 2"
  shows "dispatch s c b = Inl NullDeref"
proof -
  have n: "\<not> (srv_nonce h \<noteq> 0 \<and> srv_nonce h \<noteq> s_nonce s)"
    using assms(1-3) by (simp add: to_old_server_def)
  have ret: "ret \<noteq> unmarshal_args_failure" using assms(8) by (auto simp: unmarshal_args_failure_def)
  obtain m where m: "pack_reply_header rep \<lparr>rh_xid = xid h, rh_ret = ret\<rparr> = Inr m"
    using pack_reply_header_writes [OF assms(9)] by blast
  have s1: "s_store (if s_counting s \<noteq> 0 then updatestat s (proc h) else s) = s_store s"
    "s_conns (if s_counting s \<noteq> 0 then updatestat s (proc h) else s) = s_conns s"
    "s_app (if s_counting s \<noteq> 0 then updatestat s (proc h) else s) = s_app s"
    by (simp_all add: updatestat_def Let_def)
  have r: "run_handler s h f req = Inr (m_buf m, m_ind m,
      (if s_counting s \<noteq> 0 then updatestat s (proc h) else s)\<lparr>s_app := app\<rparr>)"
    using assms(7,8) ret m s1(3) by (simp add: run_handler_def take_buf_def Let_def)
  have "latest_conn ((if s_counting s \<noteq> 0 then updatestat s (proc h) else s)\<lparr>s_app := app\<rparr>) 0 c = Inl NullDeref"
    using assms(5,10-12) s1 by (simp add: latest_conn_def isdead_def srv_decref_def decref_def conn_at_def)
  with r assms(4) have "dispatch_new s c h f req = Inl NullDeref"
    by (simp add: dispatch_new_def record_reply_def)
  with assms(1,2,4,6) n show ?thesis by (auto simp: dispatch_def dispatch_check_def dispatch_switch_def)
qed

lemma anonymous_client_crashes_server_witness:
  "dispatch (idle_server\<lparr>s_store := [3 \<mapsto> (connection_new 0 0)\<lparr>c_refno := 2, c_dead := True\<rparr>]\<rparr>) 3 (request 0 0) =
     Inl NullDeref"
proof -
  obtain m where m: "put_int marshall_new 5 = Inr m" "mwf m"
    using sint.put_appends [OF mwf_new, of 5]
    by (auto simp: marshall_new_def sizes MSG_MAX_def enc_u32_def appended_def)
  then have "counter_handler 5 req marshall_new = Inr (0, m, 6)" for req by (simp add: counter_handler_def)
  with m(2) show ?thesis
    by (intro anonymous_client_crashes_server [OF request_parses, where f = counter_handler and ret = 0 and rep = m
          and k = "(connection_new 0 0)\<lparr>c_refno := 2, c_dead := True\<rparr>"])
      (simp_all add: to_old_server_def request_parses request_header_def idle_server_def connection_new_def)
qed

end
