(* ===== verification/Rpc_Client.thy ===== *)
theory Rpc_Client
  imports Rpc_Dispatch
begin

text \<open>
  The client endpoint \<^verbatim>\<open>rpcc\<close> of \<^verbatim>\<open>rpc/rpc.h\<close> and \<^verbatim>\<open>rpc/rpc.cc\<close>: the numbering of requests, the window
  of received replies whose front is sent along as an acknowledgement (\<^verbatim>\<open>update_xid_rep\<close>), the
  table of outstanding calls, and the connection it holds. \<^verbatim>\<open>call1\<close> holds the mutex \<^verbatim>\<open>m_\<close> in three
  places; each of these, \<^verbatim>\<open>got_pdu\<close> and \<^verbatim>\<open>cancel\<close> is one operation here, so that a run of a client
  with many threads is a sequence of them.
\<close>

section \<open>State\<close>

text \<open>A caller's \<^verbatim>\<open>intret\<close> has no value before the call is done.\<close>

record caller =
  ca_xid :: u32
  ca_un :: unmarshall
  ca_intret :: "u32 option"
  ca_done :: bool

definition caller_new :: "u32 \<Rightarrow> unmarshall \<Rightarrow> caller" where
  "caller_new x un = \<lparr>ca_xid = x, ca_un = un, ca_intret = None, ca_done = False\<rparr>"

text \<open>\<open>cl_dup_req\<close> is the struct \<^verbatim>\<open>request\<close>, invalid while its \<^verbatim>\<open>xid\<close> is \<open>-1\<close>.\<close>

record request =
  q_buf :: "cell list"
  q_xid :: int

definition request_clear :: request where
  "request_clear = \<lparr>q_buf = [], q_xid = -1\<rparr>"

definition isvalid :: "request \<Rightarrow> bool" where
  "isvalid q \<longleftrightarrow> q_xid q \<noteq> -1"

record rpcc =
  cl_clt_nonce :: u32
  cl_srv_nonce :: u32
  cl_bind_done :: bool
  cl_xid :: u32
  cl_lossytest :: int
  cl_retrans :: bool
  cl_reachable :: bool
  cl_destroy_wait :: bool
  cl_calls :: "u32 \<rightharpoonup> caller"
  cl_window :: "u32 list"
  cl_dup_req :: request
  cl_xid_rep_done :: int

definition rpcc_new :: "u32 \<Rightarrow> bool \<Rightarrow> int \<Rightarrow> rpcc" where
  "rpcc_new rnd retrans lossy =
     \<lparr>cl_clt_nonce = (if retrans then rnd else 0), cl_srv_nonce = 0, cl_bind_done = False, cl_xid = 1,
      cl_lossytest = lossy, cl_retrans = retrans, cl_reachable = True, cl_destroy_wait = False,
      cl_calls = Map.empty, cl_window = [0], cl_dup_req = request_clear, cl_xid_rep_done = -1\<rparr>"

section \<open>The window of received replies\<close>

text \<open>The first loop of \<^verbatim>\<open>update_xid_rep\<close>: insertion before the first larger element.\<close>

fun xid_insert :: "u32 \<Rightarrow> u32 list \<Rightarrow> u32 list" where
  "xid_insert x [] = [x]"
| "xid_insert x (y # ys) = (if y > x then x # y # ys else y # xid_insert x ys)"

text \<open>The second loop, with the list split at its iterator: \<open>before\<close> are the elements from the front
  of the list up to the iterator, which \<^verbatim>\<open>pop_front\<close> removes while the front plus one is the
  iterator's element.\<close>

fun pop_while :: "u32 list \<Rightarrow> u32 \<Rightarrow> u32 list" where
  "pop_while [] x = []"
| "pop_while (f # fs) x = (if f + 1 = x then pop_while fs x else f # fs)"

fun compress :: "u32 list \<Rightarrow> u32 list \<Rightarrow> u32 list" where
  "compress before [] = before"
| "compress before (x # xs) = compress (pop_while before x @ [x]) xs"

definition update_xid_rep :: "u32 list \<Rightarrow> u32 \<Rightarrow> u32 list res" where
  "update_xid_rep w x =
     (case w of
        [] \<Rightarrow> Inl OutOfBounds
      | f # _ \<Rightarrow>
          if x \<le> f then Inr w
          else let w' = xid_insert x w in Inr (compress [hd w'] (tl w')))"

section \<open>Calls\<close>

text \<open>The first critical section of \<^verbatim>\<open>call1\<close>: \<open>Inl\<close> is an early return of a failure code.\<close>

definition call_begin ::
  "rpcc \<Rightarrow> u32 \<Rightarrow> marshall \<Rightarrow> unmarshall \<Rightarrow> ((u32 + (req_header \<times> marshall)) \<times> rpcc) res" where
  "call_begin c p req rep =
     (if (p \<noteq> rpc_bind \<and> \<not> cl_bind_done c) \<or> (p = rpc_bind \<and> cl_bind_done c)
      then Inr (Inl bind_failure, c)
      else if cl_destroy_wait c then Inr (Inl cancel_failure, c)
      else case cl_window c of
        [] \<Rightarrow> Inl OutOfBounds
      | front # _ \<Rightarrow>
          let x = cl_xid c;
              h = \<lparr>xid = x, proc = p, clt_nonce = cl_clt_nonce c, srv_nonce = cl_srv_nonce c, xid_rep = front\<rparr>
          in rbind (pack_req_header req h) (\<lambda>req'.
             Inr (Inr (h, req'), c\<lparr>cl_xid := x + 1, cl_calls := (cl_calls c)(x \<mapsto> caller_new x rep)\<rparr>)))"

text \<open>The old request that is sent again on a lossy channel, taken before a transmission and
  replaced after a successful call.\<close>

definition take_dup :: "rpcc \<Rightarrow> request \<times> rpcc" where
  "take_dup c =
     (if isvalid (cl_dup_req c) \<and> cl_xid_rep_done c > q_xid (cl_dup_req c)
      then (cl_dup_req c, c\<lparr>cl_dup_req := request_clear\<rparr>) else (request_clear, c))"

definition save_dup :: "rpcc \<Rightarrow> bool \<Rightarrow> cell list \<Rightarrow> u32 \<Rightarrow> u32 \<Rightarrow> rpcc" where
  "save_dup c done buf x rep =
     (if done \<and> cl_lossytest c \<noteq> 0
      then let c1 = (if \<not> isvalid (cl_dup_req c)
                     then c\<lparr>cl_dup_req := \<lparr>q_buf = buf, q_xid = sint x\<rparr>\<rparr> else c) in
           if sint rep > cl_xid_rep_done c1 then c1\<lparr>cl_xid_rep_done := sint rep\<rparr> else c1
      else c)"

text \<open>The last critical section, with the value \<^verbatim>\<open>call1\<close> returns.\<close>

definition call_end :: "rpcc \<Rightarrow> u32 \<Rightarrow> ((u32 \<times> unmarshall) \<times> rpcc) res" where
  "call_end c x =
     (case cl_calls c x of
        None \<Rightarrow> Inl UseAfterFree
      | Some ca \<Rightarrow>
          rbind (update_xid_rep (cl_window c) x) (\<lambda>w.
          Inr ((if ca_done ca then (case ca_intret ca of None \<Rightarrow> 0 | Some r \<Rightarrow> r) else timeout_failure, ca_un ca),
               c\<lparr>cl_calls := (cl_calls c)(x := None), cl_window := w\<rparr>)))"

definition cl_got_pdu :: "rpcc \<Rightarrow> byte list \<Rightarrow> rpcc res" where
  "cl_got_pdu c b =
     rbind (unpack_reply_header (unmarshall_of b)) (\<lambda>(h, rep).
     if \<not> u_ok rep then Inr c
     else rbind (update_xid_rep (cl_window c) (rh_xid h)) (\<lambda>w.
       let c1 = c\<lparr>cl_window := w\<rparr> in
       case cl_calls c (rh_xid h) of
         None \<Rightarrow> Inr c1
       | Some ca \<Rightarrow>
           if ca_done ca then Inr c1
           else Inr (c1\<lparr>cl_calls := (cl_calls c)(rh_xid h \<mapsto>
             ca\<lparr>ca_un := fst (take_in (ca_un ca) rep), ca_intret := Some (rh_ret h), ca_done := True\<rparr>)\<rparr>)))"

definition cancel :: "rpcc \<Rightarrow> rpcc" where
  "cancel c =
     (let calls = map_option (\<lambda>ca. ca\<lparr>ca_done := True, ca_intret := Some cancel_failure\<rparr>) \<circ> cl_calls c
      in if dom calls = {} then c\<lparr>cl_calls := calls\<rparr>
         else c\<lparr>cl_calls := calls, cl_destroy_wait := True\<rparr>)"

text \<open>The end of \<^verbatim>\<open>bind\<close>, given what the call for \<^verbatim>\<open>rpc_const::bind\<close> returned.\<close>

definition bind_end :: "rpcc \<Rightarrow> u32 \<Rightarrow> u32 \<Rightarrow> rpcc" where
  "bind_end c ret r = (if ret = 0 then c\<lparr>cl_bind_done := True, cl_srv_nonce := r\<rparr> else c)"

text \<open>\<^verbatim>\<open>get_refconn\<close>: \<open>chan\<close> is \<^verbatim>\<open>chan_\<close>, \<open>ch\<close> the caller's connection, and \<open>fresh\<close> what
  \<^verbatim>\<open>connect_to_dst\<close> returns if it is called.\<close>

definition get_refconn ::
  "conn_store \<Rightarrow> cid option \<Rightarrow> cid option \<Rightarrow> (cid \<times> int \<times> int) option \<Rightarrow> (conn_store \<times> cid option \<times> cid option) res" where
  "get_refconn h chan ch fresh =
     rbind (case chan of None \<Rightarrow> Inr True | Some d \<Rightarrow> isdead h d) (\<lambda>gone.
     rbind (if gone
            then rbind (case chan of None \<Rightarrow> Inr h | Some d \<Rightarrow> decref h d) (\<lambda>h1.
                 Inr (case fresh of
                        None \<Rightarrow> (h1, None)
                      | Some (d, sec, usec) \<Rightarrow> (h1(d \<mapsto> connection_new sec usec), Some d)))
            else Inr (h, chan)) (\<lambda>(h2, chan').
     case chan' of
       None \<Rightarrow> Inr (h2, None, ch)
     | Some d \<Rightarrow>
         rbind (case ch of None \<Rightarrow> Inr h2 | Some e \<Rightarrow> decref h2 e) (\<lambda>h3.
         rbind (incref h3 d) (\<lambda>h4. Inr (h4, Some d, Some d)))))"

definition rpcc_delete :: "rpcc \<Rightarrow> unit res" where
  "rpcc_delete c = verify (dom (cl_calls c) = {})"

section \<open>Runs of a client\<close>

datatype cl_op = Begin u32 marshall unmarshall | Pdu "byte list" | End u32 | Cancel | Bound u32 u32

text \<open>The headers of the requests a run sends, in order.\<close>

definition cl_step :: "rpcc \<Rightarrow> cl_op \<Rightarrow> (req_header list \<times> rpcc) res" where
  "cl_step c op =
     (case op of
        Begin p req rep \<Rightarrow>
          rbind (call_begin c p req rep) (\<lambda>(r, c').
          Inr ((case r of Inl _ \<Rightarrow> [] | Inr (h, _) \<Rightarrow> [h]), c'))
      | Pdu b \<Rightarrow> rbind (cl_got_pdu c b) (\<lambda>c'. Inr ([], c'))
      | End x \<Rightarrow> rbind (call_end c x) (\<lambda>(r, c'). Inr ([], c'))
      | Cancel \<Rightarrow> Inr ([], cancel c)
      | Bound ret r \<Rightarrow> Inr ([], bind_end c ret r))"

fun cl_run :: "rpcc \<Rightarrow> cl_op list \<Rightarrow> (req_header list \<times> rpcc) res" where
  "cl_run c [] = Inr ([], c)"
| "cl_run c (e # es) = rbind (cl_step c e) (\<lambda>(hs, c1). rbind (cl_run c1 es) (\<lambda>(hs', c2). Inr (hs @ hs', c2)))"

text \<open>A reply that answers a request the client has sent, or whose header does not parse.\<close>

definition solicited :: "rpcc \<Rightarrow> byte list \<Rightarrow> bool" where
  "solicited c b =
     (case unpack_reply_header (unmarshall_of b) of
        Inl _ \<Rightarrow> True
      | Inr (h, rep) \<Rightarrow> u_ok rep \<longrightarrow> rh_xid h < cl_xid c)"

text \<open>Every reply in the run is solicited, and the request number never wraps around.\<close>

fun honest :: "rpcc \<Rightarrow> cl_op list \<Rightarrow> bool" where
  "honest c [] = True"
| "honest c (e # es) =
     ((case e of Pdu b \<Rightarrow> solicited c b | Begin _ _ _ \<Rightarrow> cl_xid c + 1 \<noteq> 0 | _ \<Rightarrow> True) \<and>
      (case cl_step c e of Inl _ \<Rightarrow> True | Inr (hs, c') \<Rightarrow> honest c' es))"

text \<open>The window represents the set \<open>R\<close> of acknowledged request numbers.\<close>

definition represents :: "u32 list \<Rightarrow> u32 set \<Rightarrow> bool" where
  "represents w R \<longleftrightarrow>
     w \<noteq> [] \<and> sorted w \<and> hd w + 1 \<notin> R \<and> {y. 0 < y \<and> y \<le> hd w} \<subseteq> R \<and>
     set w \<subseteq> insert (hd w) R \<and> {y \<in> R. hd w < y} \<subseteq> set w"

definition cl_inv :: "rpcc \<Rightarrow> bool" where
  "cl_inv c \<longleftrightarrow>
     (\<exists>R. represents (cl_window c) R \<and> 0 \<notin> R \<and> (\<forall>y \<in> R. y < cl_xid c)) \<and> 0 < cl_xid c \<and>
     (\<forall>x \<in> dom (cl_calls c). 0 < x \<and> x < cl_xid c)"

fun update_all :: "u32 list \<Rightarrow> u32 list \<Rightarrow> u32 list res" where
  "update_all w [] = Inr w"
| "update_all w (x # xs) = rbind (update_xid_rep w x) (\<lambda>w'. update_all w' xs)"

text \<open>A client that binds, gets the reply late and twice, and then makes a call.\<close>

definition reply_to :: "u32 \<Rightarrow> byte list" where
  "reply_to x = replicate 4 0 @ enc_reply_header \<lparr>rh_xid = x, rh_ret = 0\<rparr> @ replicate 12 0"

definition cl_example :: "cl_op list" where
  "cl_example =
     [Begin rpc_bind marshall_new unmarshall_new, Pdu (reply_to 1), End 1, Pdu (reply_to 1), Bound 0 7,
      Begin 4 marshall_new unmarshall_new]"

section \<open>The window\<close>

lemma word_between: "(f :: u32) \<le> y \<Longrightarrow> y \<le> f + 1 \<Longrightarrow> y = f \<or> y = f + 1"
  using inc_le [of f y] by (auto simp: order.order_iff_strict)

lemma word_less_Suc: "(f :: u32) + 1 \<noteq> 0 \<Longrightarrow> f < f + 1"
  by (simp add: word_less_nat_alt unatSuc add.commute)

lemma set_xid_insert [simp]: "set (xid_insert x w) = insert x (set w)"
  by (induction w) auto

lemma sorted_xid_insert: "sorted w \<Longrightarrow> sorted (xid_insert x w)"
  by (induction w) auto

lemma hd_xid_insert: "w \<noteq> [] \<Longrightarrow> hd w \<le> x \<Longrightarrow> hd (xid_insert x w) = hd w"
  by (cases w) auto

lemma pop_while_all: "\<forall>y \<in> set fs. y + 1 = x \<Longrightarrow> pop_while fs x = []"
  by (induction fs) auto

text \<open>One step of the compression: if it removes anything, it removes everything before the
  iterator.\<close>

lemma pop_while_step:
  assumes "before \<noteq> []" "sorted (before @ [x])" "hd before + 1 \<notin> set before"
  shows "pop_while before x = (if hd before + 1 = x then [] else before)"
proof (cases before)
  case (Cons f fs)
  show ?thesis
  proof (cases "f + 1 = x")
    case True
    have "y = f" if "y \<in> set before" for y
      using assms(2,3) that Cons True word_between [of f y] by (auto simp: sorted_append)
    then have "\<forall>y \<in> set before. y + 1 = x" using True by blast
    then have "pop_while before x = []" by (rule pop_while_all)
    with True Cons show ?thesis by simp
  qed (use Cons in simp)
qed (use assms in simp)

lemma compress_correct:
  "before \<noteq> [] \<Longrightarrow> sorted (before @ xs) \<Longrightarrow> hd before + 1 \<notin> set before \<Longrightarrow> w = compress before xs \<Longrightarrow>
   w \<noteq> [] \<and> sorted w \<and> hd w + 1 \<notin> set w \<and> set w \<subseteq> set (before @ xs) \<and> hd before \<le> hd w \<and>
   (\<forall>y \<in> set (before @ xs). hd w \<le> y \<longrightarrow> y \<in> set w) \<and>
   (\<forall>y. hd before \<le> y \<and> y \<le> hd w \<longrightarrow> y \<in> set (before @ xs))"
proof (induction xs arbitrary: before)
  case Nil
  then show ?case by (cases before) (auto intro: order.antisym)
next
  case (Cons x xs)
  have s: "sorted (before @ [x])" using Cons.prems(2) by (auto simp: sorted_append)
  show ?case
  proof (cases "hd before + 1 = x")
    case False
    with Cons.prems pop_while_step [OF Cons.prems(1) s Cons.prems(3)] Cons.IH [of "before @ [x]"]
    show ?thesis by auto
  next
    case True
    have le: "hd before \<le> x" "\<forall>y \<in> set before. y \<le> x" using s Cons.prems(1) by (auto simp: sorted_append)
    have "sorted ([x] @ xs)" using Cons.prems(2) by (auto simp: sorted_append)
    with True Cons.prems pop_while_step [OF Cons.prems(1) s Cons.prems(3)] Cons.IH [of "[x]"]
    have ih: "w \<noteq> []" "sorted w" "hd w + 1 \<notin> set w" "set w \<subseteq> set ([x] @ xs)" "x \<le> hd w"
      "\<forall>y \<in> set ([x] @ xs). hd w \<le> y \<longrightarrow> y \<in> set w" "\<forall>y. x \<le> y \<and> y \<le> hd w \<longrightarrow> y \<in> set ([x] @ xs)"
      by auto
    have "y \<in> set w" if "y \<in> set before" "hd w \<le> y" for y
    proof -
      have "y = x" using le(2) that ih(5) by (meson order.antisym order.trans)
      with ih(6) that(2) show ?thesis by simp
    qed
    moreover have "y \<in> set (before @ x # xs)" if "hd before \<le> y" "y \<le> hd w" for y
    proof (cases "x \<le> y")
      case False
      then have "y \<le> hd before + 1" using True by simp
      with False True have "y = hd before" using that(1) word_between [of "hd before" y] by blast
      with Cons.prems(1) show ?thesis by simp
    qed (use ih(7) that in auto)
    ultimately show ?thesis using ih le(1) by auto
  qed
qed

lemma update_represents:
  assumes "represents w R" "0 \<notin> R"
  shows "\<exists>w'. update_xid_rep w x = Inr w' \<and> represents w' (insert x R - {0})"
proof -
  from assms(1) obtain f w0 where w: "w = f # w0" by (cases w) (auto simp: represents_def)
  note r = assms(1) [unfolded represents_def]
  show ?thesis
  proof (cases "x \<le> f")
    case True
    then have "insert x R - {0} = R" using r assms(2) w by (auto simp: word_gt_0)
    with True w assms(1) show ?thesis by (simp add: update_xid_rep_def)
  next
    case False
    then have lt: "f < x" by simp
    have "0 < x" using lt by (rule le_less_trans [rotated]) simp
    then have R': "insert x R - {0} = insert x R" using assms(2) by auto
    define v where "v = xid_insert x w"
    have v: "sorted v" "hd v = f" "set v = insert x (set w)" "v \<noteq> []"
      using r lt w hd_xid_insert [of w x] set_xid_insert [of x w] sorted_xid_insert [of w x] by (auto simp: v_def)
    define u where "u = compress [hd v] (tl v)"
    have hv: "[hd v] @ tl v = v" using v(4) by simp
    have "[hd v] \<noteq> []" "sorted ([hd v] @ tl v)" "hd [hd v] + 1 \<notin> set [hd v]"
      using v(1) unfolding hv by simp_all
    from compress_correct [OF this u_def, unfolded hv] v(2) have
      u: "u \<noteq> []" "sorted u" "hd u + 1 \<notin> set u" "set u \<subseteq> set v" "f \<le> hd u"
      "\<forall>y \<in> set v. hd u \<le> y \<longrightarrow> y \<in> set u" "\<forall>y. f \<le> y \<and> y \<le> hd u \<longrightarrow> y \<in> set v" by simp_all
    have big: "y \<in> set u" if "y \<in> insert x R" "hd u < y" for y
    proof -
      have "f < y" using u(5) that(2) by simp
      then have "y \<in> set v" using that(1) r w v(3) by auto
      with u(6) that(2) show ?thesis by simp
    qed
    have "represents u (insert x R)"
      unfolding represents_def
    proof (intro conjI)
      show "hd u + 1 \<notin> insert x R"
      proof
        assume a: "hd u + 1 \<in> insert x R"
        then have "hd u + 1 \<noteq> 0" using assms(2) \<open>0 < x\<close> by auto
        then have "hd u < hd u + 1" by (rule word_less_Suc)
        with big [OF a] u(3) show False by simp
      qed
      show "{y. 0 < y \<and> y \<le> hd u} \<subseteq> insert x R"
      proof
        fix y assume y: "y \<in> {y. 0 < y \<and> y \<le> hd u}"
        show "y \<in> insert x R"
        proof (cases "y \<le> f")
          case False
          then have "y \<in> set v" "y \<noteq> f" using u(7) y by auto
          with v(3) r w show ?thesis by auto
        qed (use r w y in auto)
      qed
      show "set u \<subseteq> insert (hd u) (insert x R)"
      proof
        fix y assume y: "y \<in> set u"
        then have "hd u \<le> y" using u(1,2) by (cases u) auto
        then have "y = f \<Longrightarrow> y = hd u" using u(5) by simp
        moreover have "y \<in> insert x (insert f R)" using y u(4) v(3) r w by auto
        ultimately show "y \<in> insert (hd u) (insert x R)" by auto
      qed
      show "{y \<in> insert x R. hd u < y} \<subseteq> set u" using big by blast
    qed (use u in auto)
    with False w R' show ?thesis by (simp add: update_xid_rep_def u_def v_def Let_def)
  qed
qed

lemma update_all_represents:
  "represents w R \<Longrightarrow> 0 \<notin> R \<Longrightarrow> \<exists>w'. update_all w xs = Inr w' \<and> represents w' ((set xs \<union> R) - {0})"
proof (induction xs arbitrary: w R)
  case Nil
  then show ?case by simp
next
  case (Cons x xs)
  from update_represents [OF Cons.prems, of x] obtain w1 where
    1: "update_xid_rep w x = Inr w1" "represents w1 (insert x R - {0})" by blast
  moreover have "set xs \<union> (insert x R - {0}) - {0} = insert x (set xs \<union> R) - {0}" by auto
  ultimately show ?case using Cons.IH [OF 1(2)] by simp
qed

lemma represents_init: "represents [0] {}"
  by (auto simp: represents_def word_gt_0)

text \<open>(C15) The acknowledgement is exact: after any sequence of received replies, in any order and with
  any duplicates, the front of the client's window is the greatest number up to which every
  request has been answered, and the operation never fails.\<close>

theorem acknowledgement_exact:
  "\<exists>w. update_all [0] xs = Inr w \<and> w \<noteq> [] \<and>
     {0<..hd w} \<subseteq> set xs \<and> hd w + 1 \<notin> set xs - {0}"
proof -
  from update_all_represents [OF represents_init, of xs] obtain w where
    w: "update_all [0] xs = Inr w" "represents w (set xs - {0})" by auto
  then have "{0<..hd w} \<subseteq> set xs" unfolding represents_def by fastforce
  with w show ?thesis by (auto simp: represents_def)
qed

section \<open>Runs\<close>

lemma cl_inv_window: "cl_inv c \<Longrightarrow> \<exists>f w. cl_window c = f # w \<and> f < cl_xid c"
  by (cases "cl_window c") (auto simp: cl_inv_def represents_def word_gt_0)

lemma cl_inv_new: "cl_inv (rpcc_new rnd retrans lossy)"
  using represents_init by (auto simp: cl_inv_def rpcc_new_def)

lemma cancel_frame:
  "cl_window (cancel c) = cl_window c" "cl_xid (cancel c) = cl_xid c"
  "dom (cl_calls (cancel c)) = dom (cl_calls c)"
  by (simp_all add: cancel_def Let_def dom_def)

lemma cl_inv_update:
  assumes "cl_inv c" "x < cl_xid c"
  shows "\<exists>w. update_xid_rep (cl_window c) x = Inr w \<and> cl_inv (c\<lparr>cl_window := w\<rparr>)"
proof -
  from assms(1) obtain R where R: "represents (cl_window c) R" "0 \<notin> R" "\<forall>y \<in> R. y < cl_xid c"
    by (auto simp: cl_inv_def)
  from update_represents [OF R(1,2), of x] obtain w where
    w: "update_xid_rep (cl_window c) x = Inr w" "represents w (insert x R - {0})" by blast
  moreover have "0 \<notin> insert x R - {0} \<and> (\<forall>y \<in> insert x R - {0}. y < cl_xid c)" using R(3) assms(2) by auto
  ultimately show ?thesis using assms(1) by (auto simp: cl_inv_def)
qed

lemma cl_step_inv:
  assumes "cl_inv c" "cl_step c e = Inr (hs, c')" "case e of Pdu b \<Rightarrow> solicited c b | Begin _ _ _ \<Rightarrow> cl_xid c + 1 \<noteq> 0 | _ \<Rightarrow> True"
  shows "cl_inv c' \<and> cl_xid c \<le> cl_xid c' \<and>
    (\<forall>h \<in> set hs. xid_rep h < xid h \<and> xid h = cl_xid c \<and> cl_xid c < cl_xid c') \<and> length hs \<le> 1"
proof (cases e)
  case (Begin p req rep)
  obtain f w where f: "cl_window c = f # w" "f < cl_xid c" using cl_inv_window [OF assms(1)] by blast
  have lt: "cl_xid c < cl_xid c + 1"
    using assms(3) Begin by (intro word_less_Suc) simp
  show ?thesis
  proof (cases "c' = c \<and> hs = []")
    case False
    with Begin assms(2) f obtain req' h where
      c': "c' = c\<lparr>cl_xid := cl_xid c + 1, cl_calls := (cl_calls c)(cl_xid c \<mapsto> caller_new (cl_xid c) rep)\<rparr>"
      and h: "hs = [h]" "xid h = cl_xid c" "xid_rep h = f"
      by (auto simp: cl_step_def call_begin_def rbind_eq_Inr Let_def split: if_splits)
    have "cl_inv c'"
    proof -
      from assms(1) obtain R where "represents (cl_window c) R \<and> 0 \<notin> R \<and> (\<forall>y \<in> R. y < cl_xid c)"
        by (auto simp: cl_inv_def)
      then have "represents (cl_window c') R \<and> 0 \<notin> R \<and> (\<forall>y \<in> R. y < cl_xid c')"
        using lt by (auto simp: c' intro: less_trans)
      moreover have "\<forall>x \<in> dom (cl_calls c'). 0 < x \<and> x < cl_xid c'" "0 < cl_xid c'"
        using assms(1) lt by (auto simp: c' cl_inv_def intro: less_trans)
      ultimately show ?thesis unfolding cl_inv_def by blast
    qed
    with c' h f(2) lt show ?thesis by auto
  qed (use assms(1) in simp)
next
  case (Pdu b)
  with assms(2) have g: "cl_got_pdu c b = Inr c'" "hs = []" by (auto simp: cl_step_def rbind_eq_Inr)
  then obtain h rep where h: "unpack_reply_header (unmarshall_of b) = Inr (h, rep)"
    by (auto simp: cl_got_pdu_def rbind_eq_Inr)
  show ?thesis
  proof (cases "u_ok rep")
    case False
    with g h assms(1) show ?thesis by (auto simp: cl_got_pdu_def)
  next
    case True
    with assms(3) Pdu h have "rh_xid h < cl_xid c" by (simp add: solicited_def)
    from cl_inv_update [OF assms(1) this] obtain w where
      w: "update_xid_rep (cl_window c) (rh_xid h) = Inr w" "cl_inv (c\<lparr>cl_window := w\<rparr>)" by blast
    have d: "cl_inv c' = cl_inv (c\<lparr>cl_window := w\<rparr>) \<and> cl_xid c' = cl_xid c"
      using g(1) h True w(1)
      by (auto simp: cl_got_pdu_def cl_inv_def dom_def Let_def split: option.splits if_splits)
    with w(2) g(2) show ?thesis by simp
  qed
next
  case (End x)
  with assms(2) obtain r where g: "call_end c x = Inr (r, c')" "hs = []" by (auto simp: cl_step_def rbind_eq_Inr)
  then have "x \<in> dom (cl_calls c)" by (auto simp: call_end_def split: option.splits)
  then have "x < cl_xid c" using assms(1) by (auto simp: cl_inv_def)
  from cl_inv_update [OF assms(1) this] obtain w where
    w: "update_xid_rep (cl_window c) x = Inr w" "cl_inv (c\<lparr>cl_window := w\<rparr>)" by blast
  then have "c' = c\<lparr>cl_calls := (cl_calls c)(x := None), cl_window := w\<rparr>"
    using g(1) by (auto simp: call_end_def split: option.splits)
  moreover from w(2) have "cl_inv (c\<lparr>cl_calls := (cl_calls c)(x := None), cl_window := w\<rparr>)"
    unfolding cl_inv_def by auto
  ultimately show ?thesis using g(2) by simp
next
  case Cancel
  then have "c' = cancel c" "hs = []" using assms(2) by (simp_all add: cl_step_def)
  with assms(1) show ?thesis by (simp add: cl_inv_def cancel_frame)
next
  case (Bound ret r)
  then have "c' = bind_end c ret r" "hs = []" using assms(2) by (simp_all add: cl_step_def)
  with assms(1) show ?thesis by (simp add: cl_inv_def bind_end_def)
qed

lemma cl_run_inv:
  "cl_inv c \<Longrightarrow> honest c es \<Longrightarrow> cl_run c es = Inr (hs, c') \<Longrightarrow>
   cl_inv c' \<and> (\<forall>h \<in> set hs. xid_rep h < xid h \<and> cl_xid c \<le> xid h) \<and> sorted_wrt (<) (map xid hs)"
proof (induction es arbitrary: c hs)
  case (Cons e es)
  from Cons.prems(3) obtain hs1 c1 hs2 where
    1: "cl_step c e = Inr (hs1, c1)" "cl_run c1 es = Inr (hs2, c')" "hs = hs1 @ hs2"
    by (auto simp: rbind_eq_Inr)
  from Cons.prems(2) 1(1) have h: "case e of Pdu b \<Rightarrow> solicited c b | Begin _ _ _ \<Rightarrow> cl_xid c + 1 \<noteq> 0 | _ \<Rightarrow> True"
    "honest c1 es" by simp_all
  note s = cl_step_inv [OF Cons.prems(1) 1(1) h(1)]
  from s Cons.IH [OF _ h(2) 1(2)] have ih: "cl_inv c'" "\<forall>h \<in> set hs2. xid_rep h < xid h \<and> cl_xid c1 \<le> xid h"
    "sorted_wrt (<) (map xid hs2)" by blast+
  consider "hs1 = []" | h where "hs1 = [h]" using s by (cases hs1; cases "tl hs1") auto
  then show ?case
  proof cases
    case 1
    with s ih \<open>hs = hs1 @ hs2\<close> show ?thesis by (auto intro: order.trans)
  next
    case (2 h)
    with s have "\<forall>q \<in> set hs2. xid h < xid q" using ih(2) by (auto intro: less_le_trans)
    with 2 s ih \<open>hs = hs1 @ hs2\<close> show ?thesis by (auto intro: order.trans)
  qed
qed simp

text \<open>Requests are numbered apart from their acknowledgements: in every run of a client, with any
  number of threads beginning and ending calls, replies arriving late, twice or out of order and
  calls being cancelled, as long as replies answer requests that were sent and the 32-bit request
  number has not wrapped, every request carries an acknowledgement below its own number, and
  request numbers strictly increase.\<close>

theorem requests_above_acknowledgement:
  assumes "honest (rpcc_new rnd retrans lossy) es" "cl_run (rpcc_new rnd retrans lossy) es = Inr (hs, c)"
  shows "(\<forall>h \<in> set hs. xid_rep h < xid h) \<and> sorted_wrt (<) (map xid hs)"
  using cl_run_inv [OF cl_inv_new assms] by blast

lemma reply_to_parses: "\<exists>u. unpack_reply_header (unmarshall_of (reply_to x)) = Inr (\<lparr>rh_xid = x, rh_ret = 0\<rparr>, u)"
  using unpack_reply_header_reads [of "reply_to x" "\<lparr>rh_xid = x, rh_ret = 0\<rparr>"]
  by (simp add: reply_to_def INT_MAX_def)

lemma pack_req_new: "\<exists>m. pack_req_header marshall_new h = Inr m"
  using pack_req_header_writes [OF mwf_new, of h] by blast

lemma requests_above_acknowledgement_witness:
  "\<exists>hs c. honest (rpcc_new 9 True 0) cl_example \<and> cl_run (rpcc_new 9 True 0) cl_example = Inr (hs, c) \<and>
     map xid hs = [1, 2] \<and> map xid_rep hs = [0, 1] \<and> (\<forall>h \<in> set hs. xid_rep h < xid h)"
proof -
  obtain u where u: "unpack_reply_header (unmarshall_of (reply_to 1)) = Inr (\<lparr>rh_xid = 1, rh_ret = 0\<rparr>, u)"
    using reply_to_parses by blast
  obtain m1 where m1: "pack_req_header marshall_new
    \<lparr>xid = 1, proc = rpc_bind, clt_nonce = 9, srv_nonce = 0, xid_rep = 0\<rparr> = Inr m1" using pack_req_new by blast
  obtain m2 where m2: "pack_req_header marshall_new
    \<lparr>xid = 2, proc = 4, clt_nonce = 9, srv_nonce = 7, xid_rep = 1\<rparr> = Inr m2" using pack_req_new by blast
  note e = cl_example_def rpcc_new_def cl_step_def call_begin_def u m1 m2 solicited_def cl_got_pdu_def
    update_xid_rep_def call_end_def bind_end_def caller_new_def rpc_bind_def
  have "honest (rpcc_new 9 True 0) cl_example \<and> (\<exists>hs c. cl_run (rpcc_new 9 True 0) cl_example = Inr (hs, c) \<and>
     map xid hs = [1, 2] \<and> map xid_rep hs = [0, 1])"
    using m1 by (cases "u_ok u") (simp_all add: e Let_def)
  then obtain hs c where h: "honest (rpcc_new 9 True 0) cl_example"
    "cl_run (rpcc_new 9 True 0) cl_example = Inr (hs, c)" "map xid hs = [1, 2]" "map xid_rep hs = [0, 1]"
    by (elim conjE exE) (rule that)
  from requests_above_acknowledgement [OF h(1,2)] h show ?thesis
    by (intro exI [of _ hs] exI [of _ c]) simp
qed

end
