(* ===== verification/Rpc_Calls.thy ===== *)
theory Rpc_Calls
  imports Rpc_Client
begin

text \<open>
  The templates of \<^verbatim>\<open>rpc/rpc.h\<close> that turn a typed call into a message and a message into a call of
  the registered method: \<^verbatim>\<open>rpcc::call\<close> and \<^verbatim>\<open>rpcc::call_m\<close> on the client, the handlers \<^verbatim>\<open>rpcs::reg\<close>
  creates on the server, each for up to seven arguments. The inserters and extractors of the
  argument and result types are their parameters; a template with several arguments inserts and
  extracts them one after the other.

  The main result puts all layers together: the caller gets what the method returned, and the
  method ran once on the server's state.
\<close>

section \<open>Several arguments\<close>

definition put_pair ::
  "(marshall \<Rightarrow> 'a \<Rightarrow> marshall res) \<Rightarrow> (marshall \<Rightarrow> 'b \<Rightarrow> marshall res) \<Rightarrow> marshall \<Rightarrow> 'a \<times> 'b \<Rightarrow> marshall res" where
  "put_pair p1 p2 m x = (case x of (a, b) \<Rightarrow> rbind (p1 m a) (\<lambda>m1. p2 m1 b))"

definition get_pair ::
  "(unmarshall \<Rightarrow> ('a \<times> unmarshall) res) \<Rightarrow> (unmarshall \<Rightarrow> ('b \<times> unmarshall) res) \<Rightarrow>
   unmarshall \<Rightarrow> (('a \<times> 'b) \<times> unmarshall) res" where
  "get_pair g1 g2 u = rbind (g1 u) (\<lambda>(a, u1). rbind (g2 u1) (\<lambda>(b, u2). Inr ((a, b), u2)))"

definition enc_pair :: "('a \<Rightarrow> byte list) \<Rightarrow> ('b \<Rightarrow> byte list) \<Rightarrow> 'a \<times> 'b \<Rightarrow> byte list" where
  "enc_pair e1 e2 x = (case x of (a, b) \<Rightarrow> e1 a @ e2 b)"

section \<open>Handlers\<close>

text \<open>The function \<^verbatim>\<open>fn\<close> of the class \<^verbatim>\<open>h1\<close> that \<^verbatim>\<open>reg\<close> defines: the method gets the application's
  state and the arguments and returns its status, the result and the new state, or faults.\<close>

definition handler1 ::
  "(unmarshall \<Rightarrow> ('b \<times> unmarshall) res) \<Rightarrow> (marshall \<Rightarrow> 'r \<Rightarrow> marshall res) \<Rightarrow>
   ('a \<Rightarrow> 'b \<Rightarrow> (u32 \<times> 'r \<times> 'a) res) \<Rightarrow> 'a handler" where
  "handler1 get1 putr meth app args ret =
     rbind (get1 args) (\<lambda>(a1, u).
     if \<not> okdone u then Inr (unmarshal_args_failure, ret, app)
     else rbind (meth app a1) (\<lambda>(b, r, app'). rbind (putr ret r) (\<lambda>m. Inr (b, m, app'))))"

definition handler2 where
  "handler2 get1 get2 putr meth =
     handler1 (get_pair get1 get2) putr (\<lambda>app (a1, a2). meth app a1 a2)"

definition handler3 where
  "handler3 get1 get2 get3 putr meth =
     handler1 (get_pair (get_pair get1 get2) get3) putr (\<lambda>app ((a1, a2), a3). meth app a1 a2 a3)"

definition handler4 where
  "handler4 get1 get2 get3 get4 putr meth =
     handler1 (get_pair (get_pair (get_pair get1 get2) get3) get4) putr (\<lambda>app (((a1, a2), a3), a4). meth app a1 a2 a3 a4)"

definition handler5 where
  "handler5 get1 get2 get3 get4 get5 putr meth =
     handler1 (get_pair (get_pair (get_pair (get_pair get1 get2) get3) get4) get5) putr (\<lambda>app ((((a1, a2), a3), a4), a5). meth app a1 a2 a3 a4 a5)"

definition handler6 where
  "handler6 get1 get2 get3 get4 get5 get6 putr meth =
     handler1 (get_pair (get_pair (get_pair (get_pair (get_pair get1 get2) get3) get4) get5) get6) putr (\<lambda>app (((((a1, a2), a3), a4), a5), a6). meth app a1 a2 a3 a4 a5 a6)"

definition handler7 where
  "handler7 get1 get2 get3 get4 get5 get6 get7 putr meth =
     handler1 (get_pair (get_pair (get_pair (get_pair (get_pair (get_pair get1 get2) get3) get4) get5) get6) get7) putr (\<lambda>app ((((((a1, a2), a3), a4), a5), a6), a7). meth app a1 a2 a3 a4 a5 a6 a7)"

section \<open>Calls\<close>

text \<open>The message \<^verbatim>\<open>m\<close> that \<^verbatim>\<open>call\<close> builds from its arguments.\<close>

definition call_args0 :: "marshall res" where
  "call_args0 = Inr marshall_new"

definition call_args1 :: "(marshall \<Rightarrow> 'b \<Rightarrow> marshall res) \<Rightarrow> 'b \<Rightarrow> marshall res" where
  "call_args1 put1 a1 = put1 marshall_new a1"

definition call_args2 where
  "call_args2 put1 put2 a1 a2 =
     rbind (put1 marshall_new a1) (\<lambda>m. put2 m a2)"

definition call_args3 where
  "call_args3 put1 put2 put3 a1 a2 a3 =
     rbind (put1 marshall_new a1) (\<lambda>m. rbind (put2 m a2) (\<lambda>m. put3 m a3))"

definition call_args4 where
  "call_args4 put1 put2 put3 put4 a1 a2 a3 a4 =
     rbind (put1 marshall_new a1) (\<lambda>m. rbind (put2 m a2) (\<lambda>m. rbind (put3 m a3) (\<lambda>m. put4 m a4)))"

definition call_args5 where
  "call_args5 put1 put2 put3 put4 put5 a1 a2 a3 a4 a5 =
     rbind (put1 marshall_new a1) (\<lambda>m. rbind (put2 m a2) (\<lambda>m. rbind (put3 m a3) (\<lambda>m. rbind (put4 m a4) (\<lambda>m. put5 m a5))))"

definition call_args6 where
  "call_args6 put1 put2 put3 put4 put5 put6 a1 a2 a3 a4 a5 a6 =
     rbind (put1 marshall_new a1) (\<lambda>m. rbind (put2 m a2) (\<lambda>m. rbind (put3 m a3) (\<lambda>m. rbind (put4 m a4) (\<lambda>m. rbind (put5 m a5) (\<lambda>m. put6 m a6)))))"

definition call_args7 where
  "call_args7 put1 put2 put3 put4 put5 put6 put7 a1 a2 a3 a4 a5 a6 a7 =
     rbind (put1 marshall_new a1) (\<lambda>m. rbind (put2 m a2) (\<lambda>m. rbind (put3 m a3) (\<lambda>m. rbind (put4 m a4) (\<lambda>m. rbind (put5 m a5) (\<lambda>m. rbind (put6 m a6) (\<lambda>m. put7 m a7))))))"

text \<open>\<^verbatim>\<open>call_m\<close>, given what \<^verbatim>\<open>call1\<close> returned: the status and, if it is not negative, the result.\<close>

definition call_m ::
  "(unmarshall \<Rightarrow> ('r \<times> unmarshall) res) \<Rightarrow> u32 \<times> unmarshall \<Rightarrow> (u32 \<times> 'r option) res" where
  "call_m get iu =
     (case iu of (intret, u) \<Rightarrow>
        if sint intret < 0 then Inr (intret, None)
        else rbind (get u) (\<lambda>(r, u'). rbind (verify (okdone u')) (\<lambda>_. Inr (intret, Some r))))"

text \<open>The bytes the client gets when \<open>n\<close> cells of the buffer \<open>b\<close> are sent.\<close>

definition arrives :: "cell list \<Rightarrow> nat \<Rightarrow> byte list \<Rightarrow> bool" where
  "arrives b n bs \<longleftrightarrow> delivered \<lparr>m_buf = Some b, m_capa = length b, m_ind = n\<rparr> bs"

text \<open>A server whose one method adds its argument to a counter, and a client bound to it.\<close>

definition add_server :: "u32 rpcs" where
  "add_server = idle_server\<lparr>s_procs := [4 \<mapsto> handler1 get_int put_int (\<lambda>n a. Inr (0, n + a, n + a))]\<rparr>"

definition bound_client :: rpcc where
  "bound_client =
     (rpcc_new 9 True 0)\<lparr>cl_bind_done := True, cl_srv_nonce := 77, cl_xid := 2, cl_window := [1]\<rparr>"

section \<open>Arguments keep the contract\<close>

lemma codec_pair:
  assumes "codec e1 p1 g1" "codec e2 p2 g2"
  shows "codec (enc_pair e1 e2) (put_pair p1 p2) (get_pair g1 g2)"
proof (rule codec.intro)
  show "enc_pair e1 e2 x \<noteq> []" for x
    using codec.enc_nonempty [OF assms(1)] by (auto simp: enc_pair_def split: prod.splits)
next
  fix m x assume m: "mwf m" "m_ind m + length (enc_pair e1 e2 x) < MSG_MAX"
  obtain a b where x: "x = (a, b)" by fastforce
  have "\<exists>m'. rbind (p1 m a) (\<lambda>m1. p2 m1 b) = Inr m' \<and> appended m (e1 a @ e2 b) m'"
  proof (rule rbind_appends)
    show "\<exists>m1. p1 m a = Inr m1 \<and> appended m (e1 a) m1"
      using m x by (intro codec.put_appends [OF assms(1)]) (auto simp: enc_pair_def)
    show "\<exists>m2. p2 m1 b = Inr m2 \<and> appended m1 (e2 b) m2" if "appended m (e1 a) m1" for m1
      using m x that by (intro codec.put_after [OF assms(2) m(1)]) (auto simp: enc_pair_def)
  qed
  then show "\<exists>m'. put_pair p1 p2 m x = Inr m' \<and> appended m (enc_pair e1 e2 x) m'"
    by (simp add: x put_pair_def enc_pair_def)
next
  fix u x r assume u: "ready u" "unread u = enc_pair e1 e2 x @ r"
  obtain a b where x: "x = (a, b)" by fastforce
  have "unread u = e1 a @ (e2 b @ r)" using u(2) by (simp add: x enc_pair_def)
  note 1 = codec.get_then [OF assms(1) u(1) this]
  note 2 = codec.get_then [OF assms(2) 1(2,3)]
  show "get_pair g1 g2 u = Inr (x, adv (length (enc_pair e1 e2 x)) u)"
    using 1(1) 2(1) by (simp add: x get_pair_def enc_pair_def adv_def add.assoc)
qed

lemma call_args2_pair: "call_args2 p1 p2 a b = put_pair p1 p2 marshall_new (a, b)"
  by (simp add: call_args2_def put_pair_def)

lemma call_args3_pair: "call_args3 p1 p2 p3 a b c = put_pair (put_pair p1 p2) p3 marshall_new ((a, b), c)"
  by (simp add: call_args3_def put_pair_def rbind_assoc)

section \<open>Serving a request\<close>

text \<open>The server's part: a new request whose arguments arrived intact. It leaves the server ready for the
  next one, with the number of this request in the client's window.\<close>

definition serves :: "'a rpcs \<Rightarrow> (cid \<Rightarrow> nat) \<Rightarrow> cid \<Rightarrow> req_header \<Rightarrow> 'a rpcs \<Rightarrow> bool" where
  "serves s E c h s' \<longleftrightarrow>
     s_procs s' = s_procs s \<and> s_nonce s' = s_nonce s \<and> s_reachable s' = s_reachable s \<and>
     wok (window_of (s_window s') (clt_nonce h)) \<and>
     known (s_window s') (clt_nonce h) = insert (xid h) (known (s_window s) (clt_nonce h)) \<and>
     srv_ok s' (E(c := E c - 1)) \<and> (\<forall>k. s_store s' c = Some k \<longrightarrow> \<not> c_dead k)"

lemma dispatch_serves:
  assumes "unpack_req_header (unmarshall_of b) = Inr (h, u)" "u_ok u" "geta u = Inr (a, u')" "okdone u'"
    and "s_procs s (proc h) = Some (handler1 geta putr meth)" "meth (s_app s) a = Inr (ret, r, app)" "0 \<le> sint ret"
    and "putr marshall_new r = Inr m" "pack_reply_header m \<lparr>rh_xid = xid h, rh_ret = ret\<rparr> = Inr m'"
    and "m_buf m' = Some rb"
    and "clt_nonce h \<noteq> 0" "srv_nonce h = 0 \<or> srv_nonce h = s_nonce s" "xid_rep h < xid h"
    and "wok (window_of (s_window s) (clt_nonce h))" "xid h \<notin> known (s_window s) (clt_nonce h)"
    and "known (s_window s) (clt_nonce h) = {} \<or> (\<exists>y \<in> known (s_window s) (clt_nonce h). y \<le> xid h)"
    and "srv_ok s E" "0 < E c" "s_store s c = Some k" "\<not> c_dead k"
  shows "\<exists>s'. dispatch s c b = Inr s' \<and> s_app s' = app \<and> s_sent s' = s_sent s @ [(c, rb, m_ind m')] \<and> serves s E c h s'"
proof -
  from save_conn_ok [OF assms(17,18), of "clt_nonce h"] obtain hp mp where
    sv: "save_conn s (clt_nonce h) c = Inr (s\<lparr>s_store := hp, s_conns := mp\<rparr>)"
      "srv_ok (s\<lparr>s_store := hp, s_conns := mp\<rparr>) E" by blast
  let ?s0 = "s\<lparr>s_store := hp, s_conns := mp\<rparr>"
  obtain k' where k': "hp c = Some k'" "\<not> c_dead k'"
    using save_conn_dead [OF sv(1) assms(19)] assms(20) by auto
  let ?w = "insert_reply ((reply_new (xid h))\<lparr>cb_present := True\<rparr>) (window_of (s_window s) (clt_nonce h))"
  have chk: "dispatch_check s c h = Inr (NEW, None, ?s0\<lparr>s_window := (s_window s)(clt_nonce h \<mapsto> ?w)\<rparr>)"
    using check_new_iff [OF assms(14,13,15,16)] sv(1) assms(11)
    by (simp add: dispatch_check_def remember_new_def)
  define s1 where "s1 = ?s0\<lparr>s_window := (s_window s)(clt_nonce h \<mapsto> ?w)\<rparr>"
  define s2 where "s2 = (if s_counting s1 \<noteq> 0 then updatestat s1 (proc h) else s1)\<lparr>s_app := app\<rparr>"
  have f2: "s_store s2 = hp" "s_window s2 = (s_window s)(clt_nonce h \<mapsto> ?w)" "s_sent s2 = s_sent s"
    "srv_ok s2 E" "s_app s2 = app" "s_procs s2 = s_procs s" "s_nonce s2 = s_nonce s" "s_reachable s2 = s_reachable s"
    using sv(2) by (simp_all add: s2_def s1_def updatestat_def Let_def)
  have "handler1 geta putr meth (s_app s) u marshall_new = Inr (ret, m, app)"
    using assms(3,4,6,8) by (simp add: handler1_def)
  moreover have "s_app (if s_counting s1 \<noteq> 0 then updatestat s1 (proc h) else s1) = s_app s"
    by (simp add: s1_def updatestat_def Let_def)
  moreover have "ret \<noteq> unmarshal_args_failure" using assms(7) by (auto simp: unmarshal_args_failure_def)
  ultimately have run: "run_handler s1 h (handler1 geta putr meth) u = Inr (Some rb, m_ind m', s2)"
    using assms(7,9,10) by (simp add: run_handler_def take_buf_def s2_def)
  have "window_of (s_window s2) (clt_nonce h) \<noteq> []"
    unfolding f2(2) by (cases "window_of (s_window s) (clt_nonce h)") (auto simp: window_of_upd)
  moreover define w3 where "w3 = (s_window s2)(clt_nonce h \<mapsto>
    set_reply (xid h) (Some rb) (m_ind m') (window_of (s_window s2) (clt_nonce h)))"
  ultimately have rc: "record_reply s2 h (Some rb) (m_ind m') = Inr (s2\<lparr>s_window := w3\<rparr>)"
    using assms(11) by (simp add: record_reply_def add_reply_def word_gt_0)
  have "wok ?w" using wok_insert_reply [OF assms(14), of "(reply_new (xid h))\<lparr>cb_present := True\<rparr>"] assms(15)
    by (simp add: reply_new_def known_def)
  then have win: "wok (window_of w3 (clt_nonce h))"
    "known w3 (clt_nonce h) = insert (xid h) (known (s_window s) (clt_nonce h))"
    using wok_set_reply [of ?w] by (simp_all add: w3_def f2(2) window_of_upd known_upd known_def reply_new_def)
  let ?s4 = "s2\<lparr>s_window := w3, s_sent := s_sent s2 @ [(c, rb, m_ind m')]\<rparr>"
  have "dispatch_switch s1 c h (handler1 geta putr meth) u NEW None = Inr (c, ?s4)"
    using run rc k' f2(1)
    by (simp add: dispatch_switch_def dispatch_new_def latest_conn_def srv_send_def isdead_def conn_at_def)
  moreover from srv_decref_ok [of ?s4 E c] f2(4) assms(18) obtain h5 where
    d5: "srv_decref ?s4 c = Inr (?s4\<lparr>s_store := h5\<rparr>)" "srv_ok (?s4\<lparr>s_store := h5\<rparr>) (E(c := E c - 1))" by auto
  moreover have "\<not> (srv_nonce h \<noteq> 0 \<and> srv_nonce h \<noteq> s_nonce s)" using assms(12) by blast
  ultimately have "dispatch s c b = Inr (?s4\<lparr>s_store := h5\<rparr>)"
    using assms(1,2,5) chk unfolding s1_def by (auto simp: dispatch_def)
  moreover have "decref hp c = Inr h5"
    using d5(1) f2(1) by (auto simp: srv_decref_def rbind_eq_Inr dest!: arg_cong [where f = s_store])
  ultimately show ?thesis
    using f2 win d5(2) k' by (auto simp: serves_def dest: decref_dead)
qed

section \<open>A call from end to end\<close>

lemma arrives_delivered: "m_buf m = Some b \<Longrightarrow> arrives b (m_ind m) bs = delivered m bs"
  by (simp add: arrives_def delivered_def cells_def)

text \<open>The client's part: a reply for a call that is still waiting.\<close>

lemma reply_received:
  assumes "unpack_reply_header (unmarshall_of bs) = Inr (\<lparr>rh_xid = x, rh_ret = ret\<rparr>, rep)" "u_ok rep"
    and "getr (fst (take_in unmarshall_new rep)) = Inr (r, u')" "okdone u'" "0 \<le> sint ret"
    and "cl_inv c" "cl_calls c x = Some (caller_new x unmarshall_new)"
  shows "\<exists>c1 iu c2. cl_got_pdu c bs = Inr c1 \<and> call_end c1 x = Inr (iu, c2) \<and> call_m getr iu = Inr (ret, Some r)"
proof -
  have x: "x < cl_xid c" using assms(6,7) by (auto simp: cl_inv_def)
  obtain w where w: "update_xid_rep (cl_window c) x = Inr w" "cl_inv (c\<lparr>cl_window := w\<rparr>)"
    using cl_inv_update [OF assms(6) x] by blast
  obtain w2 where w2: "update_xid_rep w x = Inr w2"
    using cl_inv_update [OF w(2), of x] x by auto
  show ?thesis
    using assms w(1) w2 by (simp add: cl_got_pdu_def call_end_def call_m_def caller_new_def)
qed

lemma call_parts:
  assumes "codec enca puta geta" "codec encr putr getr"
    and "RPC_HEADER_SZ + length (enca a) < MSG_MAX" "RPC_HEADER_SZ + length (encr r) < MSG_MAX"
    and "cl_inv c0" "cl_bind_done c0 \<longleftrightarrow> p \<noteq> rpc_bind" "\<not> cl_destroy_wait c0"
    and "cl_clt_nonce c0 \<noteq> 0" "cl_srv_nonce c0 = 0 \<or> cl_srv_nonce c0 = s_nonce s"
    and "s_procs s p = Some (handler1 geta putr meth)" "meth (s_app s) a = Inr (ret, r, app)" "0 \<le> sint ret"
    and "wok (window_of (s_window s) (cl_clt_nonce c0))"
    and "\<forall>y \<in> known (s_window s) (cl_clt_nonce c0). y < cl_xid c0"
    and "srv_ok s E" "0 < E c" "s_store s c = Some k" "\<not> c_dead k"
  obtains req h m rb n where "call_args1 puta a = Inr req" "mwf m" "length rb \<ge> n"
    "call_begin c0 p req unmarshall_new = Inr (Inr (h, m),
       c0\<lparr>cl_xid := cl_xid c0 + 1, cl_calls := (cl_calls c0)(cl_xid c0 \<mapsto> caller_new (cl_xid c0) unmarshall_new)\<rparr>)"
    "xid h = cl_xid c0" "clt_nonce h = cl_clt_nonce c0"
    "\<forall>b. delivered m b \<longrightarrow>
      (\<exists>s'. dispatch s c b = Inr s' \<and> s_app s' = app \<and> s_sent s' = s_sent s @ [(c, rb, n)] \<and> serves s E c h s')"
    "\<forall>bs. arrives rb n bs \<longrightarrow>
      (\<exists>rep u'. unpack_reply_header (unmarshall_of bs) = Inr (\<lparr>rh_xid = xid h, rh_ret = ret\<rparr>, rep) \<and> u_ok rep \<and>
        getr (fst (take_in unmarshall_new rep)) = Inr (r, u') \<and> okdone u')"
proof -
  obtain f w where f: "cl_window c0 = f # w" "f < cl_xid c0" using cl_inv_window [OF assms(5)] by blast
  define x where "x = cl_xid c0"
  define h where "h = \<lparr>xid = x, proc = p, clt_nonce = cl_clt_nonce c0, srv_nonce = cl_srv_nonce c0, xid_rep = f\<rparr>"
  from request_crosses [OF assms(1,3), of h] obtain req m where
    req: "puta marshall_new a = Inr req" "pack_req_header req h = Inr m" "mwf m"
    "\<And>b. delivered m b \<Longrightarrow> \<exists>u u'. unpack_req_header (unmarshall_of b) = Inr (h, u) \<and> u_ok u \<and>
      geta u = Inr (a, u') \<and> okdone u'" by blast
  from reply_crosses [OF assms(2,4), of "\<lparr>rh_xid = x, rh_ret = ret\<rparr>"] obtain rm rm' where
    rm: "putr marshall_new r = Inr rm" "pack_reply_header rm \<lparr>rh_xid = x, rh_ret = ret\<rparr> = Inr rm'" "mwf rm'"
    "\<And>bs. delivered rm' bs \<Longrightarrow> \<exists>rep u'. unpack_reply_header (unmarshall_of bs) =
        Inr (\<lparr>rh_xid = x, rh_ret = ret\<rparr>, rep) \<and> u_ok rep \<and>
        getr (fst (take_in unmarshall_new rep)) = Inr (r, u') \<and> okdone u'" by blast
  from rm(3) obtain rb where rb: "m_buf rm' = Some rb" "m_ind rm' \<le> length rb" by (rule mwf_cases) (auto simp: mwf_def)
  have beg: "call_begin c0 p req unmarshall_new = Inr (Inr (h, m),
      c0\<lparr>cl_xid := cl_xid c0 + 1, cl_calls := (cl_calls c0)(cl_xid c0 \<mapsto> caller_new (cl_xid c0) unmarshall_new)\<rparr>)"
    using assms(6,7) f(1) req(2) by (simp add: call_begin_def h_def x_def Let_def)
  have srv: "\<exists>s'. dispatch s c b = Inr s' \<and> s_app s' = app \<and> s_sent s' = s_sent s @ [(c, rb, m_ind rm')] \<and> serves s E c h s'"
    if d: "delivered m b" for b
  proof -
    from req(4) [OF d] obtain u u' where u: "unpack_req_header (unmarshall_of b) = Inr (h, u)" "u_ok u"
      "geta u = Inr (a, u')" "okdone u'" by blast
    have "x \<notin> known (s_window s) (cl_clt_nonce c0)"
      "known (s_window s) (cl_clt_nonce c0) = {} \<or> (\<exists>y \<in> known (s_window s) (cl_clt_nonce c0). y \<le> x)"
      using assms(14) by (auto simp: x_def less_imp_le)
    then show ?thesis
      using u rm(1,2) rb f assms
      by (intro dispatch_serves [where h = h and u = u and u' = u' and a = a and geta = geta and putr = putr
            and meth = meth and ret = ret and r = r and m = rm and E = E and k = k])
        (simp_all add: h_def x_def)
  qed
  show thesis
    by (rule that [OF _ req(3) rb(2) beg])
      (use req(1) rm(4) srv in \<open>auto simp: call_args1_def h_def x_def arrives_delivered [OF rb(1)]\<close>)
qed

lemma call_crosses:
  assumes "codec enca puta geta" "codec encr putr getr"
    and "RPC_HEADER_SZ + length (enca a) < MSG_MAX" "RPC_HEADER_SZ + length (encr r) < MSG_MAX"
    and "cl_inv c0" "cl_bind_done c0" "\<not> cl_destroy_wait c0" "p \<noteq> rpc_bind"
    and "cl_clt_nonce c0 \<noteq> 0" "cl_srv_nonce c0 = s_nonce s"
    and "s_procs s p = Some (handler1 geta putr meth)" "meth (s_app s) a = Inr (ret, r, app)" "0 \<le> sint ret"
    and "wok (window_of (s_window s) (cl_clt_nonce c0))"
    and "\<forall>y \<in> known (s_window s) (cl_clt_nonce c0). y < cl_xid c0"
    and "srv_ok s E" "0 < E c" "s_store s c = Some k" "\<not> c_dead k"
  shows "\<exists>req h m c1. call_args1 puta a = Inr req \<and>
    call_begin c0 p req unmarshall_new = Inr (Inr (h, m), c1) \<and>
    (\<forall>b. delivered m b \<longrightarrow>
      (\<exists>s' rb n. dispatch s c b = Inr s' \<and> s_app s' = app \<and> s_sent s' = s_sent s @ [(c, rb, n)] \<and>
        (\<forall>bs c2. arrives rb n bs \<and> cl_inv c2 \<and> cl_calls c2 (xid h) = cl_calls c1 (xid h) \<longrightarrow>
          (\<exists>c3 iu c4. cl_got_pdu c2 bs = Inr c3 \<and> call_end c3 (xid h) = Inr (iu, c4) \<and>
            call_m getr iu = Inr (ret, Some r)))))"
proof -
  have b: "cl_bind_done c0 \<longleftrightarrow> p \<noteq> rpc_bind" "cl_srv_nonce c0 = 0 \<or> cl_srv_nonce c0 = s_nonce s" using assms by auto
  obtain req h m rb n where call: "call_args1 puta a = Inr req" "mwf m" "length rb \<ge> n" "call_begin c0 p req unmarshall_new = Inr (Inr (h, m),
      c0\<lparr>cl_xid := cl_xid c0 + 1, cl_calls := (cl_calls c0)(cl_xid c0 \<mapsto> caller_new (cl_xid c0) unmarshall_new)\<rparr>)"
    "xid h = cl_xid c0" "clt_nonce h = cl_clt_nonce c0" and srv: "\<forall>b. delivered m b \<longrightarrow>
      (\<exists>s'. dispatch s c b = Inr s' \<and> s_app s' = app \<and> s_sent s' = s_sent s @ [(c, rb, n)] \<and> serves s E c h s')"
    and rep: "\<forall>bs. arrives rb n bs \<longrightarrow>
      (\<exists>rep u'. unpack_reply_header (unmarshall_of bs) = Inr (\<lparr>rh_xid = xid h, rh_ret = ret\<rparr>, rep) \<and> u_ok rep \<and>
        getr (fst (take_in unmarshall_new rep)) = Inr (r, u') \<and> okdone u')"
    by (rule call_parts [OF assms(1-5) b(1) assms(7,9) b(2) assms(11-19)])
  have clt: "\<exists>c3 iu c4. cl_got_pdu c2 bs = Inr c3 \<and> call_end c3 (xid h) = Inr (iu, c4) \<and> call_m getr iu = Inr (ret, Some r)"
    if "arrives rb n bs" "cl_inv c2" "cl_calls c2 (xid h) = Some (caller_new (xid h) unmarshall_new)" for bs c2
  proof -
    from rep [rule_format, OF that(1)] obtain rep u' where
      "unpack_reply_header (unmarshall_of bs) = Inr (\<lparr>rh_xid = xid h, rh_ret = ret\<rparr>, rep)" "u_ok rep"
      "getr (fst (take_in unmarshall_new rep)) = Inr (r, u')" "okdone u'" by blast
    then show ?thesis by (rule reply_received [OF _ _ _ _ assms(13) that(2,3)])
  qed
  then have "\<exists>s' rb n. dispatch s c b = Inr s' \<and> s_app s' = app \<and> s_sent s' = s_sent s @ [(c, rb, n)] \<and>
        (\<forall>bs c2. arrives rb n bs \<and> cl_inv c2 \<and> cl_calls c2 (xid h) = Some (caller_new (xid h) unmarshall_new) \<longrightarrow>
          (\<exists>c3 iu c4. cl_got_pdu c2 bs = Inr c3 \<and> call_end c3 (xid h) = Inr (iu, c4) \<and>
            call_m getr iu = Inr (ret, Some r)))" if d: "delivered m b" for b
    using srv [rule_format, OF d] by blast
  then show ?thesis
    using call by (intro exI [of _ req] exI [of _ h] exI [of _ m] exI [of _ "c0\<lparr>cl_xid := cl_xid c0 + 1,
      cl_calls := (cl_calls c0)(cl_xid c0 \<mapsto> caller_new (cl_xid c0) unmarshall_new)\<rparr>"]) simp
qed

text \<open>A bound client and a server it is connected to, ready for a call of a procedure that the client has
  not made yet.\<close>

definition connected :: "'a rpcs \<Rightarrow> cid \<Rightarrow> rpcc \<Rightarrow> bool" where
  "connected s c c0 \<longleftrightarrow>
     cl_inv c0 \<and> cl_bind_done c0 \<and> \<not> cl_destroy_wait c0 \<and> cl_clt_nonce c0 \<noteq> 0 \<and> cl_srv_nonce c0 = s_nonce s \<and>
     wok (window_of (s_window s) (cl_clt_nonce c0)) \<and> (\<forall>y \<in> known (s_window s) (cl_clt_nonce c0). y < cl_xid c0) \<and>
     (\<exists>E k. srv_ok s E \<and> 0 < E c \<and> s_store s c = Some k \<and> \<not> c_dead k)"

text \<open>The call goes through: it begins, the request makes the server's state \<open>app\<close>, and the reply gives the
  caller status \<open>ret\<close> and result \<open>r\<close>.\<close>

definition crosses ::
  "'a rpcs \<Rightarrow> cid \<Rightarrow> rpcc \<Rightarrow> u32 \<Rightarrow> marshall res \<Rightarrow> (unmarshall \<Rightarrow> ('r \<times> unmarshall) res) \<Rightarrow> u32 \<Rightarrow> 'r \<Rightarrow> 'a \<Rightarrow> bool" where
  "crosses s c c0 p args getr ret r app \<longleftrightarrow>
     (\<exists>req h m c1. args = Inr req \<and>
      call_begin c0 p req unmarshall_new = Inr (Inr (h, m), c1) \<and>
      (\<forall>b. delivered m b \<longrightarrow>
        (\<exists>s' rb n. dispatch s c b = Inr s' \<and> s_app s' = app \<and> s_sent s' = s_sent s @ [(c, rb, n)] \<and>
          (\<forall>bs c2. arrives rb n bs \<and> cl_inv c2 \<and> cl_calls c2 (xid h) = cl_calls c1 (xid h) \<longrightarrow>
            (\<exists>c3 iu c4. cl_got_pdu c2 bs = Inr c3 \<and> call_end c3 (xid h) = Inr (iu, c4) \<and>
              call_m getr iu = Inr (ret, Some r))))))"

lemma connected_crosses:
  assumes "codec enca puta geta" "codec encr putr getr"
    and "RPC_HEADER_SZ + length (enca a) < MSG_MAX" "RPC_HEADER_SZ + length (encr r) < MSG_MAX"
    and "connected s c c0" "p \<noteq> rpc_bind"
    and "s_procs s p = Some (handler1 geta putr meth)" "meth (s_app s) a = Inr (ret, r, app)" "0 \<le> sint ret"
  shows "crosses s c c0 p (call_args1 puta a) getr ret r app"
proof -
  from assms(5) obtain E k where "srv_ok s E" "0 < E c" "s_store s c = Some k" "\<not> c_dead k" unfolding connected_def by blast
  with assms show ?thesis unfolding crosses_def connected_def 
    by (intro call_crosses [OF assms(1,2), where meth = meth and E = E and k = k]) auto
qed

text \<open>(C6) A call from end to end: a bound client marshals the arguments and begins a call without a
  fault; when the bytes of its request reach the server over a live connection for the first
  time, the dispatcher runs the registered method once on those arguments and the application's
  state, and sends one reply on that connection; and when the bytes of this reply reach the
  client while the call waits, the call returns the method's status and result. The types of the
  arguments and of the result are arbitrary as long as they can be marshalled.\<close>

theorem rpc_end_to_end:
  assumes "codec enca puta geta" "codec encr putr getr"
    and "RPC_HEADER_SZ + length (enca a) < MSG_MAX" "RPC_HEADER_SZ + length (encr r) < MSG_MAX"
    and "cl_inv c0" "cl_bind_done c0" "\<not> cl_destroy_wait c0" "p \<noteq> rpc_bind"
    and "cl_clt_nonce c0 \<noteq> 0" "cl_srv_nonce c0 = s_nonce s"
    and "s_procs s p = Some (handler1 geta putr meth)" "meth (s_app s) a = Inr (ret, r, app)" "0 \<le> sint ret"
    and "wok (window_of (s_window s) (cl_clt_nonce c0))"
    and "\<forall>y \<in> known (s_window s) (cl_clt_nonce c0). y < cl_xid c0"
    and "srv_ok s E" "0 < E c" "s_store s c = Some k" "\<not> c_dead k"
  shows "\<exists>req h m c1. call_args1 puta a = Inr req \<and>
    call_begin c0 p req unmarshall_new = Inr (Inr (h, m), c1) \<and>
    (\<forall>b. delivered m b \<longrightarrow>
      (\<exists>s' rb n. dispatch s c b = Inr s' \<and> s_app s' = app \<and> s_sent s' = s_sent s @ [(c, rb, n)] \<and>
        (\<forall>bs c2. arrives rb n bs \<and> cl_inv c2 \<and> cl_calls c2 (xid h) = cl_calls c1 (xid h) \<longrightarrow>
          (\<exists>c3 iu c4. cl_got_pdu c2 bs = Inr c3 \<and> call_end c3 (xid h) = Inr (iu, c4) \<and>
            call_m getr iu = Inr (ret, Some r)))))"
  by (rule call_crosses [OF assms])

lemma rpc_end_to_end_witness:
  "\<exists>req h m c1. call_args1 put_int 8 = Inr req \<and>
    call_begin bound_client 4 req unmarshall_new = Inr (Inr (h, m), c1) \<and>
    (\<forall>b. delivered m b \<longrightarrow>
      (\<exists>s' rb n. dispatch add_server 3 b = Inr s' \<and> s_app s' = 13 \<and> s_sent s' = s_sent add_server @ [(3, rb, n)] \<and>
        (\<forall>bs c2. arrives rb n bs \<and> cl_inv c2 \<and> cl_calls c2 (xid h) = cl_calls c1 (xid h) \<longrightarrow>
          (\<exists>c3 iu c4. cl_got_pdu c2 bs = Inr c3 \<and> call_end c3 (xid h) = Inr (iu, c4) \<and>
            call_m get_int iu = Inr (0, Some 13)))))"
proof -
  have srv: "srv_ok add_server (\<lambda>c. if c = 3 then 2 else 0)"
    by (simp add: srv_ok_def refs_ok_def add_server_def idle_server_def conn_refs_def connection_new_def charbuf_new_def)
  have "represents [1] {1}"
    using word_between [of 0] by (auto simp: represents_def word_gt_0)
  then have cl: "cl_inv bound_client" by (auto simp: cl_inv_def bound_client_def rpcc_new_def)
  have sz: "RPC_HEADER_SZ + length (enc_u32 a) < MSG_MAX" for a by (simp add: sizes)
  show ?thesis
    by (rule rpc_end_to_end [OF sint.codec_axioms sint.codec_axioms sz sz cl, where E = "\<lambda>c. if c = 3 then 2 else 0"
          and meth = "\<lambda>n a. Inr (0, n + a, n + a)" and k = "(connection_new 0 0)\<lparr>c_refno := 2\<rparr>", OF _ _ _ _ _ _ _ _ _ _ srv])
      (simp_all add: bound_client_def rpcc_new_def rpc_bind_def add_server_def idle_server_def known_def window_of_def
        connection_new_def)
qed

end
