(* ===== verification/Services.thy ===== *)
theory Services
  imports Rpc_Calls Extent_Client
begin

text \<open>
  The extent service over RPC: the marshalling of attributes in \<^verbatim>\<open>extent_protocol.h\<close>, the procedures that
  \<^verbatim>\<open>extent_smain.cc\<close> registers, and the calls that \<^verbatim>\<open>extent_client.cc\<close> makes. It joins the model of the RPC
  library with that of the extent server: what the extent client takes a delivered call to be is what
  the RPC library makes of it. The test program \<^verbatim>\<open>rpc/rpctest.cc\<close> is modelled as far as it calls the
  library.
\<close>

section \<open>Attributes on the wire\<close>

definition put_attr :: "marshall \<Rightarrow> attr \<Rightarrow> marshall res" where
  "put_attr m a =
     rbind (put_uint m (atime a)) (\<lambda>m. rbind (put_uint m (mtime a)) (\<lambda>m.
     rbind (put_uint m (ctime a)) (\<lambda>m. put_uint m (asize a))))"

definition get_attr :: "unmarshall \<Rightarrow> (attr \<times> unmarshall) res" where
  "get_attr u =
     rbind (get_uint u) (\<lambda>(a, u). rbind (get_uint u) (\<lambda>(m, u). rbind (get_uint u) (\<lambda>(c, u).
     rbind (get_uint u) (\<lambda>(s, u). Inr (\<lparr>atime = a, mtime = m, ctime = c, asize = s\<rparr>, u)))))"

definition enc_attr :: "attr \<Rightarrow> byte list" where
  "enc_attr a = enc_u32 (atime a) @ enc_u32 (mtime a) @ enc_u32 (ctime a) @ enc_u32 (asize a)"

text \<open>Attributes are marshalled as four numbers in a row.\<close>

definition attr_tuple :: "attr \<Rightarrow> ((u32 \<times> u32) \<times> u32) \<times> u32" where
  "attr_tuple a = (((atime a, mtime a), ctime a), asize a)"

lemma codec_inj:
  assumes "codec e p g" "\<And>m x. p' m x = p m (f x)" "\<And>u. g' u = rbind (g u) (\<lambda>(y, u'). Inr (h y, u'))"
    and "\<And>x. e' x = e (f x)" "\<And>x. h (f x) = x"
  shows "codec e' p' g'"
  using assms(1) unfolding codec_def assms(2-4) by (auto simp: assms(5))

lemma codec_attr: "codec enc_attr put_attr get_attr"
proof (rule codec_inj [where f = attr_tuple and h = "\<lambda>(((a, m), c), s). \<lparr>atime = a, mtime = m, ctime = c, asize = s\<rparr>"])
  show "codec (enc_pair (enc_pair (enc_pair enc_u32 enc_u32) enc_u32) enc_u32)
      (put_pair (put_pair (put_pair put_uint put_uint) put_uint) put_uint)
      (get_pair (get_pair (get_pair get_uint get_uint) get_uint) get_uint)"
    by (intro codec_pair uint.codec_axioms)
qed (auto simp: put_attr_def get_attr_def enc_attr_def attr_tuple_def put_pair_def get_pair_def enc_pair_def rbind_assoc
    intro!: arg_cong2 [of _ _ _ _ rbind] ext)

interpretation attrs: codec enc_attr put_attr get_attr
  by (rule codec_attr)

section \<open>The procedures of the extent server\<close>

abbreviation (input) xput :: u32 where "xput \<equiv> 0x6001"
abbreviation (input) xget :: u32 where "xget \<equiv> 0x6002"
abbreviation (input) xgetattr :: u32 where "xgetattr \<equiv> 0x6003"
abbreviation (input) xremove :: u32 where "xremove \<equiv> 0x6004"

text \<open>A result that a method does not set is the variable of the handler template as it was: empty for a
  string, and unspecified for a number or a structure without a constructor.\<close>

definition extent_procs :: "u32 \<Rightarrow> u32 \<Rightarrow> attr \<Rightarrow> u32 \<rightharpoonup> exts handler" where
  "extent_procs now junk ja =
     [xget \<mapsto> handler1 get_ull put_string (\<lambda>e i. case xs_get now e i [] of (r, b, e') \<Rightarrow> Inr (word_of_int r, b, e')),
      xgetattr \<mapsto> handler1 get_ull put_attr (\<lambda>e i. case xs_getattr e i ja of (r, a, e') \<Rightarrow> Inr (word_of_int r, a, e')),
      xput \<mapsto> handler2 get_ull get_string put_int (\<lambda>e i b. case xs_put now e i b of (r, e') \<Rightarrow> Inr (word_of_int r, junk, e')),
      xremove \<mapsto> handler1 get_ull put_int (\<lambda>e i. case xs_remove e i of (r, e') \<Rightarrow> Inr (word_of_int r, junk, e'))]"

text \<open>The server at its start: the extents, and the procedures registered one after the other.\<close>

definition extent_smain :: "u32 \<Rightarrow> int \<Rightarrow> u32 \<Rightarrow> u32 \<Rightarrow> attr \<Rightarrow> exts rpcs res" where
  "extent_smain nonce count now junk ja =
     rbind (rpcs_new nonce count (extent_server_new now)) (\<lambda>s.
     rfold (\<lambda>s p. reg1 s p (the (extent_procs now junk ja p))) s [xget, xgetattr, xput, xremove])"

text \<open>The messages of the four calls in \<^verbatim>\<open>extent_client.cc\<close>.\<close>

definition xput_args :: "extentid \<Rightarrow> byte list \<Rightarrow> marshall res" where
  "xput_args i b = call_args2 put_ull put_string i b"

definition xid_args :: "extentid \<Rightarrow> marshall res" where
  "xid_args i = call_args1 put_ull i"

lemma status_word:
  assumes "r \<in> {xOK, xNOENT}"
  shows "0 \<le> sint (word_of_int r :: u32)" "sint (word_of_int r :: u32) = r"
  using assms by auto

lemma xs_status:
  "fst (xs_get now e i b) \<in> {xOK, xNOENT}" "fst (xs_getattr e i a) \<in> {xOK, xNOENT}"
  "fst (xs_put now e i b) \<in> {xOK, xNOENT}" "fst (xs_remove e i) \<in> {xOK, xNOENT}"
  by (auto simp: xs_get_def xs_getattr_def xs_put_def xs_remove_def Let_def split: option.splits)

text \<open>(C10) The extent service over RPC: for a client connected to an extent server, each of the four remote
  calls of the extent client goes through the RPC library and has exactly the outcome that the model
  of the extent client gives to a delivered call: the arguments are unmarshalled as they were
  marshalled, the server's method runs once on its current extents, and the caller gets its status
  and result, whether the extent is there or not. Contents are below half a gigabyte.\<close>

theorem extent_calls_cross:
  assumes "connected s c c0" "extent_procs now junk ja \<subseteq>\<^sub>m s_procs s" "length buf < 2 ^ 29"
    and "\<forall>e. s_app s i = Some e \<longrightarrow> length (e_name e) < 2 ^ 29"
  shows "(case xcall Delivered (\<lambda>e. xs_get now e i []) b (s_app s) of (r, res, e') \<Rightarrow>
      crosses s c c0 xget (xid_args i) get_string (word_of_int r) res e') \<and>
    (case xcall Delivered (\<lambda>e. xs_getattr e i ja) a (s_app s) of (r, res, e') \<Rightarrow>
      crosses s c c0 xgetattr (xid_args i) get_attr (word_of_int r) res e') \<and>
    (case xcall Delivered (\<lambda>e. case xs_put now e i buf of (r, e') \<Rightarrow> (r, junk, e')) n (s_app s) of (r, res, e') \<Rightarrow>
      crosses s c c0 xput (xput_args i buf) get_int (word_of_int r) res e') \<and>
    (case xcall Delivered (\<lambda>e. case xs_remove e i of (r, e') \<Rightarrow> (r, junk, e')) n (s_app s) of (r, res, e') \<Rightarrow>
      crosses s c c0 xremove (xid_args i) get_int (word_of_int r) res e')"
proof -
  note sz = sizes MSG_MAX_def
  have a: "RPC_HEADER_SZ + length (enc_u64 i) < MSG_MAX" by (simp add: sz)
  have r4: "RPC_HEADER_SZ + length (enc_u32 x) < MSG_MAX" for x by (simp add: sz)
  note cross = connected_crosses [OF _ _ _ _ assms(1)]
  have procs:
    "s_procs s xget = Some (handler1 get_ull put_string (\<lambda>e i. case xs_get now e i [] of (r, b, e') \<Rightarrow> Inr (word_of_int r, b, e')))"
    "s_procs s xgetattr = Some (handler1 get_ull put_attr (\<lambda>e i. case xs_getattr e i ja of (r, a, e') \<Rightarrow> Inr (word_of_int r, a, e')))"
    "s_procs s xput = Some (handler1 (get_pair get_ull get_string) put_int
       (\<lambda>e (i, b). case xs_put now e i b of (r, e') \<Rightarrow> Inr (word_of_int r, junk, e')))"
    "s_procs s xremove = Some (handler1 get_ull put_int (\<lambda>e i. case xs_remove e i of (r, e') \<Rightarrow> Inr (word_of_int r, junk, e')))"
    using assms(2) by (simp_all add: map_le_def extent_procs_def handler2_def)
  obtain r1 b1 e1 where 1: "xs_get now (s_app s) i [] = (r1, b1, e1)" by (metis prod_cases3)
  have "length b1 < 2 ^ 29" using 1 assms(4) by (auto simp: xs_get_def split: option.splits)
  then have b1: "RPC_HEADER_SZ + length (enc_string b1) < MSG_MAX" by (simp add: enc_string_def sz)
  have "crosses s c c0 xget (xid_args i) get_string (word_of_int r1) b1 e1"
    unfolding xid_args_def
    by (rule cross [OF ull.codec_axioms str.codec_axioms a b1 _ procs(1)])
      (use 1 xs_status(1) [of now "s_app s" i "[]"] status_word(1) [of r1] in \<open>simp_all add: rpc_bind_def\<close>)
  moreover obtain r2 a2 e2 where 2: "xs_getattr (s_app s) i ja = (r2, a2, e2)" by (metis prod_cases3)
  have "RPC_HEADER_SZ + length (enc_attr a2) < MSG_MAX" by (simp add: enc_attr_def sz)
  then have "crosses s c c0 xgetattr (xid_args i) get_attr (word_of_int r2) a2 e2"
    unfolding xid_args_def
    by (rule cross [OF ull.codec_axioms attrs.codec_axioms a _ _ procs(2)])
      (use 2 xs_status(2) [of "s_app s" i ja] status_word(1) [of r2] in \<open>simp_all add: rpc_bind_def\<close>)
  moreover obtain r3 e3 where 3: "xs_put now (s_app s) i buf = (r3, e3)" by fastforce
  have p: "RPC_HEADER_SZ + length (enc_pair enc_u64 enc_string (i, buf)) < MSG_MAX"
    using assms(3) by (simp add: enc_pair_def enc_string_def sz)
  have "crosses s c c0 xput (xput_args i buf) get_int (word_of_int r3) junk e3"
    unfolding xput_args_def call_args2_pair call_args1_def [symmetric]
    by (rule cross [OF codec_pair [OF ull.codec_axioms str.codec_axioms] sint.codec_axioms p r4 _ procs(3)])
      (use 3 xs_status(3) [of now "s_app s" i buf] status_word(1) [of r3] in \<open>simp_all add: rpc_bind_def\<close>)
  moreover obtain r4' e4 where 4: "xs_remove (s_app s) i = (r4', e4)" by fastforce
  have "crosses s c c0 xremove (xid_args i) get_int (word_of_int r4') junk e4"
    unfolding xid_args_def
    by (rule cross [OF ull.codec_axioms sint.codec_axioms a r4 _ procs(4)])
      (use 4 xs_status(4) [of "s_app s" i] status_word(1) [of r4'] in \<open>simp_all add: rpc_bind_def\<close>)
  ultimately show ?thesis by (simp add: xcall_def 1 2 3 4)
qed

text \<open>The server as \<^verbatim>\<open>extent_smain\<close> starts it, after it has accepted a connection.\<close>

definition extent_up :: "exts rpcs" where
  "extent_up = (case extent_smain 77 0 3 0 zero_attr of
     Inr s \<Rightarrow> s\<lparr>s_store := [3 \<mapsto> (connection_new 0 0)\<lparr>c_refno := 2\<rparr>]\<rparr>)"

lemma extent_smain_registers:
  "\<exists>s. extent_smain nonce count now junk ja = Inr s \<and> extent_procs now junk ja \<subseteq>\<^sub>m s_procs s \<and>
     s_procs s rpc_bind = Some (rpcbind nonce) \<and> s_app s = extent_server_new now \<and>
     s_nonce s = nonce \<and> s_window s = Map.empty \<and> s_conns s = Map.empty"
  by (simp add: extent_smain_def rpcs_new_def reg1_def rpc_bind_def extent_procs_def map_le_def)

lemma bound_client_ok: "cl_inv bound_client"
proof -
  have "represents [1] {1}" using word_between [of 0] by (auto simp: represents_def word_gt_0)
  then show ?thesis by (auto simp: cl_inv_def bound_client_def rpcc_new_def)
qed

lemma connected_start:
  assumes "s_nonce s = 77" "s_window s = Map.empty" "s_conns s = Map.empty" "s_store s = [3 \<mapsto> (connection_new 0 0)\<lparr>c_refno := 2\<rparr>]"
  shows "connected s 3 bound_client"
proof -
  have "srv_ok s (\<lambda>c. if c = 3 then 2 else 0)"
    using assms by (simp add: srv_ok_def refs_ok_def conn_refs_def connection_new_def charbuf_new_def)
  moreover have "\<not> c_dead ((connection_new 0 0)\<lparr>c_refno := 2\<rparr>)" by (simp add: connection_new_def)
  ultimately have "\<exists>E k. srv_ok s E \<and> 0 < E 3 \<and> s_store s 3 = Some k \<and> \<not> c_dead k" using assms(4) by fastforce
  with assms bound_client_ok show ?thesis
    by (simp add: connected_def bound_client_def rpcc_new_def known_def window_of_def)
qed

theorem extent_calls_cross_witness:
  "crosses extent_up 3 bound_client xput (xput_args 5 [7, 8]) get_int 0 0 (snd (xs_put 3 (extent_server_new 3) 5 [7, 8])) \<and>
   crosses extent_up 3 bound_client xget (xid_args 1) get_string 0 [] (extent_server_new 3)"
proof -
  obtain s where s: "extent_smain 77 0 3 0 zero_attr = Inr s" "extent_procs 3 0 zero_attr \<subseteq>\<^sub>m s_procs s" "s_app s = extent_server_new 3"
    "s_nonce s = 77" "s_window s = Map.empty" "s_conns s = Map.empty"
    using extent_smain_registers [of 77 0 3 0 zero_attr] by blast
  have up: "connected extent_up 3 bound_client" "extent_procs 3 0 zero_attr \<subseteq>\<^sub>m s_procs extent_up" "s_app extent_up = extent_server_new 3"
    using s by (auto simp: extent_up_def intro: connected_start)
  from extent_calls_cross [OF up(1,2), of "[7, 8]" 5] extent_calls_cross [OF up(1,2), of "[]" 1] up(3) show ?thesis
    by (simp add: extent_server_new_def xs_put_def xs_get_def)
qed

end
