(* ===== verification/Rpc_Session.thy ===== *)
theory Rpc_Session
  imports Rpc_Calls
begin

text \<open>
  Sequences of calls of one client to one server, over a connection that delivers what is sent: a call is
  its parts of \<^verbatim>\<open>rpcc\<close> and \<^verbatim>\<open>rpcs\<close> put together, from the arguments through \<^verbatim>\<open>call1\<close>, \<^verbatim>\<open>rpcs::got_pdu\<close> and
  \<^verbatim>\<open>dispatch\<close> to \<^verbatim>\<open>rpcc::got_pdu\<close> and the result. A call leaves both sides ready for the next one, so that
  a remote object does what the local object does, call by call. Binding a fresh client makes it ready.
\<close>

section \<open>A whole call\<close>

text \<open>The bytes that arrive for the cells that were sent, where cells never written hold \<open>junk\<close>.\<close>

definition wire :: "byte \<Rightarrow> cell list \<Rightarrow> byte list" where
  "wire junk cs = map (case_option junk id) cs"

text \<open>\<open>heard\<close> says whether the reply comes before the client's deadline; a reply that the server did not send is
  one the client waits for until then. The channel is not a lossy one, so no old request is sent again.\<close>

definition rpc_call ::
  "byte \<Rightarrow> bool \<Rightarrow> 'a rpcs \<Rightarrow> cid \<Rightarrow> rpcc \<Rightarrow> u32 \<Rightarrow> marshall res \<Rightarrow> (unmarshall \<Rightarrow> ('r \<times> unmarshall) res) \<Rightarrow>
   ((u32 \<times> 'r option) \<times> 'a rpcs \<times> rpcc) res" where
  "rpc_call junk heard s c c0 p args getr =
     rbind args (\<lambda>req.
     rbind (call_begin c0 p req unmarshall_new) (\<lambda>(b, c1).
     case b of
       Inl e \<Rightarrow> rbind (call_m getr (e, unmarshall_new)) (\<lambda>r. Inr (r, s, c1))
     | Inr (h, m) \<Rightarrow>
         rbind (got_pdu s True True c (wire junk (cells m))) (\<lambda>(_, job, s1).
         rbind (case job of None \<Rightarrow> Inr s1 | Some (d, b) \<Rightarrow> dispatch s1 d b) (\<lambda>s2.
         rbind (rfold cl_got_pdu c1 (map (\<lambda>(_, b, n). wire junk (take n b)) (if heard then drop (length (s_sent s)) (s_sent s2) else []))) (\<lambda>c2.
         rbind (call_end c2 (xid h)) (\<lambda>(iu, c3).
         rbind (call_m getr iu) (\<lambda>r. Inr (r, s2, c3))))))))"

text \<open>\<^verbatim>\<open>rpcc::bind\<close>, with the status it returns.\<close>

definition client_bind :: "byte \<Rightarrow> 'a rpcs \<Rightarrow> cid \<Rightarrow> rpcc \<Rightarrow> (u32 \<times> 'a rpcs \<times> rpcc) res" where
  "client_bind junk s c c0 =
     rbind (rpc_call junk True s c c0 rpc_bind (call_args1 put_int 0) get_int) (\<lambda>((ret, r), s', c').
     Inr (ret, s', bind_end c' ret (case r of None \<Rightarrow> 0 | Some n \<Rightarrow> n)))"

text \<open>Several calls of procedures that take and return values of the same types.\<close>

fun rpc_session ::
  "byte \<Rightarrow> cid \<Rightarrow> (marshall \<Rightarrow> 'b \<Rightarrow> marshall res) \<Rightarrow> (unmarshall \<Rightarrow> ('r \<times> unmarshall) res) \<Rightarrow>
   (u32 \<times> 'b) list \<Rightarrow> 'a rpcs \<Rightarrow> rpcc \<Rightarrow> ((u32 \<times> 'r option) list \<times> 'a rpcs \<times> rpcc) res" where
  "rpc_session junk c puta getr [] s c0 = Inr ([], s, c0)"
| "rpc_session junk c puta getr ((p, a) # js) s c0 =
     rbind (rpc_call junk True s c c0 p (call_args1 puta a) getr) (\<lambda>(x, s', c').
     rbind (rpc_session junk c puta getr js s' c') (\<lambda>(xs, s'', c''). Inr (x # xs, s'', c'')))"

text \<open>The same calls made on the object itself.\<close>

fun local_session :: "(u32 \<Rightarrow> 'a \<Rightarrow> 'b \<Rightarrow> (u32 \<times> 'r \<times> 'a) res) \<Rightarrow> (u32 \<times> 'b) list \<Rightarrow> 'a \<Rightarrow> ((u32 \<times> 'r) list \<times> 'a) res" where
  "local_session meth [] a = Inr ([], a)"
| "local_session meth ((p, x) # js) a =
     rbind (meth p a x) (\<lambda>(ret, r, a').
     rbind (local_session meth js a') (\<lambda>(xs, a''). Inr ((ret, r) # xs, a'')))"

section \<open>Ready for a call\<close>

definition paired :: "'a rpcs \<Rightarrow> cid \<Rightarrow> rpcc \<Rightarrow> bool" where
  "paired s c c0 \<longleftrightarrow>
     cl_inv c0 \<and> \<not> cl_destroy_wait c0 \<and> cl_clt_nonce c0 \<noteq> 0 \<and> (cl_srv_nonce c0 = 0 \<or> cl_srv_nonce c0 = s_nonce s) \<and>
     wok (window_of (s_window s) (cl_clt_nonce c0)) \<and> (\<forall>y \<in> known (s_window s) (cl_clt_nonce c0). y < cl_xid c0) \<and>
     (\<exists>E k. srv_ok s E \<and> 0 < E c \<and> s_store s c = Some k \<and> \<not> c_dead k)"

definition linked :: "'a rpcs \<Rightarrow> cid \<Rightarrow> rpcc \<Rightarrow> bool" where
  "linked s c c0 \<longleftrightarrow> paired s c c0 \<and> s_reachable s"

text \<open>What a call keeps of both sides.\<close>

definition kept :: "'a rpcs \<Rightarrow> rpcc \<Rightarrow> 'a rpcs \<Rightarrow> rpcc \<Rightarrow> bool" where
  "kept s c0 s' c' \<longleftrightarrow>
     s_procs s' = s_procs s \<and> s_nonce s' = s_nonce s \<and> cl_xid c' = cl_xid c0 + 1 \<and> cl_bind_done c' = cl_bind_done c0 \<and>
     cl_clt_nonce c' = cl_clt_nonce c0 \<and> cl_srv_nonce c' = cl_srv_nonce c0"

lemma wire_delivered: "mwf m \<Longrightarrow> delivered m (wire junk (cells m))"
  by (auto simp: wire_def delivered_def length_cells split: option.splits)

lemma wire_arrives: "n \<le> length b \<Longrightarrow> arrives b n (wire junk (take n b))"
  by (auto simp: wire_def arrives_def delivered_def cells_def split: option.splits)

text \<open>The client takes its reply and ends the call.\<close>

lemma reply_taken:
  assumes "unpack_reply_header (unmarshall_of bs) = Inr (\<lparr>rh_xid = x, rh_ret = ret\<rparr>, rep)" "u_ok rep"
    and "cl_inv c" "cl_calls c x = Some (caller_new x unmarshall_new)"
  shows "\<exists>c1 c2. cl_got_pdu c bs = Inr c1 \<and> call_end c1 x = Inr ((ret, fst (take_in unmarshall_new rep)), c2) \<and> cl_inv c2 \<and>
    (\<exists>w. c2 = c\<lparr>cl_calls := (cl_calls c)(x := None), cl_window := w\<rparr>)"
proof -
  have x: "x < cl_xid c" using assms(3,4) by (auto simp: cl_inv_def)
  obtain w where w: "update_xid_rep (cl_window c) x = Inr w" "cl_inv (c\<lparr>cl_window := w\<rparr>)"
    using cl_inv_update [OF assms(3) x] by blast
  obtain w2 where w2: "update_xid_rep w x = Inr w2" "cl_inv (c\<lparr>cl_window := w2\<rparr>)"
    using cl_inv_update [OF w(2), of x] x by auto
  have "cl_inv (c\<lparr>cl_calls := (cl_calls c)(x := None), cl_window := w2\<rparr>)" using w2(2) by (auto simp: cl_inv_def)
  with assms w(1) w2(1) show ?thesis by (auto simp: cl_got_pdu_def call_end_def caller_new_def)
qed

lemma reply_missed:
  assumes "cl_inv c" "cl_calls c x = Some (caller_new x unmarshall_new)"
  shows "\<exists>c2. call_end c x = Inr ((timeout_failure, unmarshall_new), c2) \<and> cl_inv c2 \<and>
    (\<exists>w. c2 = c\<lparr>cl_calls := (cl_calls c)(x := None), cl_window := w\<rparr>)"
proof -
  have x: "x < cl_xid c" using assms by (auto simp: cl_inv_def)
  obtain w where w: "update_xid_rep (cl_window c) x = Inr w" "cl_inv (c\<lparr>cl_window := w\<rparr>)"
    using cl_inv_update [OF assms(1) x] by blast
  have "cl_inv (c\<lparr>cl_calls := (cl_calls c)(x := None), cl_window := w\<rparr>)" using w(2) by (auto simp: cl_inv_def)
  with assms w(1) show ?thesis by (auto simp: call_end_def caller_new_def)
qed

lemma begun_inv:
  assumes "cl_inv c" "cl_xid c + 1 \<noteq> 0"
  shows "cl_inv (c\<lparr>cl_xid := cl_xid c + 1, cl_calls := (cl_calls c)(cl_xid c \<mapsto> k)\<rparr>)"
proof -
  have lt: "cl_xid c < cl_xid c + 1" using assms(2) by (rule word_less_Suc)
  from assms(1) obtain R where "represents (cl_window c) R" "0 \<notin> R" "\<forall>y \<in> R. y < cl_xid c" by (auto simp: cl_inv_def)
  then show ?thesis using assms(1) lt by (auto simp: cl_inv_def intro!: exI [of _ R] intro: less_trans)
qed

lemma got_pdu_ready:
  assumes "srv_ok s E" "0 < E c" "s_store s c = Some k" "s_reachable s"
  shows "got_pdu s True True c b = Inr (True, Some (c, b), s\<lparr>s_store := (s_store s)(c \<mapsto> k\<lparr>c_refno := c_refno k + 1\<rparr>)\<rparr>)"
    and "srv_ok (s\<lparr>s_store := (s_store s)(c \<mapsto> k\<lparr>c_refno := c_refno k + 1\<rparr>)\<rparr>) (E(c := Suc (E c)))"
proof -
  have i: "srv_incref s c = Inr (s\<lparr>s_store := (s_store s)(c \<mapsto> k\<lparr>c_refno := c_refno k + 1\<rparr>)\<rparr>)"
    using assms(3) by (simp add: srv_incref_def incref_def conn_at_def)
  then show "got_pdu s True True c b = Inr (True, Some (c, b), s\<lparr>s_store := (s_store s)(c \<mapsto> k\<lparr>c_refno := c_refno k + 1\<rparr>)\<rparr>)"
    using assms(4) by (simp add: got_pdu_def)
  from srv_incref_ok [OF assms(1), of c] assms(2) i
  show "srv_ok (s\<lparr>s_store := (s_store s)(c \<mapsto> k\<lparr>c_refno := c_refno k + 1\<rparr>)\<rparr>) (E(c := Suc (E c)))" by auto
qed

lemma linked_next:
  assumes "cl_inv c0" "\<not> cl_destroy_wait c0" "cl_clt_nonce c0 \<noteq> 0" "cl_srv_nonce c0 = 0 \<or> cl_srv_nonce c0 = s_nonce s"
    and "wok (window_of (s_window s) (cl_clt_nonce c0))" "\<forall>y \<in> known (s_window s) (cl_clt_nonce c0). y < cl_xid c0"
    and "s_reachable s" "srv_ok s E" "0 < E c" "s_store s c = Some k" "\<not> c_dead k"
    and "serves (s\<lparr>s_store := hp\<rparr>) (E(c := Suc (E c))) c h s'" "xid h = cl_xid c0" "clt_nonce h = cl_clt_nonce c0"
    and "cl_inv c'" "\<not> cl_destroy_wait c'" "cl_clt_nonce c' = cl_clt_nonce c0" "cl_srv_nonce c' = cl_srv_nonce c0"
    and "cl_xid c' = cl_xid c0 + 1" "cl_xid c0 + 1 \<noteq> 0"
  shows "linked s' c c'"
proof -
  have lt: "cl_xid c0 < cl_xid c0 + 1" using assms(20) by (rule word_less_Suc)
  have ok: "srv_ok s' E" using assms(12) by (simp add: serves_def)
  then obtain k' where "s_store s' c = Some k'" using assms(9)
    by (cases "s_store s' c") (auto simp: srv_ok_def refs_ok_def)
  moreover from this have "\<not> c_dead k'" using assms(12) by (simp add: serves_def)
  ultimately have "\<exists>E k. srv_ok s' E \<and> 0 < E c \<and> s_store s' c = Some k \<and> \<not> c_dead k" using ok assms(9) by blast
  moreover have "\<forall>y \<in> known (s_window s') (cl_clt_nonce c0). y < cl_xid c0 + 1"
    using assms(6,12,13,14) lt less_trans by (fastforce simp: serves_def)
  ultimately show ?thesis using assms by (simp add: linked_def paired_def serves_def)
qed

lemma rpc_call_serves:
  assumes "codec enca puta geta" "codec encr putr getr"
    and "RPC_HEADER_SZ + length (enca a) < MSG_MAX" "RPC_HEADER_SZ + length (encr r) < MSG_MAX"
    and "linked s c c0" "cl_bind_done c0 \<longleftrightarrow> p \<noteq> rpc_bind" "cl_xid c0 + 1 \<noteq> 0"
    and "s_procs s p = Some (handler1 geta putr meth)" "meth (s_app s) a = Inr (ret, r, app)" "0 \<le> sint ret"
  shows "\<exists>s' c'. rpc_call junk heard s c c0 p (call_args1 puta a) getr =
      Inr (if heard then (ret, Some r) else (timeout_failure, None), s', c') \<and>
    s_app s' = app \<and> linked s' c c' \<and> kept s c0 s' c'"
proof -
  from assms(5) obtain E k where l: "cl_inv c0" "\<not> cl_destroy_wait c0" "cl_clt_nonce c0 \<noteq> 0"
    "cl_srv_nonce c0 = 0 \<or> cl_srv_nonce c0 = s_nonce s" "wok (window_of (s_window s) (cl_clt_nonce c0))"
    "\<forall>y \<in> known (s_window s) (cl_clt_nonce c0). y < cl_xid c0" "s_reachable s"
    "srv_ok s E" "0 < E c" "s_store s c = Some k" "\<not> c_dead k" by (auto simp: linked_def paired_def)
  define hp where "hp = (s_store s)(c \<mapsto> k\<lparr>c_refno := c_refno k + 1\<rparr>)"
  have pdu: "\<forall>b. got_pdu s True True c b = Inr (True, Some (c, b), s\<lparr>s_store := hp\<rparr>)"
    "srv_ok (s\<lparr>s_store := hp\<rparr>) (E(c := Suc (E c)))" "hp c = Some (k\<lparr>c_refno := c_refno k + 1\<rparr>)"
    using got_pdu_ready [OF l(8,9,10,7)] by (simp_all add: hp_def)
  define s1 where "s1 = s\<lparr>s_store := hp\<rparr>"
  define c1 where "c1 = c0\<lparr>cl_xid := cl_xid c0 + 1, cl_calls := (cl_calls c0)(cl_xid c0 \<mapsto> caller_new (cl_xid c0) unmarshall_new)\<rparr>"
  have s1: "cl_srv_nonce c0 = 0 \<or> cl_srv_nonce c0 = s_nonce s1" "s_procs s1 p = Some (handler1 geta putr meth)"
    "meth (s_app s1) a = Inr (ret, r, app)" "wok (window_of (s_window s1) (cl_clt_nonce c0))"
    "\<forall>y \<in> known (s_window s1) (cl_clt_nonce c0). y < cl_xid c0" "srv_ok s1 (E(c := Suc (E c)))" "0 < (E(c := Suc (E c))) c"
    "s_store s1 c = Some (k\<lparr>c_refno := c_refno k + 1\<rparr>)" "\<not> c_dead (k\<lparr>c_refno := c_refno k + 1\<rparr>)"
    using assms(8,9) l pdu by (simp_all add: s1_def)
  obtain req h m rb n where call: "call_args1 puta a = Inr req" "mwf m" "length rb \<ge> n"
    "call_begin c0 p req unmarshall_new = Inr (Inr (h, m), c1)" "xid h = cl_xid c0" "clt_nonce h = cl_clt_nonce c0"
    and srv: "\<forall>b. delivered m b \<longrightarrow> (\<exists>s'. dispatch s1 c b = Inr s' \<and> s_app s' = app \<and> s_sent s' = s_sent s1 @ [(c, rb, n)] \<and>
      serves s1 (E(c := Suc (E c))) c h s')"
    and rep: "\<forall>bs. arrives rb n bs \<longrightarrow>
      (\<exists>rep u'. unpack_reply_header (unmarshall_of bs) = Inr (\<lparr>rh_xid = xid h, rh_ret = ret\<rparr>, rep) \<and> u_ok rep \<and>
        getr (fst (take_in unmarshall_new rep)) = Inr (r, u') \<and> okdone u')"
    unfolding c1_def
    by (rule call_parts [OF assms(1-4) l(1) assms(6) l(2,3) s1(1-3) assms(10) s1(4-9)])
  from srv [rule_format, OF wire_delivered [OF call(2)]] obtain s2 where s2: "dispatch s1 c (wire junk (cells m)) = Inr s2"
    "s_app s2 = app" "s_sent s2 = s_sent s1 @ [(c, rb, n)]" "serves s1 (E(c := Suc (E c))) c h s2" by blast
  from rep [rule_format, OF wire_arrives [OF call(3)]] obtain rp u' where rp:
    "unpack_reply_header (unmarshall_of (wire junk (take n rb))) = Inr (\<lparr>rh_xid = xid h, rh_ret = ret\<rparr>, rp)" "u_ok rp"
    "getr (fst (take_in unmarshall_new rp)) = Inr (r, u')" "okdone u'" by blast
  have inv: "cl_inv c1" "cl_calls c1 (xid h) = Some (caller_new (xid h) unmarshall_new)"
    using begun_inv [OF l(1) assms(7)] call(5) by (simp_all add: c1_def)
  have "\<exists>c3. rpc_call junk heard s c c0 p (call_args1 puta a) getr =
      Inr (if heard then (ret, Some r) else (timeout_failure, None), s2, c3) \<and> cl_inv c3 \<and>
      (\<exists>w. c3 = c1\<lparr>cl_calls := (cl_calls c1)(xid h := None), cl_window := w\<rparr>)"
  proof (cases heard)
    case True
    from reply_taken [OF rp(1,2) inv] obtain c2 c3 w where c3: "cl_got_pdu c1 (wire junk (take n rb)) = Inr c2"
      "call_end c2 (xid h) = Inr ((ret, fst (take_in unmarshall_new rp)), c3)" "cl_inv c3"
      "c3 = c1\<lparr>cl_calls := (cl_calls c1)(xid h := None), cl_window := w\<rparr>" by blast
    then have "rpc_call junk heard s c c0 p (call_args1 puta a) getr = Inr ((ret, Some r), s2, c3)"
      using True call(1,4) pdu(1) s2(1,3) rp(3,4) assms(10) by (simp add: rpc_call_def s1_def call_m_def)
    with True c3(3,4) show ?thesis by auto
  next
    case False
    from reply_missed [OF inv] obtain c3 w where "call_end c1 (xid h) = Inr ((timeout_failure, unmarshall_new), c3)" "cl_inv c3"
      "c3 = c1\<lparr>cl_calls := (cl_calls c1)(xid h := None), cl_window := w\<rparr>" by blast
    with False call(1,4) pdu(1) s2(1,3) show ?thesis
      by (intro exI [of _ c3]) (auto simp: rpc_call_def s1_def call_m_def timeout_failure_def)
  qed
  then obtain c3 w where c3: "rpc_call junk heard s c c0 p (call_args1 puta a) getr =
      Inr (if heard then (ret, Some r) else (timeout_failure, None), s2, c3)" "cl_inv c3"
    "c3 = c1\<lparr>cl_calls := (cl_calls c1)(xid h := None), cl_window := w\<rparr>" by blast
  have "linked s2 c c3" by (rule linked_next [OF l s2(4) [unfolded s1_def] call(5,6) c3(2)]) (simp_all add: c3(3) c1_def assms(7) l(2))
  moreover have "kept s c0 s2 c3" using s2(4) by (simp add: kept_def c3(3) c1_def serves_def s1_def)
  ultimately show ?thesis using s2(2) c3(1) by blast
qed

section \<open>Binding\<close>

text \<open>A connection the server has just accepted, held by its listener.\<close>

definition accepted :: "'a rpcs \<Rightarrow> cid \<Rightarrow> int \<Rightarrow> int \<Rightarrow> 'a rpcs" where
  "accepted s c sec usec = s\<lparr>s_store := (s_store s)(c \<mapsto> connection_new sec usec)\<rparr>"

lemma accepted_linked:
  assumes "srv_ok s E" "s_store s c = None" "s_reachable s" "s_window s clt = None" "clt \<noteq> 0"
  shows "linked (accepted s c sec usec) c (rpcc_new clt True l)"
proof -
  have z: "E c = 0" "conn_refs s c = 0" using assms(1,2) by (auto simp: srv_ok_def refs_ok_def)
  have "conn_refs (accepted s c sec usec) = conn_refs s" by (simp add: fun_eq_iff conn_refs_def accepted_def)
  then have "srv_ok (accepted s c sec usec) (E(c := 1))"
    using assms(1) z by (auto simp: srv_ok_def refs_ok_def accepted_def connection_new_def charbuf_new_def)
  then have "\<exists>E k. srv_ok (accepted s c sec usec) E \<and> 0 < E c \<and> s_store (accepted s c sec usec) c = Some k \<and> \<not> c_dead k"
    by (intro exI [of _ "E(c := 1)"]) (simp add: accepted_def connection_new_def)
  then show ?thesis
    unfolding linked_def paired_def using assms(3-5) cl_inv_new [of clt True l]
    by (simp add: rpcc_new_def accepted_def known_def window_of_def)
qed

lemma rpcbind_handler: "rpcbind nonce = handler1 get_int put_int (\<lambda>app _. Inr (0, nonce, app))"
  by (intro ext) (simp add: rpcbind_def handler1_def cong: if_cong prod.case_cong)

lemma small_args: "RPC_HEADER_SZ + length (enc_u32 x) < MSG_MAX"
  by (simp add: sizes MSG_MAX_def)

text \<open>A first bind makes the client ready for calls to this instance of the server.\<close>

lemma client_bind_binds:
  assumes "linked s c c0" "\<not> cl_bind_done c0" "cl_xid c0 + 1 \<noteq> 0" "s_procs s rpc_bind = Some (rpcbind (s_nonce s))"
  shows "\<exists>s' c'. client_bind junk s c c0 = Inr (0, s', c') \<and> s_app s' = s_app s \<and> linked s' c c' \<and> s_procs s' = s_procs s \<and>
    s_nonce s' = s_nonce s \<and> cl_xid c' = cl_xid c0 + 1 \<and> cl_bind_done c' \<and> cl_clt_nonce c' = cl_clt_nonce c0 \<and>
    cl_srv_nonce c' = s_nonce s"
proof -
  have b: "cl_bind_done c0 \<longleftrightarrow> rpc_bind \<noteq> rpc_bind" using assms(2) by simp
  from rpc_call_serves [OF sint.codec_axioms sint.codec_axioms small_args small_args assms(1) b assms(3)
      assms(4) [unfolded rpcbind_handler], where a = 0 and ret = 0 and r = "s_nonce s" and app = "s_app s" and junk = junk and heard = True]
  obtain s' c' where c: "rpc_call junk True s c c0 rpc_bind (call_args1 put_int 0) get_int = Inr ((0, Some (s_nonce s)), s', c')"
    "s_app s' = s_app s" "linked s' c c'" "kept s c0 s' c'" by auto
  have "linked s' c (c'\<lparr>cl_bind_done := True, cl_srv_nonce := s_nonce s\<rparr>)"
    using c(3,4) by (auto simp: linked_def paired_def kept_def cl_inv_def)
  with c show ?thesis by (simp add: client_bind_def bind_end_def kept_def)
qed

lemma client_bind_again:
  assumes "cl_bind_done c0"
  shows "client_bind junk s c c0 = Inr (bind_failure, s, c0)"
proof -
  obtain req where "call_args1 put_int 0 = Inr req"
    using request_crosses [OF sint.codec_axioms small_args, of 0] by (auto simp: call_args1_def)
  with assms show ?thesis by (simp add: client_bind_def rpc_call_def call_begin_def call_m_def bind_end_def bind_failure_def)
qed

lemma connected_linked: "connected s c c0 \<Longrightarrow> s_reachable s \<Longrightarrow> linked s c c0"
  by (simp add: connected_def linked_def paired_def)

lemma connected_paired: "connected s c c0 \<Longrightarrow> paired s c c0"
  by (simp add: connected_def paired_def)

section \<open>Sessions\<close>

text \<open>A remote object behaves as a local one, for whole sequences of calls.\<close>

lemma rpc_session_serves:
  assumes "codec enca puta geta" "codec encr putr getr"
    and "linked s c c0" "cl_bind_done c0" "unat (cl_xid c0) + length js < 2 ^ 32"
    and "\<forall>(p, x) \<in> set js. p \<noteq> rpc_bind \<and> s_procs s p = Some (handler1 geta putr (meth p)) \<and>
      RPC_HEADER_SZ + length (enca x) < MSG_MAX"
    and "local_session meth js (s_app s) = Inr (xs, app)"
    and "\<forall>(ret, r) \<in> set xs. 0 \<le> sint ret \<and> RPC_HEADER_SZ + length (encr r) < MSG_MAX"
  shows "\<exists>s' c'. rpc_session junk c puta getr js s c0 = Inr (map (\<lambda>(ret, r). (ret, Some r)) xs, s', c') \<and>
    s_app s' = app \<and> linked s' c c' \<and> cl_bind_done c'"
  using assms(3-)
proof (induction js arbitrary: s c0 xs)
  case Nil
  then show ?case by auto
next
  case (Cons j js)
  obtain p x where j: "j = (p, x)" by fastforce
  from Cons.prems(5) obtain ret r a1 ys where m: "meth p (s_app s) x = Inr (ret, r, a1)"
    "local_session meth js a1 = Inr (ys, app)" "xs = (ret, r) # ys" by (auto simp: j rbind_eq_Inr)
  have 1: "cl_bind_done c0 \<longleftrightarrow> p \<noteq> rpc_bind" "s_procs s p = Some (handler1 geta putr (meth p))" "0 \<le> sint ret"
    "RPC_HEADER_SZ + length (enca x) < MSG_MAX" "RPC_HEADER_SZ + length (encr r) < MSG_MAX"
    using Cons.prems(2,4,6) m(3) by (auto simp: j)
  have u: "unat (cl_xid c0 + 1) = unat (cl_xid c0) + 1" using Cons.prems(3) by (simp add: unat_word_ariths)
  then have 2: "cl_xid c0 + 1 \<noteq> 0" by auto
  from rpc_call_serves [OF assms(1,2) 1(4,5) Cons.prems(1) 1(1) 2 1(2) m(1) 1(3), of junk True] obtain s' c' where
    c: "rpc_call junk True s c c0 p (call_args1 puta x) getr = Inr ((ret, Some r), s', c')"
      "s_app s' = a1" "linked s' c c'" "kept s c0 s' c'" by auto
  have "cl_bind_done c'" "unat (cl_xid c') + length js < 2 ^ 32"
    "\<forall>(p, x) \<in> set js. p \<noteq> rpc_bind \<and> s_procs s' p = Some (handler1 geta putr (meth p)) \<and>
      RPC_HEADER_SZ + length (enca x) < MSG_MAX"
    "local_session meth js (s_app s') = Inr (ys, app)"
    "\<forall>(ret, r) \<in> set ys. 0 \<le> sint ret \<and> RPC_HEADER_SZ + length (encr r) < MSG_MAX"
    using Cons.prems(2-6) c(2,4) u m by (auto simp: kept_def)
  from Cons.IH [OF c(3) this] c(1) show ?case by (auto simp: j m(3))
qed

text \<open>(C5) A remote object refines the local one: a new client that connects to a server, binds to it, and makes
  any sequence of calls gets, call by call, the status and the result that the registered methods give when
  they are run one after the other on the server's object, and leaves that object in the same state. It holds
  for all types of arguments and results that can be marshalled, over a connection that delivers the messages,
  as long as the client does not run out of transaction numbers.\<close>

theorem session_refines_local:
  assumes "codec enca puta geta" "codec encr putr getr"
    and "srv_ok s E" "s_store s c = None" "s_reachable s" "s_window s clt = None" "clt \<noteq> 0"
    and "s_procs s rpc_bind = Some (rpcbind (s_nonce s))" "length js + 2 < 2 ^ 32"
    and "\<forall>(p, x) \<in> set js. p \<noteq> rpc_bind \<and> s_procs s p = Some (handler1 geta putr (meth p)) \<and>
      RPC_HEADER_SZ + length (enca x) < MSG_MAX"
    and "local_session meth js (s_app s) = Inr (xs, app)"
    and "\<forall>(ret, r) \<in> set xs. 0 \<le> sint ret \<and> RPC_HEADER_SZ + length (encr r) < MSG_MAX"
  shows "\<exists>s1 c1 s' c'. client_bind junk (accepted s c sec usec) c (rpcc_new clt True lossy) = Inr (0, s1, c1) \<and>
    rpc_session junk c puta getr js s1 c1 = Inr (map (\<lambda>(ret, r). (ret, Some r)) xs, s', c') \<and> s_app s' = app"
proof -
  have f: "s_procs (accepted s c sec usec) = s_procs s" "s_nonce (accepted s c sec usec) = s_nonce s"
    "s_app (accepted s c sec usec) = s_app s" by (simp_all add: accepted_def)
  have n: "\<not> cl_bind_done (rpcc_new clt True lossy)" "cl_xid (rpcc_new clt True lossy) + 1 \<noteq> 0"
    "cl_xid (rpcc_new clt True lossy) = 1" by (simp_all add: rpcc_new_def)
  from client_bind_binds [OF accepted_linked [OF assms(3-7)] n(1,2), of sec usec junk] assms(8) f obtain s1 c1 where
    b: "client_bind junk (accepted s c sec usec) c (rpcc_new clt True lossy) = Inr (0, s1, c1)" "s_app s1 = s_app s"
      "linked s1 c c1" "s_procs s1 = s_procs s" "cl_bind_done c1" "cl_xid c1 = 2" using n(3) by auto
  have "unat (cl_xid c1) + length js < 2 ^ 32" using assms(9) b(6) by simp
  from rpc_session_serves [OF assms(1,2) b(3,5) this, where meth = meth and xs = xs and app = app and junk = junk] b assms(10-12)
  show ?thesis by auto
qed

definition adder :: "u32 rpcs" where
  "adder = (case rbind (rpcs_new 77 0 5) (\<lambda>s. reg1 s 4 (handler1 get_int put_int (\<lambda>n a. Inr (0, n + a, n + a)))) of Inr s \<Rightarrow> s)"

lemma session_refines_local_witness:
  "\<exists>s1 c1 s' c'. client_bind 0 (accepted adder 3 0 0) 3 (rpcc_new 9 True 0) = Inr (0, s1, c1) \<and>
    rpc_session 0 3 put_int get_int [(4, 8), (4, 2)] s1 c1 = Inr ([(0, Some 13), (0, Some 15)], s', c') \<and> s_app s' = 15"
proof -
  have a: "srv_ok adder (\<lambda>_. 0)" "s_store adder 3 = None" "s_reachable adder" "s_window adder 9 = None" "(9::u32) \<noteq> 0"
    "s_procs adder rpc_bind = Some (rpcbind (s_nonce adder))" "s_app adder = 5"
    "s_procs adder 4 = Some (handler1 get_int put_int (\<lambda>n a. Inr (0, n + a, n + a)))"
    by (simp_all add: adder_def rpcs_new_def reg1_def rpc_bind_def srv_ok_def refs_ok_def conn_refs_def)
  have js: "length [(4::u32, 8::u32), (4, 2)] + 2 < 2 ^ 32" by simp
  show ?thesis
    using session_refines_local [OF sint.codec_axioms sint.codec_axioms a(1-6) js,
        where meth = "\<lambda>_ n a. Inr (0, n + a, n + a)" and xs = "[(0, 13), (0, 15)]" and app = 15 and junk = 0 and sec = 0 and usec = 0
          and lossy = 0] a(7,8)
    by (simp add: rpc_bind_def small_args [simplified])
qed

section \<open>Calls that fail\<close>

text \<open>A client of an earlier instance of the server is told so, whatever it calls; the server keeps a reference to
  its connection.\<close>

lemma failure_crosses:
  "\<exists>m. pack_reply_header marshall_new h = Inr m \<and> mwf m \<and>
    (\<forall>bs. delivered m bs \<longrightarrow> (\<exists>u. unpack_reply_header (unmarshall_of bs) = Inr (h, u) \<and> u_ok u))"
proof -
  have n: "cells marshall_new = replicate 24 None" by (simp add: cells_def marshall_new_def sizes)
  from pack_reply_header_writes [OF mwf_new, of h] n obtain m where
    m: "pack_reply_header marshall_new h = Inr m" "mwf m" "cells m = replicate 4 None @ map Some (enc_reply_header h) @ replicate 12 None"
    by auto
  have "\<exists>u. unpack_reply_header (unmarshall_of bs) = Inr (h, u) \<and> u_ok u" if d: "delivered m bs" for bs
  proof -
    have l: "length bs = 24" "m_ind m = 24" using d m(3) length_cells [OF m(2)] by (simp_all add: delivered_def)
    have "take 8 (drop 4 bs) = enc_reply_header h"
      using delivered_segment [OF d m(2), of 4 "enc_reply_header h"] l by (simp add: m(3))
    then have "unpack_reply_header (unmarshall_of bs) = Inr (h, (unmarshall_of bs)\<lparr>u_ind := 24\<rparr>)"
      using l by (intro unpack_reply_header_reads) (simp_all add: INT_MAX_def)
    then show ?thesis by (simp add: unmarshall_of_def)
  qed
  with m show ?thesis by blast
qed

lemma call_old_server:
  assumes "codec enca puta geta" "RPC_HEADER_SZ + length (enca a) < MSG_MAX"
    and "cl_inv c0" "cl_bind_done c0" "\<not> cl_destroy_wait c0" "p \<noteq> rpc_bind" "cl_xid c0 + 1 \<noteq> 0"
    and "cl_srv_nonce c0 \<noteq> 0" "cl_srv_nonce c0 \<noteq> s_nonce s"
    and "srv_ok s E" "0 < E c" "s_store s c = Some k" "\<not> c_dead k" "s_reachable s"
  shows "\<exists>sent c'. rpc_call junk True s c c0 p (call_args1 puta a) getr =
      Inr ((oldsrv_failure, None), s\<lparr>s_store := (s_store s)(c \<mapsto> k\<lparr>c_refno := c_refno k + 1\<rparr>), s_sent := sent\<rparr>, c') \<and>
    srv_ok (s\<lparr>s_store := (s_store s)(c \<mapsto> k\<lparr>c_refno := c_refno k + 1\<rparr>), s_sent := sent\<rparr>) (E(c := Suc (E c)))"
proof -
  obtain f w where f: "cl_window c0 = f # w" "f < cl_xid c0" using cl_inv_window [OF assms(3)] by blast
  define h where "h = \<lparr>xid = cl_xid c0, proc = p, clt_nonce = cl_clt_nonce c0, srv_nonce = cl_srv_nonce c0, xid_rep = f\<rparr>"
  define c1 where "c1 = c0\<lparr>cl_xid := cl_xid c0 + 1, cl_calls := (cl_calls c0)(cl_xid c0 \<mapsto> caller_new (cl_xid c0) unmarshall_new)\<rparr>"
  from request_crosses [OF assms(1,2), of h] obtain req m where
    req: "puta marshall_new a = Inr req" "pack_req_header req h = Inr m" "mwf m"
    "\<And>b. delivered m b \<Longrightarrow> \<exists>u u'. unpack_req_header (unmarshall_of b) = Inr (h, u) \<and> u_ok u \<and> geta u = Inr (a, u') \<and> okdone u'" by blast
  have beg: "call_begin c0 p req unmarshall_new = Inr (Inr (h, m), c1)"
    using assms(4-6) f(1) req(2) by (simp add: call_begin_def h_def c1_def Let_def)
  define hp where "hp = (s_store s)(c \<mapsto> k\<lparr>c_refno := c_refno k + 1\<rparr>)"
  have pdu: "\<forall>b. got_pdu s True True c b = Inr (True, Some (c, b), s\<lparr>s_store := hp\<rparr>)" "hp c = Some (k\<lparr>c_refno := c_refno k + 1\<rparr>)"
    "srv_ok (s\<lparr>s_store := hp\<rparr>) (E(c := Suc (E c)))"
    using got_pdu_ready [OF assms(10-12,14)] by (simp_all add: hp_def)
  from req(4) [OF wire_delivered [OF req(3), of junk]] obtain u where
    u: "unpack_req_header (unmarshall_of (wire junk (cells m))) = Inr (h, u)" "u_ok u" by blast
  define s1 where "s1 = s\<lparr>s_store := hp\<rparr>"
  from failure_crosses [of "\<lparr>rh_xid = xid h, rh_ret = oldsrv_failure\<rparr>"] obtain rm rb where
    rm: "pack_reply_header marshall_new \<lparr>rh_xid = xid h, rh_ret = oldsrv_failure\<rparr> = Inr rm" "mwf rm" "m_buf rm = Some rb"
    "\<forall>bs. delivered rm bs \<longrightarrow> (\<exists>u. unpack_reply_header (unmarshall_of bs) = Inr (\<lparr>rh_xid = xid h, rh_ret = oldsrv_failure\<rparr>, u) \<and> u_ok u)"
    by (metis mwf_cases)
  then have cs: "cells rm = take (m_ind rm) rb" by (simp add: cells_def)
  define s2 where "s2 = s1\<lparr>s_sent := s_sent s @ [(c, rb, m_ind rm)]\<rparr>"
  have d: "dispatch s1 c (wire junk (cells m)) = Inr s2"
    using u assms(8,9,13) rm(1,3) pdu(2)
    by (simp add: dispatch_def h_def send_failure_def srv_send_def isdead_def conn_at_def s1_def s2_def)
  from rm(4) [rule_format, OF wire_delivered [OF rm(2), of junk]] obtain rp where
    rp: "unpack_reply_header (unmarshall_of (wire junk (cells rm))) = Inr (\<lparr>rh_xid = xid h, rh_ret = oldsrv_failure\<rparr>, rp)" "u_ok rp" by blast
  have "cl_inv c1" "cl_calls c1 (xid h) = Some (caller_new (xid h) unmarshall_new)"
    using begun_inv [OF assms(3,7)] by (simp_all add: c1_def h_def)
  from reply_taken [OF rp this] obtain c2 c3 where c3: "cl_got_pdu c1 (wire junk (cells rm)) = Inr c2"
    "call_end c2 (xid h) = Inr ((oldsrv_failure, fst (take_in unmarshall_new rp)), c3)" by blast
  have "rpc_call junk True s c c0 p (call_args1 puta a) getr = Inr ((oldsrv_failure, None), s2, c3)"
    using req(1) beg pdu(1) d c3 cs by (simp add: rpc_call_def call_args1_def s1_def s2_def call_m_def oldsrv_failure_def)
  moreover have "srv_ok s2 (E(c := Suc (E c)))" using pdu(3) by (simp add: s2_def s1_def srv_ok_def conn_refs_def)
  ultimately show ?thesis by (auto simp: s2_def s1_def hp_def)
qed
end
