(* ===== verification/Rpc_Test.thy ===== *)
theory Rpc_Test
  imports Services Rpc_Session
begin

text \<open>
  The test program \<^verbatim>\<open>rpc/rpctest.cc\<close>: its server, \<^verbatim>\<open>testmarshall\<close>, the threads of \<^verbatim>\<open>client1\<close> and \<^verbatim>\<open>client3\<close>, \<^verbatim>\<open>simple_tests\<close> and
  \<^verbatim>\<open>failure_test\<close>, over the calls of \<open>Rpc_Session\<close>. The tests pass for all values, not only for the ones they use;
  and two calls that \<^verbatim>\<open>simple_tests\<close> expects to fail end the server instead.
\<close>

section \<open>The server of the test\<close>

definition handle_22 :: "byte list \<Rightarrow> byte list \<Rightarrow> u32 \<times> byte list" where
  "handle_22 a b = (0, a @ b)"

text \<open>The sum of two numbers of type \<^verbatim>\<open>int\<close>.\<close>

definition add_int :: "u32 \<Rightarrow> u32 \<Rightarrow> u32 res" where
  "add_int a b = (if sint a + sint b < - (2 ^ 31) \<or> 2 ^ 31 \<le> sint a + sint b then Inl SignedOverflow else Inr (a + b))"

definition handle_fast :: "u32 \<Rightarrow> (u32 \<times> u32) res" where
  "handle_fast a = rbind (add_int a 1) (\<lambda>r. Inr (0, r))"

definition handle_slow :: "u32 \<Rightarrow> (u32 \<times> u32) res" where
  "handle_slow a = rbind (add_int a 2) (\<lambda>r. Inr (0, r))"

text \<open>A negative length is a huge one for the constructor of \<^verbatim>\<open>std::string\<close>, which throws.\<close>

definition handle_bigrep :: "u32 \<Rightarrow> (u32 \<times> byte list) res" where
  "handle_bigrep len = (if sint len < 0 then Inl BadAlloc else Inr (0, replicate (unat len) 120))"

definition test_procs :: "u32 \<rightharpoonup> unit handler" where
  "test_procs =
     [22 \<mapsto> handler2 get_string get_string put_string (\<lambda>_ a b. case handle_22 a b of (i, r) \<Rightarrow> Inr (i, r, ())),
      23 \<mapsto> handler1 get_int put_int (\<lambda>_ a. rbind (handle_fast a) (\<lambda>(i, r). Inr (i, r, ()))),
      24 \<mapsto> handler1 get_int put_int (\<lambda>_ a. rbind (handle_slow a) (\<lambda>(i, r). Inr (i, r, ()))),
      25 \<mapsto> handler1 get_int put_string (\<lambda>_ a. rbind (handle_bigrep a) (\<lambda>(i, r). Inr (i, r, ())))]"

definition startserver :: "u32 \<Rightarrow> int \<Rightarrow> unit rpcs res" where
  "startserver nonce count =
     rbind (rpcs_new nonce count ()) (\<lambda>s. rfold (\<lambda>s p. reg1 s p (the (test_procs p))) s [22, 23, 24, 25])"

section \<open>The test programs\<close>

text \<open>The threads of \<^verbatim>\<open>client1\<close>: \<open>rnd\<close> gives the successive results of \<^verbatim>\<open>random\<close>. The result of a failed call is
  the empty string that the variable held.\<close>

definition client1_size :: "byte \<Rightarrow> cid \<Rightarrow> (nat \<Rightarrow> nat) \<Rightarrow> unit rpcs \<times> rpcc \<Rightarrow> nat \<Rightarrow> (unit rpcs \<times> rpcc) res" where
  "client1_size junk c rnd sc i =
     (let arg = of_nat (rnd i mod 2000) in
      rbind (rpc_call junk True (fst sc) c (snd sc) 25 (call_args1 put_int arg) get_string) (\<lambda>((ret, rep), sc').
      rbind (verify (ret = 0)) (\<lambda>_.
      rbind (verify (int (length (case rep of None \<Rightarrow> [] | Some r \<Rightarrow> r)) = sint arg)) (\<lambda>_. Inr sc'))))"

definition client1_value :: "byte \<Rightarrow> cid \<Rightarrow> (nat \<Rightarrow> nat) \<Rightarrow> unit rpcs \<times> rpcc \<Rightarrow> nat \<Rightarrow> (unit rpcs \<times> rpcc) res" where
  "client1_value junk c rnd sc i =
     (let which = rnd (100 + 2 * i) mod 2 = 1; arg = of_nat (rnd (101 + 2 * i) mod 1000) in
      rbind (rpc_call junk True (fst sc) c (snd sc) (if which then 23 else 24) (call_args1 put_int arg) get_int) (\<lambda>((ret, rep), sc').
      rbind (verify (ret = 0)) (\<lambda>_.
      rbind (add_int arg (if which then 1 else 2)) (\<lambda>sum.
      rbind (verify (rep = Some sum)) (\<lambda>_. Inr sc')))))"

definition client1 :: "byte \<Rightarrow> cid \<Rightarrow> (nat \<Rightarrow> nat) \<Rightarrow> unit rpcs \<times> rpcc \<Rightarrow> (unit rpcs \<times> rpcc) res" where
  "client1 junk c rnd sc =
     rbind (rfold (client1_size junk c rnd) sc [0..<100]) (\<lambda>sc. rfold (client1_value junk c rnd) sc [0..<100])"

text \<open>One round of the loop of \<^verbatim>\<open>client3\<close>, and the ten threads that \<^verbatim>\<open>failure_test\<close> starts, whose calls come one after the
  other in the order of \<open>sched\<close>; \<open>done\<close> counts the rounds of each thread.\<close>

definition client3 :: "byte \<Rightarrow> cid \<Rightarrow> bool \<Rightarrow> u32 \<Rightarrow> unit rpcs \<times> rpcc \<Rightarrow> (unit rpcs \<times> rpcc) res" where
  "client3 junk c heard i sc =
     rbind (rpc_call junk heard (fst sc) c (snd sc) 24 (call_args1 put_int i) get_int) (\<lambda>((ret, rep), sc').
     rbind (add_int i 2) (\<lambda>sum.
     rbind (verify (ret = timeout_failure \<or> rep = Some sum)) (\<lambda>_. Inr sc')))"

fun client3_threads ::
  "byte \<Rightarrow> cid \<Rightarrow> (nat \<times> bool) list \<Rightarrow> (nat \<Rightarrow> nat) \<Rightarrow> unit rpcs \<times> rpcc \<Rightarrow> (unit rpcs \<times> rpcc) res" where
  "client3_threads junk c [] rounds sc = Inr sc"
| "client3_threads junk c ((t, heard) # sched) rounds sc =
     (if t < 10 \<and> rounds t < 4
      then rbind (client3 junk c heard (of_nat (rounds t)) sc) (client3_threads junk c sched (rounds(t := rounds t + 1)))
      else client3_threads junk c sched rounds sc)"

definition bytes_of :: "string \<Rightarrow> byte list" where
  "bytes_of s = map of_char s"

text \<open>\<^verbatim>\<open>simple_tests\<close>; \<open>dead\<close> is what the attempt to bind to a port where no server listens returns, and the
  seconds it takes.\<close>

definition simple_tests :: "byte \<Rightarrow> cid \<Rightarrow> u32 \<times> int \<Rightarrow> unit rpcs \<Rightarrow> rpcc \<Rightarrow> (unit rpcs \<times> rpcc) res" where
  "simple_tests junk c dead s c0 =
     rbind (rpc_call junk True s c c0 22 (call_args2 put_string put_string (bytes_of ''hello'') (bytes_of '' goodbye'')) get_string)
       (\<lambda>((ret, rep), s, c0).
     rbind (verify (ret = 0)) (\<lambda>_.
     rbind (verify (rep = Some (bytes_of ''hello goodbye''))) (\<lambda>_.
     rbind (rpc_call junk True s c c0 25 (call_args1 put_int 70000) get_string) (\<lambda>((ret, rep), s, c0).
     rbind (verify (ret = 0)) (\<lambda>_.
     rbind (verify (map_option length rep = Some 70000)) (\<lambda>_.
     rbind (rpc_call junk True s c c0 22 (call_args1 put_string (bytes_of ''just one'')) get_string) (\<lambda>((ret, rep), s, c0).
     rbind (verify (sint ret < 0)) (\<lambda>_.
     rbind (rpc_call junk True s c c0 23 (call_args2 put_int put_int 1001 1002) get_string) (\<lambda>((ret, rep), s, c0).
     rbind (verify (sint ret < 0)) (\<lambda>_.
     rbind (rpc_call junk True s c c0 23 (call_args2 put_string put_string (bytes_of ''hello'') (bytes_of '' goodbye'')) get_int)
       (\<lambda>((ret, rep), s, c0).
     rbind (verify (sint ret < 0)) (\<lambda>_.
     rbind (rpc_call junk True s c c0 23 (call_args1 put_int 77) get_int) (\<lambda>((ret, rep), s, c0).
     rbind (verify (ret = 0 \<and> rep = Some 78)) (\<lambda>_.
     rbind (rpc_call junk True s c c0 22 (call_args2 put_string put_string (replicate 1000 120) (bytes_of ''x'')) get_string)
       (\<lambda>((ret, rep), s, c0).
     rbind (verify (map_option length rep = Some 1001)) (\<lambda>_.
     rbind (rpc_call junk True s c c0 22 (call_args2 put_string put_string (replicate 1000000 120) (bytes_of ''z'')) get_string)
       (\<lambda>((ret, rep), s, c0).
     rbind (verify (map_option length rep = Some 1000001)) (\<lambda>_.
     rbind (verify (sint (fst dead) < 0 \<and> snd dead \<le> 4)) (\<lambda>_. Inr (s, c0))))))))))))))))))))"

text \<open>\<^verbatim>\<open>failure_test\<close>; \<open>dead\<close> is what the attempt to bind while there is no server returns, \<open>client\<close> the client bound
  to the deleted server, \<open>n1\<close> and \<open>n2\<close> the numbers of the servers it starts, \<open>clt1\<close> and \<open>clt2\<close> those of the clients it makes,
  which connect as \<open>d\<close>, after \<open>client\<close> has connected as \<open>c\<close>.\<close>

definition failure_test ::
  "byte \<Rightarrow> u32 \<Rightarrow> rpcc \<Rightarrow> int \<Rightarrow> cid \<Rightarrow> cid \<Rightarrow> u32 \<Rightarrow> u32 \<Rightarrow> (nat \<times> bool) list \<Rightarrow> u32 \<Rightarrow> u32 \<Rightarrow> (nat \<times> bool) list \<Rightarrow>
   (unit rpcs \<times> rpcc) res" where
  "failure_test junk dead client count c d n1 clt1 sched1 n2 clt2 sched2 =
     rbind (verify (sint dead < 0)) (\<lambda>_.
     rbind (startserver n1 count) (\<lambda>s.
     rbind (rpc_call junk True (accepted s c 0 0) c client 22
         (call_args2 put_string put_string (bytes_of ''hello'') (bytes_of '' goodbye'')) get_string) (\<lambda>((ret, rep), s, _).
     rbind (verify (ret = oldsrv_failure)) (\<lambda>_.
     rbind (client_bind junk (accepted s d 0 0) d (rpcc_new clt1 True 0)) (\<lambda>(ret, s, client).
     rbind (verify (0 \<le> sint ret)) (\<lambda>_.
     rbind (client_bind junk s d client) (\<lambda>(ret, s, client).
     rbind (verify (sint ret < 0)) (\<lambda>_.
     rbind (rpc_call junk True s d client 22
         (call_args2 put_string put_string (bytes_of ''hello'') (bytes_of '' goodbye'')) get_string) (\<lambda>((ret, rep), s, client).
     rbind (verify (ret = 0)) (\<lambda>_.
     rbind (verify (rep = Some (bytes_of ''hello goodbye''))) (\<lambda>_.
     rbind (client3_threads junk d sched1 (\<lambda>_. 0) (s, client)) (\<lambda>_.
     rbind (startserver n2 count) (\<lambda>s.
     rbind (client_bind junk (accepted s d 0 0) d (rpcc_new clt2 True 0)) (\<lambda>(ret, s, client).
     rbind (verify (0 \<le> sint ret)) (\<lambda>_.
     client3_threads junk d sched2 (\<lambda>_. 0) (s, client))))))))))))))))"

section \<open>testmarshall\<close>

text \<open>Cells of the buffer that were never written hold \<open>junk\<close>.\<close>

definition testmarshall :: "byte \<Rightarrow> req_header \<Rightarrow> u32 \<Rightarrow> u64 \<Rightarrow> byte list \<Rightarrow> unit res" where
  "testmarshall junk rh i l s =
     rbind (pack_req_header marshall_new rh) (\<lambda>m.
     rbind (verify (m_ind m = RPC_HEADER_SZ)) (\<lambda>_.
     rbind (put_int m i) (\<lambda>m. rbind (put_ull m l) (\<lambda>m. rbind (put_string m s) (\<lambda>m.
     case take_buf m of (b, sz, _) \<Rightarrow>
     rbind (verify (sz = RPC_HEADER_SZ + 4 + 8 + length s + 4)) (\<lambda>_.
     let un = unmarshall_of (map (case_option junk id) (take sz (the b))) in
     rbind (unpack_req_header un) (\<lambda>(rh1, un).
     rbind (verify (rh1 = rh)) (\<lambda>_.
     rbind (get_int un) (\<lambda>(i1, un). rbind (get_ull un) (\<lambda>(l1, un). rbind (get_string un) (\<lambda>(s1, un).
     rbind (verify (okdone un)) (\<lambda>_.
     verify (i1 = i \<and> l1 = l \<and> s1 = s)))))))))))))"

text \<open>\<^verbatim>\<open>testmarshall\<close> passes whatever it marshals: for every header, numbers and string, and whatever the
  cells that were never written hold, none of its checks fails and no operation faults; the message
  has the expected size, and the header and the three values are read back with nothing left over.\<close>

theorem testmarshall_passes:
  assumes "length s < 2 ^ 29"
  shows "testmarshall junk rh i l s = Inr ()"
proof -
  let ?e = "enc_pair (enc_pair enc_u32 enc_u64) enc_string ((i, l), s)"
  have c: "codec (enc_pair (enc_pair enc_u32 enc_u64) enc_string) (put_pair (put_pair put_int put_ull) put_string)
    (get_pair (get_pair get_int get_ull) get_string)"
    by (intro codec_pair sint.codec_axioms ull.codec_axioms str.codec_axioms)
  have n: "length ?e = 4 + 8 + length s + 4" by (simp add: enc_pair_def enc_string_def)
  have i0: "m_ind marshall_new = 24" by (simp add: marshall_new_def sizes)
  from pack_req_header_writes [OF mwf_new, of rh] obtain m1 where
    m1: "pack_req_header marshall_new rh = Inr m1" "mwf m1" "m_ind m1 = 24" "cells m1 = replicate 4 None @ map Some (enc_req_header rh)"
    by (auto simp: i0)
  from codec.put_appends [OF c m1(2), of "((i, l), s)"] assms n m1(3) obtain m2 where
    m2: "put_pair (put_pair put_int put_ull) put_string m1 ((i, l), s) = Inr m2" "appended m1 ?e m2"
    by (auto simp: sizes MSG_MAX_def)
  have w: "mwf m2" "cells m2 = replicate 4 None @ map Some (enc_req_header rh @ ?e)"
    using m2(2) m1(4) by (simp_all add: appended_def)
  have sz: "m_ind m2 = 24 + length ?e" using length_cells [OF w(1)] w(2) by simp
  define b where "b = map (case_option junk id) (cells m2)"
  have b: "b = replicate 4 junk @ enc_req_header rh @ ?e" by (simp add: b_def w(2) comp_def)
  then have lb: "length b = 24 + length ?e" "length b \<le> INT_MAX" using assms n by (simp_all add: INT_MAX_def)
  have u: "unpack_req_header (unmarshall_of b) = Inr (rh, (unmarshall_of b)\<lparr>u_ind := 24\<rparr>)"
    using lb by (intro unpack_req_header_reads) (simp_all add: b)
  have g: "get_pair (get_pair get_int get_ull) get_string ((unmarshall_of b)\<lparr>u_ind := 24\<rparr>) =
      Inr (((i, l), s), adv (length ?e) ((unmarshall_of b)\<lparr>u_ind := 24\<rparr>))"
    using lb by (intro codec.get_reads [OF c, where r = "[]"] ready_at) (simp_all add: unread_at b)
  obtain bb where bb: "m_buf m2 = Some bb" using w(1) by (rule mwf_cases)
  then have tb: "map (case_option junk id) (take (m_ind m2) (the (m_buf m2))) = b" by (simp add: b_def cells_def)
  have "okdone (adv (length ?e) ((unmarshall_of b)\<lparr>u_ind := 24\<rparr>))" using lb(1) by (simp add: okdone_at_end)
  moreover from m2(1) obtain ma mb where "put_int m1 i = Inr ma" "put_ull ma l = Inr mb" "put_string mb s = Inr m2"
    by (auto simp: put_pair_def rbind_eq_Inr)
  moreover from g obtain u1 u2 where "get_int ((unmarshall_of b)\<lparr>u_ind := 24\<rparr>) = Inr (i, u1)" "get_ull u1 = Inr (l, u2)"
    "get_string u2 = Inr (s, adv (length ?e) ((unmarshall_of b)\<lparr>u_ind := 24\<rparr>))"
    by (auto simp: get_pair_def rbind_eq_Inr)
  ultimately show ?thesis
    using m1(1,3) u sz n tb by (simp add: testmarshall_def take_buf_def sizes)
qed


theorem testmarshall_passes_witness:
  "testmarshall 0 \<lparr>xid = 1, proc = 2, clt_nonce = 3, srv_nonce = 4, xid_rep = 5\<rparr> 12345 1223344455
     [104, 97, 108, 108, 111, 46, 46, 46, 46] = Inr ()"
  by (rule testmarshall_passes) simp

section \<open>The calls\<close>

lemma add_int_small:
  assumes "unat a < 2 ^ 30" "unat b < 2 ^ 30"
  shows "add_int a b = Inr (a + b)"
proof -
  have "unat a < 2 ^ 31" "unat b < 2 ^ 31" using assms by simp_all
  then have s: "sint a = int (unat a)" "sint b = int (unat b)" using sint_u32_small by blast+
  have "int (unat a) < int (2 ^ 30)" "int (unat b) < int (2 ^ 30)" using assms by (simp_all only: of_nat_less_iff)
  then have "uint a < 2 ^ 30" "uint b < 2 ^ 30" by simp_all
  moreover have "\<not> uint a + uint b < - 2147483648" using uint_ge_0 [of a] uint_ge_0 [of b] by linarith
  ultimately show ?thesis using s by (simp add: add_int_def)
qed

lemma handle_small: "unat n < 2 ^ 30 \<Longrightarrow> handle_fast n = Inr (0, n + 1) \<and> handle_slow n = Inr (0, n + 2)"
  by (simp add: handle_fast_def handle_slow_def add_int_small)

text \<open>The calls of \<^verbatim>\<open>simple_tests\<close> and \<^verbatim>\<open>client1\<close> succeed: a client connected to the test server gets the
  concatenation from procedure 22, the next two numbers from 23 and 24, and as many letters as it
  asked for from 25, whatever the arguments are within the range of \<^verbatim>\<open>int\<close>, through the whole RPC library.\<close>

theorem test_calls_succeed:
  assumes "connected s c c0" "test_procs \<subseteq>\<^sub>m s_procs s" "length a + length b < 2 ^ 29" "unat len < 2 ^ 29" "unat n < 2 ^ 30"
  shows "crosses s c c0 22 (call_args2 put_string put_string a b) get_string 0 (a @ b) () \<and>
    crosses s c c0 23 (call_args1 put_int n) get_int 0 (n + 1) () \<and>
    crosses s c c0 24 (call_args1 put_int n) get_int 0 (n + 2) () \<and>
    crosses s c c0 25 (call_args1 put_int len) get_string 0 (replicate (unat len) 120) ()"
proof -
  note sz = sizes MSG_MAX_def enc_string_def enc_pair_def
  have r4: "RPC_HEADER_SZ + length (enc_u32 x) < MSG_MAX" for x by (simp add: sz)
  note cross = connected_crosses [OF _ _ _ _ assms(1)]
  have procs:
    "s_procs s 22 = Some (handler1 (get_pair get_string get_string) put_string
       (\<lambda>_ (a, b). case handle_22 a b of (i, r) \<Rightarrow> Inr (i, r, ())))"
    "s_procs s 23 = Some (handler1 get_int put_int (\<lambda>_ a. rbind (handle_fast a) (\<lambda>(i, r). Inr (i, r, ()))))"
    "s_procs s 24 = Some (handler1 get_int put_int (\<lambda>_ a. rbind (handle_slow a) (\<lambda>(i, r). Inr (i, r, ()))))"
    "s_procs s 25 = Some (handler1 get_int put_string (\<lambda>_ a. rbind (handle_bigrep a) (\<lambda>(i, r). Inr (i, r, ()))))"
    using assms(2) by (simp_all add: map_le_def test_procs_def handler2_def)
  have "RPC_HEADER_SZ + length (enc_pair enc_string enc_string (a, b)) < MSG_MAX"
    "RPC_HEADER_SZ + length (enc_string (a @ b)) < MSG_MAX" using assms(3) by (simp_all add: sz)
  then have "crosses s c c0 22 (call_args2 put_string put_string a b) get_string 0 (a @ b) ()"
    unfolding call_args2_pair call_args1_def [symmetric]
    by (rule cross [OF codec_pair [OF str.codec_axioms str.codec_axioms] str.codec_axioms _ _ _ procs(1)])
      (simp_all add: rpc_bind_def handle_22_def)
  moreover have "crosses s c c0 23 (call_args1 put_int n) get_int 0 (n + 1) ()"
    by (rule cross [OF sint.codec_axioms sint.codec_axioms r4 r4 _ procs(2)]) (simp_all add: rpc_bind_def handle_small [OF assms(5)])
  moreover have "crosses s c c0 24 (call_args1 put_int n) get_int 0 (n + 2) ()"
    by (rule cross [OF sint.codec_axioms sint.codec_axioms r4 r4 _ procs(3)]) (simp_all add: rpc_bind_def handle_small [OF assms(5)])
  moreover have "crosses s c c0 25 (call_args1 put_int len) get_string 0 (replicate (unat len) 120) ()"
  proof (rule cross [OF sint.codec_axioms str.codec_axioms r4 _ _ procs(4)])
    show "RPC_HEADER_SZ + length (enc_string (replicate (unat len) 120)) < MSG_MAX" using assms(4) by (simp add: sz)
    have "\<not> sint len < 0" using assms(4) sint_u32_small [of len] by simp
    then show "rbind (handle_bigrep len) (\<lambda>(i, r). Inr (i, r, ())) = Inr (0, replicate (unat len) 120, ())"
      by (simp add: handle_bigrep_def)
  qed (simp_all add: rpc_bind_def)
  ultimately show ?thesis by blast
qed

definition test_up :: "unit rpcs" where
  "test_up = (case startserver 77 0 of Inr s \<Rightarrow> s\<lparr>s_store := [3 \<mapsto> (connection_new 0 0)\<lparr>c_refno := 2\<rparr>]\<rparr>)"

lemma startserver_registers:
  "\<exists>s. startserver nonce count = Inr s \<and> test_procs \<subseteq>\<^sub>m s_procs s \<and> s_nonce s = nonce \<and> s_window s = Map.empty \<and> s_conns s = Map.empty"
  by (simp add: startserver_def rpcs_new_def reg1_def rpc_bind_def test_procs_def map_le_def)

lemma test_up_ok: "connected test_up 3 bound_client" "test_procs \<subseteq>\<^sub>m s_procs test_up"
  using startserver_registers [of 77 0] by (auto simp: test_up_def intro: connected_start)

lemma test_up_reachable: "s_reachable test_up"
  by (simp add: test_up_def startserver_def rpcs_new_def reg1_def rpc_bind_def test_procs_def)

theorem test_calls_succeed_witness:
  "crosses test_up 3 bound_client 22 (call_args2 put_string put_string [104, 101, 108, 108, 111] [32, 103, 111, 111, 100, 98, 121, 101])
     get_string 0 [104, 101, 108, 108, 111, 32, 103, 111, 111, 100, 98, 121, 101] () \<and>
   crosses test_up 3 bound_client 23 (call_args1 put_int 77) get_int 0 78 () \<and>
   crosses test_up 3 bound_client 25 (call_args1 put_int 70000) get_string 0 (replicate 70000 120) ()"
  using test_calls_succeed [OF test_up_ok, of "[104, 101, 108, 108, 111]" "[32, 103, 111, 111, 100, 98, 121, 101]" 70000 77]
  by simp

lemma wrong_arguments_abort:
  assumes "paired s c c0" "s_procs s p = Some (handler1 geta putr meth)" "p \<noteq> rpc_bind"
    and "call_begin c0 p req unmarshall_new = Inr (Inr (h, m), c1)"
    and "unpack_req_header (unmarshall_of b) = Inr (h, u)" "u_ok u" "geta u = Inr (y, u')" "\<not> okdone u'"
  shows "dispatch s c b = Inl Abort"
proof -
  from assms(1) obtain E k where sv: "srv_ok s E" "0 < E c" "s_store s c = Some k" "\<not> c_dead k" unfolding paired_def by blast
  have cl: "cl_inv c0" "\<not> cl_destroy_wait c0" "\<not> cl_destroy_wait c0" "cl_clt_nonce c0 \<noteq> 0"
    "cl_srv_nonce c0 = 0 \<or> cl_srv_nonce c0 = s_nonce s"
    "wok (window_of (s_window s) (cl_clt_nonce c0))" "\<forall>z \<in> known (s_window s) (cl_clt_nonce c0). z < cl_xid c0"
    using assms(1) by (simp_all add: paired_def)
  obtain f w where f: "cl_window c0 = f # w" "f < cl_xid c0" using cl_inv_window [OF cl(1)] by blast
  have h: "h = \<lparr>xid = cl_xid c0, proc = p, clt_nonce = cl_clt_nonce c0, srv_nonce = cl_srv_nonce c0, xid_rep = f\<rparr>"
    using assms(3,4) cl f by (auto simp: call_begin_def rbind_eq_Inr Let_def split: if_splits)
  from save_conn_ok [OF sv(1,2), of "clt_nonce h"] obtain hp mp where
    s1: "save_conn s (clt_nonce h) c = Inr (s\<lparr>s_store := hp, s_conns := mp\<rparr>)" by blast
  have "xid h \<notin> known (s_window s) (clt_nonce h)"
    "known (s_window s) (clt_nonce h) = {} \<or> (\<exists>z \<in> known (s_window s) (clt_nonce h). z \<le> xid h)"
    using cl(7) by (auto simp: h less_imp_le)
  from check_new_iff [OF _ _ this, of "xid_rep h"] cl(6) f(2) s1 cl(4)
  obtain s2 where s2: "dispatch_check s c h = Inr (NEW, None, s2)" "s_procs s2 = s_procs s"
    by (auto simp: dispatch_check_def remember_new_def h)
  have "\<And>app. handler1 geta putr meth app u marshall_new = Inr (unmarshal_args_failure, marshall_new, app)"
    using assms(7,8) by (simp add: handler1_def)
  then have "dispatch_switch s2 c h (handler1 geta putr meth) u NEW None = Inl Abort"
    by (simp add: dispatch_switch_def dispatch_new_def run_handler_def Let_def)
  with assms(2,5,6) s2 cl(5) show ?thesis by (auto simp: dispatch_def h)
qed

text \<open>A call with the wrong arguments ends the server: when a request is new and its arguments do not
  match the registered method, too many or too few, \<^verbatim>\<open>dispatch\<close> fails the check behind its error message,
  which ends the process. Two calls of \<^verbatim>\<open>simple_tests\<close> are of this kind and expect a negative status.\<close>

theorem wrong_arguments_abort_server:
  assumes "paired s c c0" "s_procs s p = Some (handler1 geta putr meth)" "p \<noteq> rpc_bind"
    and "call_begin c0 p req unmarshall_new = Inr (Inr (h, m), c1)"
    and "unpack_req_header (unmarshall_of b) = Inr (h, u)" "u_ok u" "geta u = Inr (y, u')" "\<not> okdone u'"
  shows "dispatch s c b = Inl Abort"
  using assms by (rule wrong_arguments_abort)

lemma request_bytes:
  assumes "codec enc put get" "RPC_HEADER_SZ + length (enc x) < MSG_MAX"
  shows "\<exists>req m. put marshall_new x = Inr req \<and> pack_req_header req h = Inr m \<and>
    delivered m (replicate 4 0 @ enc_req_header h @ enc x)"
proof -
  obtain req where r: "put marshall_new x = Inr req" "appended marshall_new (enc x) req"
    using codec.put_appends [OF assms(1), of marshall_new x] assms(2) by (auto simp: marshall_new_def sizes mwf_def)
  then have w: "mwf req" "cells req = replicate 24 None @ map Some (enc x)" by (simp_all add: appended_def)
  from pack_req_header_writes [OF w(1), of h] w(2) obtain m where
    m: "pack_req_header req h = Inr m" "mwf m" "cells m = replicate 4 None @ map Some (enc_req_header h) @ map Some (enc x)"
    by auto
  from delivered_default [OF m(2)] m(3) have "delivered m (replicate 4 0 @ enc_req_header h @ enc x)" by (simp add: comp_def)
  with r(1) m(1) show ?thesis by blast
qed

theorem wrong_arguments_abort_server_witness:
  "\<exists>req h m c1 b. call_args2 put_int put_int 1001 1002 = Inr req \<and>
     call_begin bound_client 23 req unmarshall_new = Inr (Inr (h, m), c1) \<and> delivered m b \<and> dispatch test_up 3 b = Inl Abort"
proof -
  define h where "h = \<lparr>xid = 2, proc = 23, clt_nonce = 9, srv_nonce = 77, xid_rep = 1\<rparr>"
  let ?e = "enc_pair enc_u32 enc_u32 (1001, 1002)"
  let ?b = "replicate 4 0 @ enc_req_header h @ ?e"
  have "RPC_HEADER_SZ + length ?e < MSG_MAX" by (simp add: enc_pair_def sizes MSG_MAX_def)
  from request_bytes [OF codec_pair [OF sint.codec_axioms sint.codec_axioms] this, of h] obtain req m where
    r: "put_pair put_int put_int marshall_new (1001, 1002) = Inr req" "pack_req_header req h = Inr m" "delivered m ?b" by blast
  have n: "length ?b = 32" "length ?b \<le> INT_MAX" by (simp_all add: enc_pair_def INT_MAX_def)
  obtain c1 where c1: "call_begin bound_client 23 req unmarshall_new = Inr (Inr (h, m), c1)"
    using r(2) by (simp add: call_begin_def bound_client_def rpcc_new_def rpc_bind_def h_def Let_def)
  have u: "unpack_req_header (unmarshall_of ?b) = Inr (h, (unmarshall_of ?b)\<lparr>u_ind := 24\<rparr>)"
    using n by (intro unpack_req_header_reads) simp_all
  have g: "get_int ((unmarshall_of ?b)\<lparr>u_ind := 24\<rparr>) = Inr (1001, adv 4 ((unmarshall_of ?b)\<lparr>u_ind := 24\<rparr>))"
    using sint.get_reads [OF ready_at [OF n(2), of 24], of 1001 "enc_u32 1002"] n(1) by (simp add: unread_at enc_pair_def)
  have "s_procs test_up 23 = Some (handler1 get_int put_int (\<lambda>_ a. rbind (handle_fast a) (\<lambda>(i, r). Inr (i, r, ()))))"
    using test_up_ok(2) by (simp add: map_le_def test_procs_def)
  from wrong_arguments_abort_server [OF connected_paired [OF test_up_ok(1)] this _ c1 u _ g] n(1) have "dispatch test_up 3 ?b = Inl Abort"
    by (simp add: rpc_bind_def okdone_at_end)
  with r c1 show ?thesis by (auto simp: call_args2_pair)
qed


section \<open>The test programs pass\<close>

text \<open>A bound client that can make \<open>n\<close> more calls to the test server.\<close>

definition tested :: "unit rpcs \<Rightarrow> cid \<Rightarrow> rpcc \<Rightarrow> nat \<Rightarrow> bool" where
  "tested s c c0 n \<longleftrightarrow> linked s c c0 \<and> cl_bind_done c0 \<and> test_procs \<subseteq>\<^sub>m s_procs s \<and> unat (cl_xid c0) + n < 2 ^ 32"

lemma tested_call:
  assumes "codec enca puta geta" "codec encr putr getr"
    and "RPC_HEADER_SZ + length (enca a) < MSG_MAX" "RPC_HEADER_SZ + length (encr r) < MSG_MAX"
    and "tested s c c0 (Suc n)" "test_procs p = Some (handler1 geta putr meth)" "meth () a = Inr (0, r, ())"
  shows "\<exists>s' c'. rpc_call junk heard s c c0 p (call_args1 puta a) getr =
      Inr (if heard then (0, Some r) else (timeout_failure, None), s', c') \<and> tested s' c c' n"
proof -
  have t: "linked s c c0" "cl_bind_done c0" "test_procs \<subseteq>\<^sub>m s_procs s" "unat (cl_xid c0) + Suc n < 2 ^ 32"
    using assms(5) by (simp_all add: tested_def)
  have u: "unat (cl_xid c0 + 1) = unat (cl_xid c0) + 1" using t(4) by (simp add: unat_word_ariths)
  then have "cl_xid c0 + 1 \<noteq> 0" by auto
  moreover have "p \<noteq> rpc_bind" using assms(6) by (auto simp: test_procs_def rpc_bind_def split: if_splits)
  then have "cl_bind_done c0 \<longleftrightarrow> p \<noteq> rpc_bind" using t(2) by simp
  moreover have "s_procs s p = Some (handler1 geta putr meth)" using t(3) assms(6) by (metis domI map_le_def)
  moreover have "meth (s_app s) a = Inr (0, r, ())" using assms(7) by simp
  ultimately obtain s' c' where c: "rpc_call junk heard s c c0 p (call_args1 puta a) getr =
      Inr (if heard then (0, Some r) else (timeout_failure, None), s', c')" "linked s' c c'" "kept s c0 s' c'"
    using rpc_call_serves [OF assms(1-4) t(1)] by force
  then have "tested s' c c' n" using t u by (simp add: tested_def kept_def)
  with c(1) show ?thesis by blast
qed

lemmas tested_int = tested_call [OF sint.codec_axioms sint.codec_axioms small_args small_args]

lemma call_22:
  assumes "tested s c c0 (Suc n)" "length a + length b < 2 ^ 29"
  shows "\<exists>s' c'. rpc_call junk True s c c0 22 (call_args2 put_string put_string a b) get_string = Inr ((0, Some (a @ b)), s', c') \<and>
    tested s' c c' n"
proof -
  note sz = sizes MSG_MAX_def enc_string_def enc_pair_def
  have p: "test_procs 22 = Some (handler1 (get_pair get_string get_string) put_string
       (\<lambda>_ (a, b). case handle_22 a b of (i, r) \<Rightarrow> Inr (i, r, ())))" by (simp add: test_procs_def handler2_def)
  have "RPC_HEADER_SZ + length (enc_pair enc_string enc_string (a, b)) < MSG_MAX"
    "RPC_HEADER_SZ + length (enc_string (a @ b)) < MSG_MAX" using assms(2) by (simp_all add: sz)
  from tested_call [OF codec_pair [OF str.codec_axioms str.codec_axioms] str.codec_axioms this assms(1) p, of junk True] show ?thesis
    by (simp add: handle_22_def call_args2_pair call_args1_def)
qed

lemma call_25:
  assumes "tested s c c0 (Suc n)" "unat len < 2 ^ 29"
  shows "\<exists>s' c'. rpc_call junk True s c c0 25 (call_args1 put_int len) get_string = Inr ((0, Some (replicate (unat len) 120)), s', c') \<and>
    tested s' c c' n"
proof -
  have p: "test_procs 25 = Some (handler1 get_int put_string (\<lambda>_ a. rbind (handle_bigrep a) (\<lambda>(i, r). Inr (i, r, ()))))"
    by (simp add: test_procs_def)
  have "\<not> sint len < 0" using assms(2) sint_u32_small [of len] by simp
  then have "rbind (handle_bigrep len) (\<lambda>(i, r). Inr (i, r, ())) = Inr (0, replicate (unat len) 120, ())" by (simp add: handle_bigrep_def)
  moreover have "RPC_HEADER_SZ + length (enc_string (replicate (unat len) 120)) < MSG_MAX"
    using assms(2) by (simp add: sizes MSG_MAX_def enc_string_def)
  ultimately show ?thesis
    using tested_call [OF sint.codec_axioms str.codec_axioms small_args _ assms(1) p, where junk = junk and heard = True] by simp
qed

lemma call_23_24:
  assumes "tested s c c0 (Suc n)" "unat a < 2 ^ 30"
  shows "\<exists>s' c'. rpc_call junk heard s c c0 (if fast then 23 else 24) (call_args1 put_int a) get_int =
      Inr (if heard then (0, Some (a + (if fast then 1 else 2))) else (timeout_failure, None), s', c') \<and> tested s' c c' n"
proof -
  have p: "test_procs (if fast then 23 else 24) = Some (handler1 get_int put_int
      (\<lambda>_ a. rbind (if fast then handle_fast a else handle_slow a) (\<lambda>(i, r). Inr (i, r, ()))))"
    by (simp add: test_procs_def)
  show ?thesis by (rule tested_int [OF assms(1) p]) (simp add: handle_small [OF assms(2)])
qed

lemma rfold_counts:
  assumes "P x (length is)" "\<And>x n i. P x (Suc n) \<Longrightarrow> \<exists>x'. f x i = Inr x' \<and> P x' n"
  shows "\<exists>x'. rfold f x is = Inr x' \<and> P x' 0"
  using assms(1)
proof (induction "is" arbitrary: x)
  case (Cons i "is")
  from assms(2) [of x "length is" i] Cons.prems obtain x1 where "f x i = Inr x1" "P x1 (length is)" by auto
  with Cons.IH show ?case by simp
qed simp

lemma client1_size_passes:
  assumes "tested (fst sc) c (snd sc) (Suc n)"
  shows "\<exists>sc'. client1_size junk c rnd sc i = Inr sc' \<and> tested (fst sc') c (snd sc') n"
proof -
  let ?a = "of_nat (rnd i mod 2000) :: u32"
  have a: "unat ?a = rnd i mod 2000" by (simp add: unat_of_nat)
  then have "unat ?a < 2 ^ 29" by simp
  from call_25 [OF assms this, of junk] a sint_u32_small [of ?a] show ?thesis by (auto simp: client1_size_def Let_def)
qed

lemma client1_value_passes:
  assumes "tested (fst sc) c (snd sc) (Suc n)"
  shows "\<exists>sc'. client1_value junk c rnd sc i = Inr sc' \<and> tested (fst sc') c (snd sc') n"
proof -
  let ?a = "of_nat (rnd (101 + 2 * i) mod 1000) :: u32"
  have a: "unat ?a = rnd (101 + 2 * i) mod 1000" by (simp add: unat_of_nat)
  then have a: "unat ?a < 2 ^ 30" by simp
  from call_23_24 [OF assms a, of junk True "rnd (100 + 2 * i) mod 2 = 1"] a show ?thesis
    by (auto simp: client1_value_def Let_def add_int_small)
qed

lemma client3_passes:
  assumes "tested (fst sc) c (snd sc) (Suc n)" "unat i < 2 ^ 30"
  shows "\<exists>sc'. client3 junk c heard i sc = Inr sc' \<and> tested (fst sc') c (snd sc') n"
  using call_23_24 [OF assms, of junk heard False] assms(2) by (auto simp: client3_def add_int_small)

text \<open>The client threads pass: with a bound client of the test server that has transaction numbers left, every
  check of \<^verbatim>\<open>client1\<close> holds whatever \<^verbatim>\<open>random\<close> returns, and so do the checks of the ten threads of \<^verbatim>\<open>client3\<close> in every
  order of their calls, whichever of the calls miss their deadline.\<close>

lemma client1_passes:
  assumes "tested s c c0 200"
  shows "\<exists>sc'. client1 junk c rnd (s, c0) = Inr sc' \<and> tested (fst sc') c (snd sc') 0"
proof -
  have "\<exists>sc'. rfold (client1_size junk c rnd) (s, c0) [0..<100] = Inr sc' \<and> tested (fst sc') c (snd sc') (100 + 0)"
    by (rule rfold_counts [where P = "\<lambda>sc n. tested (fst sc) c (snd sc) (100 + n)"])
      (use assms client1_size_passes in auto)
  then obtain sc1 where 1: "rfold (client1_size junk c rnd) (s, c0) [0..<100] = Inr sc1" "tested (fst sc1) c (snd sc1) 100" by auto
  have "\<exists>sc'. rfold (client1_value junk c rnd) sc1 [0..<100] = Inr sc' \<and> tested (fst sc') c (snd sc') 0"
    by (rule rfold_counts [where P = "\<lambda>sc n. tested (fst sc) c (snd sc) n"]) (use 1(2) client1_value_passes in auto)
  with 1(1) show ?thesis by (simp add: client1_def)
qed

lemma client3_threads_pass:
  "tested (fst sc) c (snd sc) (length sched) \<Longrightarrow> \<exists>sc'. client3_threads junk c sched rounds sc = Inr sc'"
proof (induction sched arbitrary: rounds sc)
  case (Cons th sched)
  obtain t heard where th: "th = (t, heard)" by fastforce
  show ?case
  proof (cases "t < 10 \<and> rounds t < 4")
    case True
    then have "unat (of_nat (rounds t) :: u32) < 2 ^ 30" by (simp add: unat_of_nat)
    from client3_passes [OF Cons.prems [simplified] this, of junk heard] obtain sc1 where
      "client3 junk c heard (of_nat (rounds t)) sc = Inr sc1" "tested (fst sc1) c (snd sc1) (length sched)" by blast
    with True Cons.IH [of sc1] show ?thesis by (simp add: th)
  next
    case False
    have "tested (fst sc) c (snd sc) (length sched)" using Cons.prems by (simp add: tested_def)
    with False Cons.IH show ?thesis by (auto simp: th)
  qed
qed simp

lemma bytes_of_append: "bytes_of (a @ b) = bytes_of a @ bytes_of b"
  by (simp add: bytes_of_def)

lemma hello_goodbye: "bytes_of ''hello goodbye'' = bytes_of ''hello'' @ bytes_of '' goodbye''"
  by (simp add: bytes_of_append [symmetric])

lemma length_bytes_of [simp]: "length (bytes_of s) = length s"
  by (simp add: bytes_of_def)

text \<open>A new client of a new instance of the test server.\<close>

lemma test_server:
  "\<exists>s. startserver nonce count = Inr s \<and> test_procs \<subseteq>\<^sub>m s_procs s \<and> s_nonce s = nonce \<and> srv_ok s (\<lambda>_. 0) \<and> s_store s = Map.empty \<and>
    s_window s = Map.empty \<and> s_reachable s \<and> s_procs s rpc_bind = Some (rpcbind nonce)"
  by (simp add: startserver_def rpcs_new_def reg1_def rpc_bind_def test_procs_def map_le_def srv_ok_def refs_ok_def conn_refs_def)

lemma test_client_binds:
  assumes "srv_ok s E" "s_store s c = None" "s_reachable s" "s_window s clt = None" "clt \<noteq> 0"
    and "s_procs s rpc_bind = Some (rpcbind (s_nonce s))" "test_procs \<subseteq>\<^sub>m s_procs s" "n + 2 < 2 ^ 32"
  shows "\<exists>s' c'. client_bind junk (accepted s c sec usec) c (rpcc_new clt True lossy) = Inr (0, s', c') \<and> tested s' c c' n"
proof -
  have "s_procs (accepted s c sec usec) rpc_bind = Some (rpcbind (s_nonce (accepted s c sec usec)))" using assms(6) by (simp add: accepted_def)
  from client_bind_binds [OF accepted_linked [OF assms(1-5)] _ _ this, of lossy junk] assms(7,8) show ?thesis
    by (auto simp: tested_def rpcc_new_def accepted_def)
qed

lemma old_call_22:
  assumes "cl_inv client" "cl_bind_done client" "\<not> cl_destroy_wait client" "cl_xid client + 1 \<noteq> 0"
    and "cl_srv_nonce client \<noteq> 0" "cl_srv_nonce client \<noteq> s_nonce s" "length a + length b < 2 ^ 29"
    and "srv_ok s E" "0 < E c" "s_store s c = Some k" "\<not> c_dead k" "s_reachable s"
  shows "\<exists>sent c'. rpc_call junk True s c client 22 (call_args2 put_string put_string a b) get_string =
      Inr ((oldsrv_failure, None), s\<lparr>s_store := (s_store s)(c \<mapsto> k\<lparr>c_refno := c_refno k + 1\<rparr>), s_sent := sent\<rparr>, c') \<and>
    srv_ok (s\<lparr>s_store := (s_store s)(c \<mapsto> k\<lparr>c_refno := c_refno k + 1\<rparr>), s_sent := sent\<rparr>) (E(c := Suc (E c)))"
proof -
  have "RPC_HEADER_SZ + length (enc_pair enc_string enc_string (a, b)) < MSG_MAX"
    using assms(7) by (simp add: sizes MSG_MAX_def enc_string_def enc_pair_def)
  moreover have "(22::u32) \<noteq> rpc_bind" by (simp add: rpc_bind_def)
  ultimately show ?thesis
    unfolding call_args2_pair call_args1_def [symmetric]
    using call_old_server [OF codec_pair [OF str.codec_axioms str.codec_axioms], of "(a, b)"] assms by blast
qed

text \<open>\<^verbatim>\<open>failure_test\<close> passes: when binding without a server fails, the calls of a client of the deleted server are refused by
  the new one, a new client binds once and not twice and can make calls, also from ten threads, and another
  server and client can be started after them. The new server has another number than the old one.\<close>

theorem failure_test_passes:
  assumes "sint dead < 0" "cl_inv client" "cl_bind_done client" "\<not> cl_destroy_wait client" "cl_xid client + 1 \<noteq> 0"
    and "cl_srv_nonce client \<noteq> 0" "cl_srv_nonce client \<noteq> n1" "c \<noteq> d" "clt1 \<noteq> 0" "clt2 \<noteq> 0"
    and "length sched1 + 3 < 2 ^ 32" "length sched2 + 3 < 2 ^ 32"
  shows "\<exists>sc. failure_test junk dead client count c d n1 clt1 sched1 n2 clt2 sched2 = Inr sc"
proof -
  from test_server [of n1 count] obtain s1 where s1: "startserver n1 count = Inr s1" "test_procs \<subseteq>\<^sub>m s_procs s1" "s_nonce s1 = n1"
    "srv_ok s1 (\<lambda>_. 0)" "s_store s1 = Map.empty" "s_window s1 = Map.empty" "s_reachable s1" "s_procs s1 rpc_bind = Some (rpcbind n1)" by blast
  define s2 where "s2 = accepted s1 c 0 0"
  have s2: "srv_ok s2 ((\<lambda>_. 0)(c := 1))" "s_store s2 = [c \<mapsto> connection_new 0 0]" "s_reachable s2" "s_nonce s2 = n1"
    "s_procs s2 = s_procs s1" "s_window s2 = Map.empty"
    using s1 by (auto simp: s2_def accepted_def srv_ok_def refs_ok_def conn_refs_def connection_new_def charbuf_new_def)
  have k: "\<not> c_dead (connection_new 0 0)" by (simp add: connection_new_def)
  have "length (bytes_of ''hello'') + length (bytes_of '' goodbye'') < 2 ^ 29" "cl_srv_nonce client \<noteq> s_nonce s2"
    "0 < ((\<lambda>_. 0)(c := 1 :: nat)) c" "s_store s2 c = Some (connection_new 0 0)" using s2 assms(7) by simp_all
  from old_call_22 [OF assms(2-6) this(2,1) s2(1) this(3,4) k s2(3), of junk]
  obtain sent c1 E' where old: "rpc_call junk True s2 c client 22
        (call_args2 put_string put_string (bytes_of ''hello'') (bytes_of '' goodbye'')) get_string =
      Inr ((oldsrv_failure, None), s2\<lparr>s_store := (s_store s2)(c \<mapsto> (connection_new 0 0)\<lparr>c_refno := c_refno (connection_new 0 0) + 1\<rparr>),
        s_sent := sent\<rparr>, c1)"
    "srv_ok (s2\<lparr>s_store := (s_store s2)(c \<mapsto> (connection_new 0 0)\<lparr>c_refno := c_refno (connection_new 0 0) + 1\<rparr>), s_sent := sent\<rparr>) E'"
    by blast
  define s3 where "s3 = s2\<lparr>s_store := (s_store s2)(c \<mapsto> (connection_new 0 0)\<lparr>c_refno := c_refno (connection_new 0 0) + 1\<rparr>), s_sent := sent\<rparr>"
  have s3: "s_store s3 d = None" "s_reachable s3" "s_window s3 clt1 = None" "s_procs s3 rpc_bind = Some (rpcbind (s_nonce s3))"
    "test_procs \<subseteq>\<^sub>m s_procs s3" using s2 s1 assms(8) by (simp_all add: s3_def)
  from test_client_binds [OF old(2) [folded s3_def] s3(1,2,3) assms(9) s3(4,5), of "Suc (length sched1)" junk 0 0 0] assms(11)
  obtain s4 c4 where c4: "client_bind junk (accepted s3 d 0 0) d (rpcc_new clt1 True 0) = Inr (0, s4, c4)"
    "tested s4 d c4 (Suc (length sched1))" by auto
  from call_22 [OF c4(2), of "bytes_of ''hello''" "bytes_of '' goodbye''" junk] obtain s5 c5 where
    c5: "rpc_call junk True s4 d c4 22 (call_args2 put_string put_string (bytes_of ''hello'') (bytes_of '' goodbye'')) get_string =
        Inr ((0, Some (bytes_of ''hello'' @ bytes_of '' goodbye'')), s5, c5)" "tested s5 d c5 (length sched1)" by auto
  from client3_threads_pass [of "(s5, c5)" d sched1 junk "\<lambda>_. 0"] c5(2) obtain sc6 where
    c6: "client3_threads junk d sched1 (\<lambda>_. 0) (s5, c5) = Inr sc6" by auto
  from test_server [of n2 count] obtain s7 where s7: "startserver n2 count = Inr s7" "test_procs \<subseteq>\<^sub>m s_procs s7" "s_nonce s7 = n2"
    "srv_ok s7 (\<lambda>_. 0)" "s_store s7 = Map.empty" "s_window s7 = Map.empty" "s_reachable s7" "s_procs s7 rpc_bind = Some (rpcbind n2)" by blast
  from test_client_binds [OF s7(4) _ s7(7) _ assms(10), of d "length sched2" junk 0 0 0] s7 assms(12) obtain s8 c8 where
    c8: "client_bind junk (accepted s7 d 0 0) d (rpcc_new clt2 True 0) = Inr (0, s8, c8)" "tested s8 d c8 (length sched2)" by auto
  from client3_threads_pass [of "(s8, c8)" d sched2 junk "\<lambda>_. 0"] c8(2) obtain sc9 where
    c9: "client3_threads junk d sched2 (\<lambda>_. 0) (s8, c8) = Inr sc9" by auto
  have b: "cl_bind_done c4" using c4(2) by (simp add: tested_def)
  show ?thesis
    using assms(1) s1(1) old(1) c4(1) client_bind_again [OF b, of junk s4 d] c5(1) c6 s7(1) c8(1) c9
    by (simp add: failure_test_def s2_def [symmetric] s3_def [symmetric] hello_goodbye oldsrv_failure_def bind_failure_def)
qed

theorem failure_test_passes_witness:
  "\<exists>sc. failure_test 0 (-1) bound_client 0 3 4 78 10 [(0, True), (1, False), (0, True)] 79 11 [] = Inr sc"
  by (rule failure_test_passes) (use bound_client_ok in \<open>auto simp: bound_client_def rpcc_new_def\<close>)

section \<open>A call with too few arguments\<close>

lemma get_string_at_end:
  assumes "okdone u"
  shows "get_string u = Inr ([], u\<lparr>u_ok := False\<rparr>)"
  using assms by (simp add: okdone_def get_string_into_def get_uint_def u_rawbyte_def)

lemma linked_incref:
  assumes "linked s c c0"
  shows "\<exists>hp. (\<forall>b. got_pdu s True True c b = Inr (True, Some (c, b), s\<lparr>s_store := hp\<rparr>)) \<and> linked (s\<lparr>s_store := hp\<rparr>) c c0"
proof -
  from assms obtain E k where e: "srv_ok s E" "0 < E c" "s_store s c = Some k" "\<not> c_dead k" "s_reachable s" by (auto simp: linked_def paired_def)
  let ?k = "k\<lparr>c_refno := c_refno k + 1\<rparr>"
  have "\<exists>E k. srv_ok (s\<lparr>s_store := (s_store s)(c \<mapsto> ?k)\<rparr>) E \<and> 0 < E c \<and>
      s_store (s\<lparr>s_store := (s_store s)(c \<mapsto> ?k)\<rparr>) c = Some k \<and> \<not> c_dead k"
    using got_pdu_ready(2) [OF e(1-3,5)] e(4) by (intro exI [of _ "E(c := Suc (E c))"] exI [of _ ?k]) simp
  then have "linked (s\<lparr>s_store := (s_store s)(c \<mapsto> ?k)\<rparr>) c c0" using assms by (simp add: linked_def paired_def)
  with got_pdu_ready(1) [OF e(1-3,5)] show ?thesis by blast
qed

lemma call_22_one:
  assumes "tested s c c0 (Suc n)" "length a < 2 ^ 29"
  shows "rpc_call junk True s c c0 22 (call_args1 put_string a) getr = Inl Abort"
proof -
  have t: "linked s c c0" "cl_bind_done c0" "test_procs \<subseteq>\<^sub>m s_procs s" using assms(1) by (simp_all add: tested_def)
  then have cl: "cl_inv c0" "\<not> cl_destroy_wait c0" by (simp_all add: linked_def paired_def)
  obtain f w where f: "cl_window c0 = f # w" using cl_inv_window [OF cl(1)] by blast
  define h where "h = \<lparr>xid = cl_xid c0, proc = 22, clt_nonce = cl_clt_nonce c0, srv_nonce = cl_srv_nonce c0, xid_rep = f\<rparr>"
  have "RPC_HEADER_SZ + length (enc_string a) < MSG_MAX" using assms(2) by (simp add: sizes MSG_MAX_def enc_string_def)
  from request_crosses [OF str.codec_axioms this, of h] obtain req m where
    req: "put_string marshall_new a = Inr req" "pack_req_header req h = Inr m" "mwf m"
    "\<And>b. delivered m b \<Longrightarrow> \<exists>u u'. unpack_req_header (unmarshall_of b) = Inr (h, u) \<and> u_ok u \<and> get_string u = Inr (a, u') \<and> okdone u'" by blast
  obtain c1 where beg: "call_begin c0 22 req unmarshall_new = Inr (Inr (h, m), c1)"
    using t(2) cl(2) f req(2) by (simp add: call_begin_def h_def rpc_bind_def Let_def)
  from linked_incref [OF t(1)] obtain hp where hp: "\<forall>b. got_pdu s True True c b = Inr (True, Some (c, b), s\<lparr>s_store := hp\<rparr>)"
    "linked (s\<lparr>s_store := hp\<rparr>) c c0" by blast
  from req(4) [OF wire_delivered [OF req(3), of junk]] obtain u u' where
    u: "unpack_req_header (unmarshall_of (wire junk (cells m))) = Inr (h, u)" "u_ok u" "get_string u = Inr (a, u')" "okdone u'" by blast
  have g: "get_pair get_string get_string u = Inr ((a, []), u'\<lparr>u_ok := False\<rparr>)"
    using u(3) get_string_at_end [OF u(4)] by (simp add: get_pair_def)
  have p: "s_procs (s\<lparr>s_store := hp\<rparr>) 22 = Some (handler1 (get_pair get_string get_string) put_string
       (\<lambda>_ (a, b). case handle_22 a b of (i, r) \<Rightarrow> Inr (i, r, ())))"
    using t(3) by (simp add: map_le_def test_procs_def handler2_def)
  have "dispatch (s\<lparr>s_store := hp\<rparr>) c (wire junk (cells m)) = Inl Abort"
    by (rule wrong_arguments_abort [OF conjunct1 [OF hp(2) [unfolded linked_def]] p _ beg u(1,2) g]) (simp_all add: rpc_bind_def okdone_def)
  with req(1) beg hp(1) show ?thesis by (simp add: rpc_call_def call_args1_def)
qed

text \<open>\<^verbatim>\<open>simple_tests\<close> does not get past its third call: after the first two calls, which return what they should, the call
  with too few arguments fails the check in the server, which is in the same process unless the test runs as two.\<close>

theorem simple_tests_abort:
  assumes "tested s c c0 3"
  shows "simple_tests junk c dead s c0 = Inl Abort"
proof -
  have "tested s c c0 (Suc (Suc (Suc 0)))" using assms by (simp add: tested_def)
  from call_22 [OF this, of "bytes_of ''hello''" "bytes_of '' goodbye''" junk] obtain s1 c1 where
    1: "rpc_call junk True s c c0 22 (call_args2 put_string put_string (bytes_of ''hello'') (bytes_of '' goodbye'')) get_string =
      Inr ((0, Some (bytes_of ''hello'' @ bytes_of '' goodbye'')), s1, c1)" "tested s1 c c1 (Suc (Suc 0))" by auto
  from call_25 [OF 1(2), of 70000 junk] obtain s2 c2 r where
    2: "rpc_call junk True s1 c c1 25 (call_args1 put_int 70000) get_string = Inr ((0, Some r), s2, c2)" "length r = 70000"
      "tested s2 c c2 (Suc 0)" by force
  from call_22_one [of s2 c c2 0 "bytes_of ''just one''" junk get_string] 2(3) have
    "rpc_call junk True s2 c c2 22 (call_args1 put_string (bytes_of ''just one'')) get_string = Inl Abort" by simp
  with 1(1) 2(1,2) show ?thesis by (simp add: simple_tests_def hello_goodbye)
qed

lemma tested_up: "tested test_up 3 bound_client 1000"
  using connected_linked [OF test_up_ok(1) test_up_reachable] test_up_ok(2) by (simp add: tested_def bound_client_def)

theorem simple_tests_abort_witness: "simple_tests 0 3 (-3, 3) test_up bound_client = Inl Abort"
proof -
  have "tested test_up 3 bound_client 3" using tested_up by (simp add: tested_def)
  then show ?thesis by (rule simple_tests_abort)
qed
end
