(* ===== verification/Rpc_System.thy ===== *)
theory Rpc_System
  imports Rpc_Calls
begin

text \<open>
  RPC clients and a server over a network that loses, duplicates, delays and reorders messages: the
  operations of \<^verbatim>\<open>rpcc\<close> (\<open>cl_step\<close>) and the two accesses of \<^verbatim>\<open>rpcs::dispatch\<close> to the reply window
  (\<open>checkduplicate_and_update\<close> and \<open>add_reply\<close>) are the steps of a transition system, one channel for each
  client. A message that was sent stays in the channel for ever, so it can be delivered any number of
  times or never; this covers the retransmissions of \<^verbatim>\<open>call1\<close> and the old request it sends again on a
  lossy connection. The theorem at the end joins what the window of the server and the window of the
  client show apart: with the client's numbering the check of the server never fails, a call in progress
  is never taken for a forgotten one, and a call that is answered got the reply of its only execution.
\<close>

section \<open>State\<close>

text \<open>The client, the headers of the requests it has sent, the replies the server has sent to it, the
  requests whose handler was started (in order) and the replies of those that have finished; \<open>ch_status\<close>
  is the status the last call returned.\<close>

record chan =
  ch_cl :: rpcc
  ch_reqs :: "req_header set"
  ch_net :: "(cell list \<times> nat) set"
  ch_run :: "u32 list"
  ch_out :: "u32 \<rightharpoonup> cell list \<times> nat"
  ch_status :: "u32 option"

record nsys =
  n_win :: reply_windows
  n_ch :: "u32 \<Rightarrow> chan"

definition ninit :: "int \<Rightarrow> nsys" where
  "ninit lossy =
     \<lparr>n_win = Map.empty,
      n_ch = (\<lambda>N. \<lparr>ch_cl = rpcc_new N True lossy, ch_reqs = {}, ch_net = {}, ch_run = [], ch_out = Map.empty,
                   ch_status = None\<rparr>)\<rparr>"

section \<open>Steps\<close>

text \<open>What a thread of the client may do. Calls are made with a fresh \<^verbatim>\<open>unmarshall\<close>, as \<^verbatim>\<open>call_m\<close> makes them;
  \<^verbatim>\<open>bind\<close> is called while no other call is going on, and it goes on with the status of its call. A reply
  arrives if the server sent it. A call may end at any time, since its timeout may have passed. The
  request number does not wrap around.\<close>

definition client_may :: "chan \<Rightarrow> cl_op \<Rightarrow> bool" where
  "client_may k op =
     (case op of
        Begin p req rep \<Rightarrow>
          cl_xid (ch_cl k) + 1 \<noteq> 0 \<and> mwf req \<and> rep = unmarshall_new \<and>
          (p = rpc_bind \<longrightarrow> cl_calls (ch_cl k) = Map.empty)
      | Pdu bs \<Rightarrow> \<exists>b n. (b, n) \<in> ch_net k \<and> arrives b n bs
      | End x \<Rightarrow> cl_calls (ch_cl k) x \<noteq> None
      | Cancel \<Rightarrow> True
      | Bound ret r \<Rightarrow> cl_calls (ch_cl k) = Map.empty \<and> ch_status k = Some ret)"

definition client_does :: "chan \<Rightarrow> cl_op \<Rightarrow> chan res" where
  "client_does k op =
     rbind (cl_step (ch_cl k) op) (\<lambda>(hs, c).
     Inr (k\<lparr>ch_cl := c, ch_reqs := ch_reqs k \<union> set hs,
       ch_status := (case op of
           End x \<Rightarrow> (case call_end (ch_cl k) x of Inl _ \<Rightarrow> None | Inr ((ret, _), _) \<Rightarrow> Some ret)
         | _ \<Rightarrow> ch_status k)\<rparr>))"

text \<open>The \<^verbatim>\<open>switch\<close> of \<^verbatim>\<open>dispatch\<close>: a new request is started, a finished one is answered from the window, and
  a forgotten one gets a reply with a failure.\<close>

definition switch_on :: "chan \<Rightarrow> u32 \<Rightarrow> rpcstate_t \<Rightarrow> (cell list option \<times> nat) option \<Rightarrow> chan res" where
  "switch_on k x st out =
     (case st of
        NEW \<Rightarrow> Inr (k\<lparr>ch_run := ch_run k @ [x]\<rparr>)
      | INPROGRESS \<Rightarrow> Inr k
      | DONE \<Rightarrow>
          (case out of
             Some (Some b, sz) \<Rightarrow> Inr (k\<lparr>ch_net := insert (b, sz) (ch_net k)\<rparr>)
           | _ \<Rightarrow> Inl NullDeref)
      | FORGOTTEN \<Rightarrow>
          rbind (pack_reply_header marshall_new \<lparr>rh_xid = x, rh_ret = atmostonce_failure\<rparr>) (\<lambda>m.
          case m_buf m of
            None \<Rightarrow> Inl NullDeref
          | Some b \<Rightarrow> Inr (k\<lparr>ch_net := insert (b, m_ind m) (ch_net k)\<rparr>)))"

definition serve :: "reply_windows \<Rightarrow> chan \<Rightarrow> req_header \<Rightarrow> (reply_windows \<times> chan) res" where
  "serve w k h =
     rbind (checkduplicate_and_update w (clt_nonce h) (xid h) (xid_rep h)) (\<lambda>(st, out, freed, w').
     rbind (switch_on k (xid h) st out) (\<lambda>k'. Inr (w', k')))"

text \<open>The handler of request \<open>x\<close> returned status \<open>ret\<close> and the marshalled result \<open>rep\<close>: the rest of the
  case \<^verbatim>\<open>NEW\<close>.\<close>

definition finish :: "reply_windows \<Rightarrow> chan \<Rightarrow> u32 \<Rightarrow> u32 \<Rightarrow> u32 \<Rightarrow> marshall \<Rightarrow> (reply_windows \<times> chan) res" where
  "finish w k N x ret rep =
     rbind (pack_reply_header rep \<lparr>rh_xid = x, rh_ret = ret\<rparr>) (\<lambda>m.
     case take_buf m of (b, sz, _) \<Rightarrow>
       rbind (add_reply w N x b sz) (\<lambda>w'.
       case b of
         None \<Rightarrow> Inl NullDeref
       | Some cs \<Rightarrow> Inr (w', k\<lparr>ch_out := (ch_out k)(x \<mapsto> (cs, sz)), ch_net := insert (cs, sz) (ch_net k)\<rparr>)))"

inductive nstep :: "nsys \<Rightarrow> nsys \<Rightarrow> bool" where
  client: "N \<noteq> 0 \<Longrightarrow> client_may (n_ch s N) op \<Longrightarrow> client_does (n_ch s N) op = Inr k \<Longrightarrow>
    nstep s (s\<lparr>n_ch := (n_ch s)(N := k)\<rparr>)"
| server: "N \<noteq> 0 \<Longrightarrow> h \<in> ch_reqs (n_ch s N) \<Longrightarrow> serve (n_win s) (n_ch s N) h = Inr (w, k) \<Longrightarrow>
    nstep s \<lparr>n_win = w, n_ch = (n_ch s)(N := k)\<rparr>"
| handler: "N \<noteq> 0 \<Longrightarrow> x \<in> set (ch_run (n_ch s N)) \<Longrightarrow> ch_out (n_ch s N) x = None \<Longrightarrow>
    mwf rep \<Longrightarrow> m_ind rep < MSG_MAX \<Longrightarrow> 0 \<le> sint ret \<Longrightarrow>
    finish (n_win s) (n_ch s N) N x ret rep = Inr (w, k) \<Longrightarrow> nstep s \<lparr>n_win = w, n_ch = (n_ch s)(N := k)\<rparr>"

definition nreachable :: "int \<Rightarrow> nsys \<Rightarrow> bool" where
  "nreachable lossy = nstep\<^sup>*\<^sup>* (ninit lossy)"

section \<open>The invariant\<close>

text \<open>Whatever bytes arrive for this reply, its header is for request \<open>x\<close> with status \<open>ret\<close>.\<close>

definition carries :: "cell list \<times> nat \<Rightarrow> u32 \<Rightarrow> u32 \<Rightarrow> bool" where
  "carries m x ret \<longleftrightarrow>
     (\<forall>bs. arrives (fst m) (snd m) bs \<longrightarrow>
        (\<exists>rep. unpack_reply_header (unmarshall_of bs) = Inr (\<lparr>rh_xid = x, rh_ret = ret\<rparr>, rep) \<and> u_ok rep))"

text \<open>The caller got the reply of the execution of its request.\<close>

definition answered :: "chan \<Rightarrow> u32 \<Rightarrow> caller \<Rightarrow> bool" where
  "answered k x ca \<longleftrightarrow>
     (\<exists>b n bs ret rep. ch_out k x = Some (b, n) \<and> arrives b n bs \<and>
        unpack_reply_header (unmarshall_of bs) = Inr (\<lparr>rh_xid = x, rh_ret = ret\<rparr>, rep) \<and> u_ok rep \<and>
        ca_intret ca = Some ret \<and> ca_un ca = fst (take_in unmarshall_new rep))"

definition client_ok :: "u32 \<Rightarrow> chan \<Rightarrow> bool" where
  "client_ok N k \<longleftrightarrow>
     cl_inv (ch_cl k) \<and> cl_clt_nonce (ch_cl k) = N \<and>
     (\<forall>h \<in> ch_reqs k. clt_nonce h = N \<and> xid_rep h < xid h \<and> xid h < cl_xid (ch_cl k)) \<and>
     (\<forall>x ca. cl_calls (ch_cl k) x = Some ca \<longrightarrow>
        (if ca_done ca then answered k x ca \<or> ca_intret ca = Some cancel_failure else ca_un ca = unmarshall_new))"

definition server_ok :: "window \<Rightarrow> chan \<Rightarrow> bool" where
  "server_ok w k \<longleftrightarrow>
     wok w \<and> distinct (ch_run k) \<and> set (ch_run k) \<subseteq> xid ` ch_reqs k \<and> dom (ch_out k) \<subseteq> set (ch_run k) \<and>
     seen w = (\<lambda>x. if x \<in> set (ch_run k) then Some (ch_out k x) else None)"

definition net_ok :: "chan \<Rightarrow> bool" where
  "net_ok k \<longleftrightarrow>
     (\<forall>x m. ch_out k x = Some m \<longrightarrow> (\<exists>ret. carries m x ret)) \<and>
     (\<forall>m \<in> ch_net k. (\<exists>x. ch_out k x = Some m) \<or>
        (\<exists>x. carries m x atmostonce_failure \<and> x < cl_xid (ch_cl k) \<and> cl_calls (ch_cl k) x = None))"

text \<open>Once the client is bound the server knows a request older than every call in progress; before,
  there is at most one call.\<close>

definition bind_ok :: "chan \<Rightarrow> bool" where
  "bind_ok k \<longleftrightarrow>
     (ch_status k = Some 0 \<longrightarrow> ch_run k \<noteq> []) \<and>
     (if cl_bind_done (ch_cl k)
      then \<exists>y \<in> set (ch_run k). \<forall>x \<in> dom (cl_calls (ch_cl k)). y \<le> x
      else \<forall>x \<in> dom (cl_calls (ch_cl k)). x = cl_xid (ch_cl k) - 1)"

definition kinv :: "u32 \<Rightarrow> window \<Rightarrow> chan \<Rightarrow> bool" where
  "kinv N w k \<longleftrightarrow> client_ok N k \<and> server_ok w k \<and> net_ok k \<and> bind_ok k"

definition ninv :: "nsys \<Rightarrow> bool" where
  "ninv s \<longleftrightarrow> (\<forall>N. N \<noteq> 0 \<longrightarrow> kinv N (window_of (n_win s) N) (n_ch s N))"

lemmas kinv_defs = kinv_def client_ok_def server_ok_def net_ok_def bind_ok_def

section \<open>Messages\<close>

lemma packed_reply:
  assumes "mwf rep" "m_ind rep < MSG_MAX"
  shows "\<exists>m b. pack_reply_header rep \<lparr>rh_xid = x, rh_ret = ret\<rparr> = Inr m \<and> m_buf m = Some b \<and> carries (b, m_ind m) x ret"
proof -
  let ?h = "\<lparr>rh_xid = x, rh_ret = ret\<rparr>"
  obtain m where m: "pack_reply_header rep ?h = Inr m" "mwf m" "m_ind m = m_ind rep"
    "cells m = take 4 (cells rep) @ map Some (enc_reply_header ?h) @ drop 12 (cells rep)"
    using pack_reply_header_writes [OF assms(1), of ?h] by blast
  obtain b where b: "m_buf m = Some b" "24 \<le> m_ind m" using m(2) by (rule mwf_cases)
  have e: "length (enc_reply_header ?h) = 8" by (simp add: enc_reply_header_def)
  have "\<exists>r. unpack_reply_header (unmarshall_of bs) = Inr (?h, r) \<and> u_ok r" if "arrives b (m_ind m) bs" for bs
  proof -
    have d: "delivered m bs" using that arrives_delivered [OF b(1)] by simp
    then have l: "length bs = m_ind m" by (simp add: delivered_def)
    have "length (take 4 (cells rep)) = 4" using b(2) m(3) assms(1) by (simp add: length_cells)
    then have "take 8 (drop 4 (cells m)) = map Some (enc_reply_header ?h)" using e by (simp add: m(4))
    then have "take 8 (drop 4 bs) = enc_reply_header ?h"
      using delivered_segment [OF d m(2), of 4 "enc_reply_header ?h"] b(2) e by simp
    with l b(2) assms(2) m(3) show ?thesis
      by (subst unpack_reply_header_reads) (auto simp: sizes unmarshall_of_def)
  qed
  with m(1) b(1) show ?thesis unfolding carries_def by auto
qed

section \<open>The server's steps\<close>

lemma chan_frames [simp]:
  "answered (k\<lparr>ch_net := A\<rparr>) = answered k" "answered (k\<lparr>ch_run := xs\<rparr>) = answered k"
  "client_ok N (k\<lparr>ch_net := A\<rparr>) = client_ok N k" "client_ok N (k\<lparr>ch_run := xs\<rparr>) = client_ok N k"
  "server_ok w (k\<lparr>ch_net := A\<rparr>) = server_ok w k" "bind_ok (k\<lparr>ch_net := A\<rparr>) = bind_ok k"
  "net_ok (k\<lparr>ch_run := xs\<rparr>) = net_ok k"
  by (simp_all add: answered_def client_ok_def server_ok_def bind_ok_def net_ok_def fun_eq_iff)

lemma net_ok_sent:
  assumes "net_ok k" "ch_out k x = Some m \<or>
    carries m x atmostonce_failure \<and> x < cl_xid (ch_cl k) \<and> cl_calls (ch_cl k) x = None"
  shows "net_ok (k\<lparr>ch_net := insert m (ch_net k)\<rparr>)"
  using assms by (auto simp: net_ok_def)

lemma server_xids: "server_ok w k \<Longrightarrow> xids w = set (ch_run k)"
  unfolding server_ok_def dom_seen [symmetric] by (auto simp: dom_def split: if_splits)

lemma wok_hd: "wok w \<Longrightarrow> y \<in> xids w \<Longrightarrow> r_xid (hd w) \<le> y"
  by (cases w) (auto simp: window_simps xids_def intro: less_imp_le)

lemma word_le_pred: "(y :: u32) < z \<Longrightarrow> y \<le> z - 1"
  by (cases "z = 0") (auto simp: word_le_nat_alt word_less_nat_alt unat_minus_one)

text \<open>A call in progress is never below the window.\<close>

lemma live_not_forgotten:
  assumes "kinv N w k" "x \<in> dom (cl_calls (ch_cl k))" "w \<noteq> []"
  shows "r_xid (hd w) \<le> x"
proof (cases "cl_bind_done (ch_cl k)")
  case True
  then obtain y where "y \<in> set (ch_run k)" "y \<le> x" using assms(1,2) unfolding kinv_def bind_ok_def by auto
  moreover have "wok w" "xids w = set (ch_run k)" using assms(1) server_xids unfolding kinv_def server_ok_def by auto
  ultimately show ?thesis using wok_hd by (metis order.trans)
next
  case False
  then have x: "x = cl_xid (ch_cl k) - 1" using assms(1,2) unfolding kinv_def bind_ok_def by auto
  have s: "server_ok w k" "client_ok N k" using assms(1) unfolding kinv_def by auto
  have "r_xid (hd w) \<in> xids w" using assms(3) by (cases w) auto
  moreover have "xids w \<subseteq> xid ` ch_reqs k" using s(1) server_xids [OF s(1)] unfolding server_ok_def by simp
  ultimately have "r_xid (hd w) \<in> xid ` ch_reqs k" by blast
  then have "r_xid (hd w) < cl_xid (ch_cl k)" using s(2) unfolding client_ok_def by auto
  then show ?thesis unfolding x by (rule word_le_pred)
qed

lemma packed_failure:
  "\<exists>m b. pack_reply_header marshall_new \<lparr>rh_xid = x, rh_ret = ret\<rparr> = Inr m \<and> m_buf m = Some b \<and> carries (b, m_ind m) x ret"
  by (rule packed_reply [OF mwf_new]) (simp add: marshall_new_def sizes)

lemma serve_ok:
  assumes "kinv N (window_of win N) k" "h \<in> ch_reqs k"
  shows "\<exists>st out w k'. checkduplicate_and_update win (clt_nonce h) (xid h) (xid_rep h) = Inr (st, out, [], win(N \<mapsto> w)) \<and>
    switch_on k (xid h) st out = Inr k' \<and> kinv N w k' \<and> (st = FORGOTTEN \<longrightarrow> cl_calls (ch_cl k) (xid h) = None)"
proof -
  let ?w = "window_of win N" and ?x = "xid h"
  have i: "client_ok N k" "server_ok ?w k" "net_ok k" "bind_ok k" using assms(1) unfolding kinv_def by auto
  have h: "clt_nonce h = N" "xid_rep h < ?x" "?x < cl_xid (ch_cl k)" using i(1) assms(2) unfolding client_ok_def by auto
  have wk: "wok ?w" using i(2) unfolding server_ok_def by simp
  note c = check_cases [OF wk h(2), unfolded Let_def]
  have sn: "seen ?w ?x = (if ?x \<in> set (ch_run k) then Some (ch_out k ?x) else None)"
    using i(2) unfolding server_ok_def by simp
  consider (old) "?w \<noteq> [] \<and> r_xid (hd ?w) > ?x"
    | (new) "\<not> (?w \<noteq> [] \<and> r_xid (hd ?w) > ?x)" "find_xid ?x ?w = None"
    | (dup) r where "\<not> (?w \<noteq> [] \<and> r_xid (hd ?w) > ?x)" "find_xid ?x ?w = Some r" by (cases "find_xid ?x ?w") auto
  then show ?thesis
  proof cases
    case old
    then have n: "cl_calls (ch_cl k) ?x = None" using live_not_forgotten [OF assms(1), of ?x] by (auto simp: not_le [symmetric])
    obtain m b where m: "pack_reply_header marshall_new \<lparr>rh_xid = ?x, rh_ret = atmostonce_failure\<rparr> = Inr m"
      "m_buf m = Some b" "carries (b, m_ind m) ?x atmostonce_failure" using packed_failure by blast
    let ?k = "k\<lparr>ch_net := insert (b, m_ind m) (ch_net k)\<rparr>"
    have "kinv N ?w ?k" using i n m(3) h(3) net_ok_sent [of k ?x] by (simp add: kinv_def)
    with old n c m h(1) show ?thesis by (auto simp: switch_on_def)
  next
    case new
    let ?k = "k\<lparr>ch_run := ch_run k @ [?x]\<rparr>" and ?v = "insert_reply ((reply_new ?x)\<lparr>cb_present := True\<rparr>) ?w"
    have x: "?x \<notin> xids ?w" using new(2) by (simp add: window_simps)
    then have r: "?x \<notin> set (ch_run k)" using server_xids [OF i(2)] by simp
    then have "ch_out k ?x = None" using i(2) unfolding server_ok_def by auto
    then have "server_ok ?v ?k"
      using i(2) wok_insert_reply [OF wk, of "(reply_new ?x)\<lparr>cb_present := True\<rparr>"] x r assms(2) seen_insert_reply [OF x]
      by (auto simp: server_ok_def reply_new_def fun_eq_iff)
    moreover have "client_ok N ?k" "net_ok ?k" "bind_ok ?k"
      using i by (auto simp: bind_ok_def)
    ultimately show ?thesis using new c h(1) by (auto simp: switch_on_def remember_new_def kinv_def)
  next
    case (dup r)
    show ?thesis
    proof (cases "cb_present r")
      case True
      with dup c h(1) assms(1) show ?thesis by (auto simp: switch_on_def)
    next
      case False
      then obtain b where b: "r_buf r = Some b" using wok_find [OF wk dup(2)] by auto
      then have "ch_out k ?x = Some (b, r_sz r)" using sn dup(2) by (auto simp: seen_def split: if_splits)
      then have "kinv N ?w (k\<lparr>ch_net := insert (b, r_sz r) (ch_net k)\<rparr>)" using i net_ok_sent [of k ?x] by (simp add: kinv_def)
      with dup c h(1) b False show ?thesis by (auto simp: switch_on_def)
    qed
  qed
qed

lemma finish_ok:
  assumes "kinv N (window_of win N) k" "x \<in> set (ch_run k)" "ch_out k x = None" "mwf rep" "m_ind rep < MSG_MAX"
  shows "\<exists>w k'. finish win k N x ret rep = Inr (win(N \<mapsto> w), k') \<and> kinv N w k'"
proof -
  let ?w = "window_of win N"
  have i: "client_ok N k" "server_ok ?w k" "net_ok k" "bind_ok k" using assms(1) unfolding kinv_def by auto
  obtain m b where m: "pack_reply_header rep \<lparr>rh_xid = x, rh_ret = ret\<rparr> = Inr m" "m_buf m = Some b"
    "carries (b, m_ind m) x ret" using packed_reply [OF assms(4,5)] by blast
  let ?k = "k\<lparr>ch_out := (ch_out k)(x \<mapsto> (b, m_ind m)), ch_net := insert (b, m_ind m) (ch_net k)\<rparr>"
  have x: "x \<in> xids ?w" using server_xids [OF i(2)] assms(2) by simp
  have "server_ok (set_reply x (Some b) (m_ind m) ?w) ?k"
    using i(2) wok_set_reply [of ?w x b "m_ind m"] seen_set_reply [OF x, of b "m_ind m"] assms(2)
    by (auto simp: server_ok_def fun_eq_iff)
  moreover have "answered k y ca \<Longrightarrow> answered ?k y ca" for y ca
    using assms(3) unfolding answered_def by (cases "y = x") auto
  then have "client_ok N ?k" using i(1) unfolding client_ok_def by fastforce
  moreover have out: "ch_out ?k y = Some q" if "ch_out k y = Some q" for y q using that assms(3) by auto
  have "net_ok ?k" unfolding net_ok_def
  proof (intro conjI allI impI ballI)
    show "\<exists>r. carries q y r" if "ch_out ?k y = Some q" for y q
    proof (cases "y = x")
      case False
      then have "ch_out k y = Some q" using that by simp
      with i(3) show ?thesis unfolding net_ok_def by blast
    qed (use that m(3) in auto)
    show "(\<exists>y. ch_out ?k y = Some q) \<or> (\<exists>y. carries q y atmostonce_failure \<and> y < cl_xid (ch_cl ?k) \<and> cl_calls (ch_cl ?k) y = None)"
      if "q \<in> ch_net ?k" for q
    proof (cases "q = (b, m_ind m)")
      case True
      then have "ch_out ?k x = Some q" by simp
      then show ?thesis by blast
    next
      case False
      with that i(3) have "(\<exists>y. ch_out k y = Some q) \<or>
        (\<exists>y. carries q y atmostonce_failure \<and> y < cl_xid (ch_cl k) \<and> cl_calls (ch_cl k) y = None)"
        unfolding net_ok_def by simp
      moreover have "ch_cl ?k = ch_cl k" by simp
      ultimately show ?thesis using out by metis
    qed
  qed
  moreover have "bind_ok ?k" using i(4) by (simp add: bind_ok_def)
  ultimately have "kinv N (set_reply x (Some b) (m_ind m) ?w) ?k" by (simp add: kinv_def)
  moreover have "?w \<noteq> []" using x by auto
  ultimately show ?thesis using m by (auto simp: finish_def take_buf_def add_reply_def)
qed

section \<open>The client's steps\<close>

text \<open>What remains to be shown when a step changes only the client.\<close>

lemma kinv_client:
  assumes "kinv N w k" "k' = k\<lparr>ch_cl := c, ch_reqs := ch_reqs k \<union> A, ch_status := st\<rparr>"
    and "cl_inv c" "cl_clt_nonce c = cl_clt_nonce (ch_cl k)" "cl_xid (ch_cl k) \<le> cl_xid c"
    and "\<forall>h \<in> A. clt_nonce h = N \<and> xid_rep h < xid h \<and> xid h < cl_xid c"
    and "\<And>x ca. cl_calls c x = Some ca \<Longrightarrow>
      (if ca_done ca then answered k x ca \<or> ca_intret ca = Some cancel_failure else ca_un ca = unmarshall_new)"
    and "\<And>x. x < cl_xid (ch_cl k) \<Longrightarrow> cl_calls (ch_cl k) x = None \<Longrightarrow> cl_calls c x = None"
    and "bind_ok k'"
  shows "kinv N w k'"
proof -
  have i: "client_ok N k" "server_ok w k" "net_ok k" using assms(1) unfolding kinv_def by auto
  have a: "answered k' = answered k" by (simp add: assms(2) answered_def fun_eq_iff)
  have "client_ok N k'"
    using i(1) assms(3-7) unfolding client_ok_def a by (auto simp: assms(2) intro: less_le_trans)
  moreover have "server_ok w k'" using i(2) by (auto simp: server_ok_def assms(2))
  moreover have "net_ok k'"
    using i(3) assms(5,8) unfolding net_ok_def by (fastforce simp: assms(2) intro: less_le_trans)
  ultimately show ?thesis using assms(9) unfolding kinv_def by blast
qed

lemma client_begin:
  assumes "kinv N w k" "client_may k (Begin p req rep)"
  shows "\<exists>k'. client_does k (Begin p req rep) = Inr k' \<and> kinv N w k'"
proof -
  let ?c = "ch_cl k"
  have g: "cl_xid ?c + 1 \<noteq> 0" "mwf req" "rep = unmarshall_new" "p = rpc_bind \<longrightarrow> cl_calls ?c = Map.empty"
    using assms(2) by (simp_all add: client_may_def)
  have i: "client_ok N k" "bind_ok k" "cl_inv ?c" "cl_clt_nonce ?c = N" using assms(1) unfolding kinv_def client_ok_def by auto
  obtain f v where f: "cl_window ?c = f # v" "f < cl_xid ?c" using cl_inv_window [OF i(3)] by blast
  let ?x = "cl_xid ?c"
  let ?h = "\<lparr>xid = ?x, proc = p, clt_nonce = cl_clt_nonce ?c, srv_nonce = cl_srv_nonce ?c, xid_rep = f\<rparr>"
  let ?c' = "?c\<lparr>cl_xid := ?x + 1, cl_calls := (cl_calls ?c)(?x \<mapsto> caller_new ?x rep)\<rparr>"
  obtain m where m: "pack_req_header req ?h = Inr m" using pack_req_header_writes [OF g(2), of ?h] by blast
  show ?thesis
  proof (cases "(p \<noteq> rpc_bind \<and> \<not> cl_bind_done ?c) \<or> (p = rpc_bind \<and> cl_bind_done ?c) \<or> cl_destroy_wait ?c")
    case True
    then have "client_does k (Begin p req rep) = Inr k" by (auto simp: client_does_def cl_step_def call_begin_def)
    with assms(1) show ?thesis by simp
  next
    case False
    then have s: "cl_step ?c (Begin p req rep) = Inr ([?h], ?c')"
      using f(1) m by (simp add: cl_step_def call_begin_def Let_def)
    then have d: "client_does k (Begin p req rep) = Inr (k\<lparr>ch_cl := ?c', ch_reqs := ch_reqs k \<union> {?h}, ch_status := ch_status k\<rparr>)"
      (is "_ = Inr ?k") by (simp add: client_does_def)
    have lt: "?x < ?x + 1" using g(1) by (rule word_less_Suc)
    have ci: "cl_inv ?c'" using cl_step_inv [OF i(3) s] g(1) by simp
    have "bind_ok ?k"
    proof (cases "cl_bind_done ?c")
      case True
      then obtain y where y: "y \<in> set (ch_run k)" "\<forall>x \<in> dom (cl_calls ?c). y \<le> x" using i(2) unfolding bind_ok_def by auto
      have "set (ch_run k) \<subseteq> xid ` ch_reqs k" using assms(1) unfolding kinv_def server_ok_def by blast
      then have "y < ?x" using y(1) i(1) unfolding client_ok_def by auto
      with y have "\<forall>x \<in> dom (cl_calls ?c'). y \<le> x" by auto
      with True y(1) i(2) show ?thesis unfolding bind_ok_def by auto
    next
      case no: False
      with False g(4) have "cl_calls ?c = Map.empty" by blast
      with no i(2) show ?thesis unfolding bind_ok_def by simp
    qed
    with ci lt f(2) i(1,4) g(3) have "kinv N w ?k"
      by (intro kinv_client [OF assms(1), where A = "{?h}" and c = ?c' and st = "ch_status k"])
        (auto simp: client_ok_def caller_new_def split: if_splits)
    with d show ?thesis by simp
  qed
qed

lemma client_pdu:
  assumes "kinv N w k" "client_may k (Pdu bs)"
  shows "\<exists>k'. client_does k (Pdu bs) = Inr k' \<and> kinv N w k'"
proof -
  let ?c = "ch_cl k"
  have i: "client_ok N k" "net_ok k" "bind_ok k" "cl_inv ?c" using assms(1) unfolding kinv_def client_ok_def by auto
  obtain b n where b: "(b, n) \<in> ch_net k" "arrives b n bs" using assms(2) by (auto simp: client_may_def)
  have "\<exists>x ret. carries (b, n) x ret \<and> x < cl_xid ?c \<and> (ch_out k x = Some (b, n) \<or> cl_calls ?c x = None)"
  proof -
    have lt: "x < cl_xid ?c" if "ch_out k x = Some m" for x m
    proof -
      have "x \<in> xid ` ch_reqs k" using that assms(1) unfolding kinv_def server_ok_def by blast
      then show ?thesis using i(1) unfolding client_ok_def by auto
    qed
    have "(\<exists>x. ch_out k x = Some (b, n)) \<or> (\<exists>x. carries (b, n) x atmostonce_failure \<and> x < cl_xid ?c \<and> cl_calls ?c x = None)"
      using b(1) i(2) unfolding net_ok_def by blast
    then show ?thesis using lt i(2) unfolding net_ok_def by blast
  qed
  then obtain x ret where x: "carries (b, n) x ret" "x < cl_xid ?c" "ch_out k x = Some (b, n) \<or> cl_calls ?c x = None" by blast
  obtain rep where rep: "unpack_reply_header (unmarshall_of bs) = Inr (\<lparr>rh_xid = x, rh_ret = ret\<rparr>, rep)" "u_ok rep"
    using x(1) b(2) unfolding carries_def by auto
  obtain v where v: "update_xid_rep (cl_window ?c) x = Inr v" "cl_inv (?c\<lparr>cl_window := v\<rparr>)"
    using cl_inv_update [OF i(4) x(2)] by blast
  let ?done = "\<lambda>ca. ca\<lparr>ca_un := fst (take_in (ca_un ca) rep), ca_intret := Some ret, ca_done := True\<rparr>"
  define c' where "c' = (case cl_calls ?c x of None \<Rightarrow> ?c\<lparr>cl_window := v\<rparr>
    | Some ca \<Rightarrow> if ca_done ca then ?c\<lparr>cl_window := v\<rparr> else ?c\<lparr>cl_window := v, cl_calls := (cl_calls ?c)(x \<mapsto> ?done ca)\<rparr>)"
  have f: "cl_xid c' = cl_xid ?c" "cl_clt_nonce c' = cl_clt_nonce ?c" "dom (cl_calls c') = dom (cl_calls ?c)"
    "cl_bind_done c' = cl_bind_done ?c" "cl_window c' = v"
    by (auto simp: c'_def split: option.splits)
  have "cl_got_pdu ?c bs = Inr c'"
    using rep v(1) by (auto simp: cl_got_pdu_def c'_def split: option.splits)
  then have d: "client_does k (Pdu bs) = Inr (k\<lparr>ch_cl := c', ch_reqs := ch_reqs k \<union> {}, ch_status := ch_status k\<rparr>)"
    (is "_ = Inr ?k") by (simp add: client_does_def cl_step_def)
  have ci: "cl_inv c'" using v(2) f unfolding cl_inv_def by simp
  have calls: "if ca_done ca then answered k y ca \<or> ca_intret ca = Some cancel_failure else ca_un ca = unmarshall_new"
    if c: "cl_calls c' y = Some ca" for y ca
  proof (cases "cl_calls ?c y = Some ca")
    case True
    with i(1) show ?thesis unfolding client_ok_def by blast
  next
    case False
    with c obtain ca0 where 0: "y = x" "cl_calls ?c x = Some ca0" "\<not> ca_done ca0" "ca = ?done ca0"
      by (auto simp: c'_def split: option.splits if_splits)
    then have "ca_un ca0 = unmarshall_new" "ch_out k x = Some (b, n)" using i(1) x(3) unfolding client_ok_def by auto
    with 0 b(2) rep have "answered k y ca" unfolding answered_def by auto
    with 0 show ?thesis by simp
  qed
  have "bind_ok ?k" using i(3) f(1,3,4) unfolding bind_ok_def by simp
  moreover have "cl_calls c' y = None" if "cl_calls ?c y = None" for y using f(3) that by (metis domIff)
  ultimately have "kinv N w ?k"
    using calls f(1,2) ci by (intro kinv_client [OF assms(1), where A = "{}" and c = c' and st = "ch_status k"]) simp_all
  with d show ?thesis by simp
qed

lemma client_end:
  assumes "kinv N w k" "client_may k (End x)"
  shows "\<exists>k'. client_does k (End x) = Inr k' \<and> kinv N w k'"
proof -
  let ?c = "ch_cl k"
  have i: "client_ok N k" "bind_ok k" "cl_inv ?c" using assms(1) unfolding kinv_def client_ok_def by auto
  obtain ca where ca: "cl_calls ?c x = Some ca" using assms(2) by (auto simp: client_may_def)
  then have "x < cl_xid ?c" using i(3) by (auto simp: cl_inv_def)
  from cl_inv_update [OF i(3) this] obtain v where v: "update_xid_rep (cl_window ?c) x = Inr v" by blast
  define ret where "ret = (if ca_done ca then (case ca_intret ca of None \<Rightarrow> 0 | Some r \<Rightarrow> r) else timeout_failure)"
  let ?c' = "?c\<lparr>cl_calls := (cl_calls ?c)(x := None), cl_window := v\<rparr>"
  have e: "call_end ?c x = Inr ((ret, ca_un ca), ?c')" using ca v by (simp add: call_end_def ret_def)
  then have s: "cl_step ?c (End x) = Inr ([], ?c')" by (simp add: cl_step_def)
  have d: "client_does k (End x) = Inr (k\<lparr>ch_cl := ?c', ch_reqs := ch_reqs k \<union> {}, ch_status := Some ret\<rparr>)"
    (is "_ = Inr ?k") using s e by (simp add: client_does_def)
  have run: "ch_run k \<noteq> []" if "ret = 0"
  proof -
    have "if ca_done ca then answered k x ca \<or> ca_intret ca = Some cancel_failure else ca_un ca = unmarshall_new"
      using ca i(1) unfolding client_ok_def by blast
    with that have "answered k x ca"
      by (auto simp: ret_def timeout_failure_def cancel_failure_def split: if_splits option.splits)
    then have "x \<in> dom (ch_out k)" unfolding answered_def by auto
    moreover have "dom (ch_out k) \<subseteq> set (ch_run k)" using assms(1) unfolding kinv_def server_ok_def by blast
    ultimately show ?thesis by auto
  qed
  have "bind_ok ?k" using i(2) run unfolding bind_ok_def by (auto split: if_splits)
  moreover have "cl_inv ?c'" using cl_step_inv [OF i(3) s] by simp
  ultimately have "kinv N w ?k"
    using i(1) by (intro kinv_client [OF assms(1), where A = "{}" and c = ?c' and st = "Some ret"])
      (auto simp: client_ok_def split: if_splits)
  with d show ?thesis by simp
qed

lemma client_others:
  assumes "kinv N w k" "client_may k op" "op = Cancel \<or> (\<exists>ret r. op = Bound ret r)"
  shows "\<exists>k'. client_does k op = Inr k' \<and> kinv N w k'"
proof -
  let ?c = "ch_cl k"
  have i: "client_ok N k" "bind_ok k" "cl_inv ?c" using assms(1) unfolding kinv_def client_ok_def by auto
  consider "op = Cancel" | ret r where "op = Bound ret r" using assms(3) by blast
  then show ?thesis
  proof cases
    case 1
    let ?k = "k\<lparr>ch_cl := cancel ?c, ch_reqs := ch_reqs k \<union> {}, ch_status := ch_status k\<rparr>"
    have "cl_bind_done (cancel ?c) = cl_bind_done ?c" "cl_clt_nonce (cancel ?c) = cl_clt_nonce ?c"
      by (simp_all add: cancel_def Let_def)
    moreover have "cl_inv (cancel ?c)" using i(3) by (simp add: cl_inv_def cancel_frame)
    moreover have "cl_calls (cancel ?c) = map_option (\<lambda>ca. ca\<lparr>ca_done := True, ca_intret := Some cancel_failure\<rparr>) \<circ> cl_calls ?c"
      by (simp add: cancel_def Let_def)
    ultimately have "kinv N w ?k"
      using i(2) by (intro kinv_client [OF assms(1), where A = "{}" and c = "cancel ?c" and st = "ch_status k"])
        (auto simp: bind_ok_def cancel_frame)
    with 1 show ?thesis by (simp add: client_does_def cl_step_def)
  next
    case (2 ret r)
    then have g: "cl_calls ?c = Map.empty" "ch_status k = Some ret" using assms(2) by (simp_all add: client_may_def)
    let ?b = "bind_end ?c ret r"
    let ?k = "k\<lparr>ch_cl := ?b, ch_reqs := ch_reqs k \<union> {}, ch_status := ch_status k\<rparr>"
    have "cl_calls ?b = Map.empty" "cl_clt_nonce ?b = cl_clt_nonce ?c" "cl_xid ?b = cl_xid ?c" "cl_window ?b = cl_window ?c"
      "cl_bind_done ?b = (cl_bind_done ?c \<or> ret = 0)"
      using g(1) by (auto simp: bind_end_def)
    moreover from this have "cl_inv ?b" using i(3) g(1) by (simp add: cl_inv_def)
    moreover have "ret = 0 \<Longrightarrow> ch_run k \<noteq> []" using i(2) g(2) by (simp add: bind_ok_def)
    then have "ret = 0 \<Longrightarrow> \<exists>y. y \<in> set (ch_run k)" using last_in_set by blast
    ultimately have "kinv N w ?k"
      using i(2) g(1) by (intro kinv_client [OF assms(1), where A = "{}" and c = ?b and st = "ch_status k"])
        (auto simp: bind_ok_def)
    with 2 show ?thesis by (simp add: client_does_def cl_step_def)
  qed
qed

lemma client_ok_step:
  assumes "kinv N w k" "client_may k op"
  shows "\<exists>k'. client_does k op = Inr k' \<and> kinv N w k'"
proof (cases op)
  case (Begin p req rep)
  with client_begin [OF assms(1)] assms(2) show ?thesis by blast
next
  case (Pdu bs)
  with client_pdu [OF assms(1)] assms(2) show ?thesis by blast
next
  case (End x)
  with client_end [OF assms(1)] assms(2) show ?thesis by blast
qed (use client_others [OF assms] in blast)+

section \<open>Every run\<close>

lemma ninv_upd:
  assumes "ninv s" "N \<noteq> 0 \<Longrightarrow> kinv N w k"
  shows "ninv \<lparr>n_win = (n_win s)(N \<mapsto> w), n_ch = (n_ch s)(N := k)\<rparr>"
  using assms unfolding ninv_def by (simp add: window_of_upd)

lemma ninv_step:
  assumes "nstep s s'" "ninv s"
  shows "ninv s'"
  using assms
proof cases
  case (client N op k)
  with client_ok_step [of N "window_of (n_win s) N" "n_ch s N" op] assms(2) have "kinv N (window_of (n_win s) N) k"
    unfolding ninv_def by auto
  with client(1) assms(2) show ?thesis unfolding ninv_def by auto
next
  case (server N h w k)
  from server(2) assms(2) have i: "kinv N (window_of (n_win s) N) (n_ch s N)" unfolding ninv_def by blast
  with serve_ok [OF i server(3)] server(4) obtain w' where "w = (n_win s)(N \<mapsto> w')" "kinv N w' k"
    unfolding serve_def by auto
  with server(1) ninv_upd [OF assms(2), of N w' k] show ?thesis by simp
next
  case (handler N x rep ret w k)
  from handler(2) assms(2) have i: "kinv N (window_of (n_win s) N) (n_ch s N)" unfolding ninv_def by blast
  with finish_ok [OF i handler(3-6), of ret] handler(8) obtain w' where "w = (n_win s)(N \<mapsto> w')" "kinv N w' k" by auto
  with handler(1) ninv_upd [OF assms(2), of N w' k] show ?thesis by simp
qed

lemma ninv_init: "ninv (ninit lossy)"
proof -
  have "cl_calls (rpcc_new N True lossy) = Map.empty" "cl_clt_nonce (rpcc_new N True lossy) = N"
    "\<not> cl_bind_done (rpcc_new N True lossy)" for N by (simp_all add: rpcc_new_def)
  then show ?thesis
    unfolding ninv_def ninit_def kinv_defs using cl_inv_new by (auto simp: window_of_def seen_def fun_eq_iff)
qed

lemma nreachable_init: "nreachable lossy (ninit lossy)"
  by (simp add: nreachable_def)

lemma nreachable_step: "nreachable lossy s \<Longrightarrow> nstep s s' \<Longrightarrow> nreachable lossy s'"
  unfolding nreachable_def by (rule rtranclp.rtrancl_into_rtrancl)

lemma ninv_reachable: "nreachable lossy s \<Longrightarrow> ninv s"
  unfolding nreachable_def by (induction rule: rtranclp_induct) (auto intro: ninv_init ninv_step)

lemma distinct_count_one: "distinct xs \<Longrightarrow> x \<in> set xs \<Longrightarrow> count_list xs x = 1"
  by (induction xs) (auto simp: count_list_0_iff)

text \<open>(C3) Calls over an unreliable network: in every run of any number of clients with any number of threads
  and one server, over connections that lose, duplicate, delay and reorder messages, with calls timing
  out and being cancelled, no operation of a client and no duplicate check of the server on a request that was sent fails; every request is
  executed at most once; a request whose call is still in progress is never answered as forgotten; and a
  call that is done without being cancelled holds the reply of the one execution of its own request.\<close>

theorem calls_exactly_once:
  assumes "nreachable lossy s" "N \<noteq> 0" "k = n_ch s N"
  shows "distinct (ch_run k) \<and>
    (\<forall>op. client_may k op \<longrightarrow> (\<exists>k'. client_does k op = Inr k')) \<and>
    (\<forall>h \<in> ch_reqs k. \<exists>st out freed w k'.
      checkduplicate_and_update (n_win s) (clt_nonce h) (xid h) (xid_rep h) = Inr (st, out, freed, w) \<and>
      switch_on k (xid h) st out = Inr k' \<and> (st = FORGOTTEN \<longrightarrow> cl_calls (ch_cl k) (xid h) = None)) \<and>
    (\<forall>x ca. cl_calls (ch_cl k) x = Some ca \<and> ca_done ca \<and> ca_intret ca \<noteq> Some cancel_failure \<longrightarrow>
      count_list (ch_run k) x = 1 \<and> answered k x ca)"
proof -
  have i: "kinv N (window_of (n_win s) N) k" using ninv_reachable [OF assms(1)] assms(2) unfolding ninv_def assms(3) by blast
  have d: "distinct (ch_run k)" "dom (ch_out k) \<subseteq> set (ch_run k)" using i unfolding kinv_def server_ok_def by auto
  have a: "answered k x ca"
    if "cl_calls (ch_cl k) x = Some ca" "ca_done ca" "ca_intret ca \<noteq> Some cancel_failure" for x ca
    using that i unfolding kinv_def client_ok_def by (auto split: if_splits)
  have "count_list (ch_run k) x = 1" if "answered k x ca" for x ca
  proof -
    have "x \<in> set (ch_run k)" using that d(2) unfolding answered_def by blast
    with d(1) show ?thesis by (rule distinct_count_one)
  qed
  with a d(1) client_ok_step [OF i] serve_ok [OF i] show ?thesis by blast
qed

section \<open>A run\<close>

text \<open>Client \<open>9\<close> binds: its request is served, and it gets the reply.\<close>

lemma something_arrives: "\<exists>bs. arrives b n bs"
  by (rule exI [of _ "map (\<lambda>i. case cells \<lparr>m_buf = Some b, m_capa = length b, m_ind = n\<rparr> ! i of None \<Rightarrow> 0 | Some x \<Rightarrow> x) [0..<n]"])
    (auto simp: arrives_def delivered_def split: option.splits)

theorem calls_exactly_once_witness:
  "\<exists>s ca. nreachable 0 s \<and> cl_calls (ch_cl (n_ch s 9)) 1 = Some ca \<and> ca_intret ca = Some 0 \<and>
     count_list (ch_run (n_ch s 9)) 1 = 1 \<and> answered (n_ch s 9) 1 ca"
proof -
  let ?s0 = "ninit 0" and ?c0 = "rpcc_new 9 True 0"
  let ?h = "\<lparr>xid = 1, proc = rpc_bind, clt_nonce = 9, srv_nonce = 0, xid_rep = 0\<rparr> :: req_header"
  let ?c1 = "?c0\<lparr>cl_xid := 2, cl_calls := [1 \<mapsto> caller_new 1 unmarshall_new]\<rparr>"
  let ?w1 = "[(reply_new 1)\<lparr>cb_present := True\<rparr>]"
  define k1 where "k1 = (n_ch ?s0 9)\<lparr>ch_cl := ?c1, ch_reqs := {?h}\<rparr>"
  obtain m where m: "pack_req_header marshall_new ?h = Inr m" using pack_req_new by blast
  obtain r b where r: "pack_reply_header marshall_new \<lparr>rh_xid = 1, rh_ret = 0\<rparr> = Inr r" "m_buf r = Some b"
    "carries (b, m_ind r) 1 0" using packed_failure by blast
  obtain bs where bs: "arrives b (m_ind r) bs" using something_arrives by blast
  obtain rep where rep: "unpack_reply_header (unmarshall_of bs) = Inr (\<lparr>rh_xid = 1, rh_ret = 0\<rparr>, rep)" "u_ok rep"
    using r(3) bs unfolding carries_def by auto
  define k3 where "k3 = k1\<lparr>ch_run := [1], ch_out := [1 \<mapsto> (b, m_ind r)], ch_net := {(b, m_ind r)}\<rparr>"
  define k4 where "k4 = k3\<lparr>ch_cl := ?c1\<lparr>cl_window := [1], cl_calls := [1 \<mapsto>
    (caller_new 1 unmarshall_new)\<lparr>ca_un := fst (take_in unmarshall_new rep), ca_intret := Some 0, ca_done := True\<rparr>]\<rparr>\<rparr>"
  define s1 where "s1 = ?s0\<lparr>n_ch := (n_ch ?s0)(9 := k1)\<rparr>"
  define s2 where "s2 = \<lparr>n_win = [9 \<mapsto> ?w1], n_ch = (n_ch s1)(9 := k1\<lparr>ch_run := [1]\<rparr>)\<rparr>"
  define s3 where "s3 = \<lparr>n_win = [9 \<mapsto> set_reply 1 (Some b) (m_ind r) ?w1], n_ch = (n_ch s2)(9 := k3)\<rparr>"
  define s4 where "s4 = s3\<lparr>n_ch := (n_ch s3)(9 := k4)\<rparr>"
  have sz: "m_ind marshall_new < MSG_MAX" by (simp add: marshall_new_def sizes)
  have 1: "nstep ?s0 s1" unfolding s1_def
    by (rule nstep.client [where op = "Begin rpc_bind marshall_new unmarshall_new"])
      (simp_all add: client_may_def client_does_def ninit_def rpcc_new_def mwf_new cl_step_def call_begin_def m k1_def)
  have 2: "nstep s1 s2" unfolding s2_def
    by (rule nstep.server [where h = ?h])
      (simp_all add: s1_def k1_def serve_def checkduplicate_and_update_def ninit_def window_of_def remember_new_def
        switch_on_def verify_def)
  have 3: "nstep s2 s3" unfolding s3_def
    by (rule nstep.handler [where x = 1 and rep = marshall_new and ret = 0])
      (simp_all add: sz s2_def k1_def k3_def ninit_def mwf_new finish_def r take_buf_def add_reply_def window_of_def verify_def)
  have c3: "ch_cl k3 = ?c1" by (simp add: k3_def k1_def)
  have "cl_got_pdu ?c1 bs = Inr (ch_cl k4)"
    by (simp add: cl_got_pdu_def rep k4_def rpcc_new_def update_xid_rep_def caller_new_def)
  then have "client_does k3 (Pdu bs) = Inr k4"
    by (simp add: client_does_def cl_step_def c3) (simp add: k4_def)
  moreover have "client_may k3 (Pdu bs)" using bs by (auto simp: client_may_def k3_def)
  moreover have "n_ch s3 9 = k3" by (simp add: s3_def)
  ultimately have 4: "nstep s3 s4" unfolding s4_def by (intro nstep.client [where op = "Pdu bs"]) simp_all
  have R: "nreachable 0 s4"
    by (rule nreachable_step [OF nreachable_step [OF nreachable_step [OF nreachable_step [OF nreachable_init 1] 2] 3] 4])
  from calls_exactly_once [OF R _ refl, of 9] have "count_list (ch_run k4) 1 = 1 \<and> answered k4 1 (the (cl_calls (ch_cl k4) 1))"
    by (simp add: s4_def k4_def k3_def cancel_failure_def)
  with R show ?thesis by (intro exI [of _ s4]) (simp add: s4_def k4_def)
qed

end
