(* ===== verification/Lock_Service.thy ===== *)
theory Lock_Service
  imports Rpc_Test Lock_Server_Cache
begin

text \<open>
  The lock service over RPC: the procedures that \<^verbatim>\<open>lock_smain.cc\<close> registers for the caching lock server,
  the calls that \<^verbatim>\<open>lock_client_cache.cc\<close> makes, and the stubs of \<^verbatim>\<open>lock_client.cc\<close>. The calls of the
  caching client have the outcome of the server's operations. The stubs of the plain client, which
  \<^verbatim>\<open>lock_demo.cc\<close> uses, send their arguments in the layout of the plain server and end the caching one.
\<close>

section \<open>Status codes on the wire\<close>

definition lock_code :: "lock_status \<Rightarrow> u32" where
  "lock_code st = (case st of OK \<Rightarrow> 0 | RETRY \<Rightarrow> 1 | RPCERR \<Rightarrow> 2 | NOENT \<Rightarrow> 3 | IOERR \<Rightarrow> 4)"

lemma lock_code_ok: "0 \<le> sint (lock_code st)"
  by (cases st) (simp_all add: lock_code_def)

section \<open>The server\<close>

abbreviation (input) lacquire :: u32 where "lacquire \<equiv> 0x7001"
abbreviation (input) lrelease :: u32 where "lrelease \<equiv> 0x7002"
abbreviation (input) lstat :: u32 where "lstat \<equiv> 0x7003"

text \<open>The calls the server makes back to its clients, in the order it makes them.\<close>

datatype rlock_call = Revoke string lockid | Retry string lockid

record lock_app =
  la_srv :: lock_server_cache
  la_calls :: "rlock_call list"

definition lock_app_new :: lock_app where
  "lock_app_new = \<lparr>la_srv = lock_server_cache_new, la_calls = []\<rparr>"

definition with_locks :: "lock_app \<Rightarrow> server_locks \<Rightarrow> rlock_call list \<Rightarrow> lock_app" where
  "with_locks a s cs = a\<lparr>la_srv := (la_srv a)\<lparr>lc_locks := s\<rparr>, la_calls := la_calls a @ cs\<rparr>"

definition serve_acquire :: "lock_app \<Rightarrow> lockid \<Rightarrow> string \<Rightarrow> lock_status \<times> lock_app" where
  "serve_acquire a lid me =
     (case lsc_acquire (lc_locks (la_srv a)) lid me of (ret, revoke, s) \<Rightarrow>
        (ret, with_locks a s (case revoke of None \<Rightarrow> [] | Some holder \<Rightarrow> [Revoke holder lid])))"

definition serve_release :: "lock_app \<Rightarrow> lockid \<Rightarrow> string \<Rightarrow> (lock_status \<times> lock_app) res" where
  "serve_release a lid me =
     rbind (lsc_release (lc_locks (la_srv a)) lid me) (\<lambda>(ret, retry, s).
     Inr (ret, with_locks a s (case retry of None \<Rightarrow> [] | Some addr \<Rightarrow> [Retry addr lid])))"

text \<open>The result of \<^verbatim>\<open>acquire\<close> and \<^verbatim>\<open>release\<close> is never set: \<open>junk\<close> is what the handler's variable holds, and
  also what the uninitialised counter holds that \<^verbatim>\<open>stat\<close> returns.\<close>

definition lock_procs :: "u32 \<Rightarrow> u32 \<rightharpoonup> lock_app handler" where
  "lock_procs junk =
     [lstat \<mapsto> handler1 get_ull put_int (\<lambda>a lid. case lsc_stat (la_srv a) lid of (ret, n) \<Rightarrow>
        Inr (lock_code ret, case n of None \<Rightarrow> junk | Some k \<Rightarrow> word_of_int k, a)),
      lacquire \<mapsto> handler2 get_ull get_string put_int (\<lambda>a lid b. case serve_acquire a lid (chars b) of (ret, a') \<Rightarrow>
        Inr (lock_code ret, junk, a')),
      lrelease \<mapsto> handler2 get_ull get_string put_int (\<lambda>a lid b. rbind (serve_release a lid (chars b)) (\<lambda>(ret, a').
        Inr (lock_code ret, junk, a')))]"

definition lock_smain :: "u32 \<Rightarrow> int \<Rightarrow> u32 \<Rightarrow> lock_app rpcs res" where
  "lock_smain nonce count junk =
     rbind (rpcs_new nonce count lock_app_new) (\<lambda>s.
     rfold (\<lambda>s p. reg1 s p (the (lock_procs junk p))) s [lstat, lacquire, lrelease])"

section \<open>The clients\<close>

text \<open>The calls of \<^verbatim>\<open>lock_client_cache\<close>, and those of the stubs of \<^verbatim>\<open>lock_client\<close>.\<close>

definition lock_args :: "lockid \<Rightarrow> string \<Rightarrow> marshall res" where
  "lock_args lid me = call_args2 put_ull put_string lid (bytes me)"

definition stub_args :: "rpcc \<Rightarrow> lockid \<Rightarrow> marshall res" where
  "stub_args c lid = call_args2 put_uint put_ull (cl_clt_nonce c) lid"

section \<open>Calls of the caching client\<close>

lemma release_total:
  assumes "locks_ok s"
  shows "\<exists>retry s'. lsc_release s lid me = Inr (OK, retry, s')"
proof (cases "s lid")
  case (Some l)
  then have "lock_ok l" using assms by (auto simp: locks_ok_def)
  then have "\<exists>retry l'. release_lock l = Inr (retry, l')"
    by (cases "lk_state l"; cases "lk_queue l") (auto simp: release_lock_def lock_ok_def)
  with Some show ?thesis by (auto simp: lsc_release_def)
qed (simp add: lsc_release_def)

text \<open>(C11) The lock service over RPC: for a client connected to a server that holds locks in good order, the
  calls for \<^verbatim>\<open>acquire\<close> and \<^verbatim>\<open>release\<close> go through the RPC library and do what the operations of the caching
  lock server do, with the lock's number and the client's address as they were sent; the client gets the
  status of the operation, and the revoke or retry that the operation asks for is made.\<close>

theorem lock_calls_cross:
  assumes "connected s c c0" "lock_procs junk \<subseteq>\<^sub>m s_procs s" "length me < 2 ^ 29" "locks_ok (lc_locks (la_srv (s_app s)))"
  shows "(\<exists>ret a. serve_acquire (s_app s) lid me = (ret, a) \<and>
      crosses s c c0 lacquire (lock_args lid me) get_int (lock_code ret) junk a) \<and>
    (\<exists>a. serve_release (s_app s) lid me = Inr (OK, a) \<and>
      crosses s c c0 lrelease (lock_args lid me) get_int (lock_code OK) junk a)"
proof -
  have sz: "RPC_HEADER_SZ + length (enc_pair enc_u64 enc_string (lid, bytes me)) < MSG_MAX"
    "RPC_HEADER_SZ + length (enc_u32 junk) < MSG_MAX"
    using assms(3) by (simp_all add: enc_pair_def enc_string_def sizes)
  note cross = connected_crosses [OF codec_pair [OF ull.codec_axioms str.codec_axioms] sint.codec_axioms sz assms(1)]
  have procs:
    "s_procs s lacquire = Some (handler1 (get_pair get_ull get_string) put_int
       (\<lambda>a (lid, b). case serve_acquire a lid (chars b) of (ret, a') \<Rightarrow> Inr (lock_code ret, junk, a')))"
    "s_procs s lrelease = Some (handler1 (get_pair get_ull get_string) put_int
       (\<lambda>a (lid, b). rbind (serve_release a lid (chars b)) (\<lambda>(ret, a'). Inr (lock_code ret, junk, a'))))"
    using assms(2) by (simp_all add: map_le_def lock_procs_def handler2_def)
  obtain ret a where 1: "serve_acquire (s_app s) lid me = (ret, a)" by fastforce
  have "crosses s c c0 lacquire (lock_args lid me) get_int (lock_code ret) junk a"
    unfolding lock_args_def call_args2_pair call_args1_def [symmetric]
    by (rule cross [OF _ procs(1)]) (simp_all add: 1 lock_code_ok rpc_bind_def)
  moreover obtain a' where 2: "serve_release (s_app s) lid me = Inr (OK, a')"
    using release_total [OF assms(4), of lid me] by (auto simp: serve_release_def)
  have "crosses s c c0 lrelease (lock_args lid me) get_int (lock_code OK) junk a'"
    unfolding lock_args_def call_args2_pair call_args1_def [symmetric]
    by (rule cross [OF _ procs(2)]) (simp_all add: 2 lock_code_ok rpc_bind_def)
  ultimately show ?thesis using 1 2 by blast
qed

definition lock_up :: "lock_app rpcs" where
  "lock_up = (case lock_smain 77 0 5 of Inr s \<Rightarrow> s\<lparr>s_store := [3 \<mapsto> (connection_new 0 0)\<lparr>c_refno := 2\<rparr>]\<rparr>)"

lemma lock_smain_registers:
  "\<exists>s. lock_smain nonce count junk = Inr s \<and> lock_procs junk \<subseteq>\<^sub>m s_procs s \<and> s_app s = lock_app_new \<and>
     s_nonce s = nonce \<and> s_window s = Map.empty \<and> s_conns s = Map.empty"
  by (simp add: lock_smain_def rpcs_new_def reg1_def rpc_bind_def lock_procs_def map_le_def)

lemma lock_up_ok: "connected lock_up 3 bound_client" "lock_procs 5 \<subseteq>\<^sub>m s_procs lock_up" "s_app lock_up = lock_app_new"
  using lock_smain_registers [of 77 0 5] by (auto simp: lock_up_def intro: connected_start)

theorem lock_calls_cross_witness:
  "crosses lock_up 3 bound_client lacquire (lock_args 1 ''127.0.0.1:1024'') get_int (lock_code OK) 5
     (snd (serve_acquire lock_app_new 1 ''127.0.0.1:1024''))"
proof -
  have "fst (serve_acquire lock_app_new 1 ''127.0.0.1:1024'') = OK"
    by (simp add: serve_acquire_def lock_app_new_def lock_server_cache_new_def lsc_acquire_def lock_at_def free_lock_def acquire_lock_def)
  with lock_calls_cross [OF lock_up_ok(1,2), of "''127.0.0.1:1024''" 1] lock_up_ok(3) show ?thesis
    by (auto simp: lock_app_new_def lock_server_cache_new_def)
qed

section \<open>Calls of the plain client\<close>

lemma enc_u64_halves: "\<exists>z. enc_u64 z = enc_u32 a @ enc_u32 b"
proof -
  define z :: u64 where "z = push_bit 32 (ucast a) OR ucast b"
  have "ucast (drop_bit 32 z) = a"
    unfolding z_def by (rule bit_word_eqI) (auto simp: bit_simps dest: bit_imp_le_length)
  moreover have "ucast z = b"
    unfolding z_def by (rule bit_word_eqI) (auto simp: bit_simps)
  ultimately show ?thesis by (auto simp: enc_u64_def)
qed

text \<open>(C36) The plain client ends the caching server: a call of \<^verbatim>\<open>lock_client::stat\<close>, which is what \<^verbatim>\<open>lock_demo\<close>
  does, sends the client's number and the lock's number, but the registered method takes only the lock's
  number; so the dispatcher fails its check on the arguments, whatever lock is asked for, and the process
  that serves all clients exits.\<close>

theorem stub_ends_lock_server:
  assumes "connected s c c0" "lock_procs junk \<subseteq>\<^sub>m s_procs s"
  shows "\<exists>req h m c1. stub_args c0 lid = Inr req \<and> call_begin c0 lstat req unmarshall_new = Inr (Inr (h, m), c1) \<and>
    (\<forall>b. delivered m b \<longrightarrow> dispatch s c b = Inl Abort)"
proof -
  let ?n = "cl_clt_nonce c0"
  let ?e = "enc_pair enc_u32 enc_u64 (?n, lid)"
  have cl: "cl_inv c0" "cl_bind_done c0" "\<not> cl_destroy_wait c0" using assms(1) by (simp_all add: connected_def)
  obtain f w where f: "cl_window c0 = f # w" using cl_inv_window [OF cl(1)] by blast
  define h where "h = \<lparr>xid = cl_xid c0, proc = lstat, clt_nonce = ?n, srv_nonce = cl_srv_nonce c0, xid_rep = f\<rparr>"
  have sz: "RPC_HEADER_SZ + length ?e < MSG_MAX" by (simp add: enc_pair_def enc_u64_def sizes)
  from request_arrives [OF codec_pair [OF uint.codec_axioms ull.codec_axioms] sz, of h] obtain req m where
    r: "put_pair put_uint put_ull marshall_new (?n, lid) = Inr req" "pack_req_header req h = Inr m" and
    d: "\<And>b. delivered m b \<Longrightarrow> drop 24 b = ?e \<and> length b = 24 + length ?e \<and> length b \<le> INT_MAX \<and>
      unpack_req_header (unmarshall_of b) = Inr (h, (unmarshall_of b)\<lparr>u_ind := 24\<rparr>)" by blast
  obtain c1 where c1: "call_begin c0 lstat req unmarshall_new = Inr (Inr (h, m), c1)"
    using cl f r(2) by (auto simp: call_begin_def h_def rpc_bind_def Let_def)
  have p: "s_procs s lstat = Some (handler1 get_ull put_int (\<lambda>a lid. case lsc_stat (la_srv a) lid of (ret, n) \<Rightarrow>
      Inr (lock_code ret, case n of None \<Rightarrow> junk | Some k \<Rightarrow> word_of_int k, a)))"
    using assms(2) by (simp add: map_le_def lock_procs_def)
  have "dispatch s c b = Inl Abort" if "delivered m b" for b
  proof -
    note b = d [OF that]
    let ?u = "(unmarshall_of b)\<lparr>u_ind := 24\<rparr>"
    have n: "length ?e = 12" by (simp add: enc_pair_def enc_u64_def)
    obtain z where z: "enc_u64 z = enc_u32 ?n @ enc_u32 (ucast (drop_bit 32 lid))" using enc_u64_halves by blast
    have "unread ?u = enc_u64 z @ enc_u32 (ucast lid)"
      using b by (simp add: unread_at enc_pair_def enc_u64_def z [unfolded enc_u64_def])
    with b n have g: "get_ull ?u = Inr (z, adv 8 ?u)"
      using ull.get_reads [of ?u z "enc_u32 (ucast lid)"] ready_at [of b 24] by (simp add: enc_u64_def)
    show ?thesis
    proof (rule wrong_arguments_abort [OF connected_paired [OF assms(1)] p _ c1 _ _ g])
      show "unpack_req_header (unmarshall_of b) = Inr (h, ?u)" using b by blast
      show "\<not> okdone (adv 8 ?u)" using b n by (simp add: okdone_at_end)
    qed (simp_all add: rpc_bind_def unmarshall_of_def)
  qed
  with r(1) c1 show ?thesis unfolding stub_args_def call_args2_pair by blast
qed

theorem stub_ends_lock_server_witness:
  "\<exists>req h m c1. stub_args bound_client 1 = Inr req \<and>
     call_begin bound_client lstat req unmarshall_new = Inr (Inr (h, m), c1) \<and>
     (\<forall>b. delivered m b \<longrightarrow> dispatch lock_up 3 b = Inl Abort)"
  by (rule stub_ends_lock_server [OF lock_up_ok(1,2)])

end
