(* ===== verification/Address.thy ===== *)
theory Address
  imports Dir_Format
begin

unbundle bit_operations_syntax

text \<open>
  Network addresses: \<^verbatim>\<open>make_sockaddr\<close> and the order on \<^verbatim>\<open>sockaddr_in\<close> in \<^verbatim>\<open>rpc/rpc.cc\<close>, and the address that a
  caching lock client chooses for itself in \<^verbatim>\<open>lock_client_cache.cc\<close>. The server turns that address back
  into the client's port when it makes a revoke or retry call, through \<^verbatim>\<open>handle.cc\<close>. The resolver is an
  argument: \<open>inet\<close> is \<^verbatim>\<open>inet_addr\<close>, with \<open>None\<close> for \<^verbatim>\<open>INADDR_NONE\<close>, and \<open>dns\<close> is \<^verbatim>\<open>gethostbyname\<close>, with \<open>None\<close>
  for a host that is not found or has no IPv4 address.
\<close>

section \<open>Addresses and their order\<close>

text \<open>The port is kept in network order.\<close>

datatype sockaddr = Sockaddr (sin_addr: u32) (sin_port: "16 word")

definition sockaddr_less :: "sockaddr \<Rightarrow> sockaddr \<Rightarrow> bool" where
  "sockaddr_less a b \<longleftrightarrow> sin_addr a < sin_addr b \<or> sin_addr a = sin_addr b \<and> sin_port a < sin_port b"

text \<open>The operator is the strict part of a linear order, as \<^verbatim>\<open>std::map\<close> needs it for its keys.\<close>

instantiation sockaddr :: linorder
begin

definition less_sockaddr_def: "a < b \<longleftrightarrow> sockaddr_less a b"

definition less_eq_sockaddr_def: "a \<le> b \<longleftrightarrow> a = b \<or> sockaddr_less a b"

instance
proof
  fix a b c :: sockaddr
  show "a \<le> b \<or> b \<le> a"
    by (cases a; cases b) (auto simp: less_eq_sockaddr_def sockaddr_less_def)
qed (auto simp: less_sockaddr_def less_eq_sockaddr_def sockaddr_less_def)

end

section \<open>Parsing an address\<close>

definition htons :: "16 word \<Rightarrow> 16 word" where
  "htons w = push_bit 8 w OR drop_bit 8 w"

text \<open>\<^verbatim>\<open>atoi\<close>: white space, a sign, digits; its result is undefined when the number is not an \<^verbatim>\<open>int\<close>.\<close>

definition atoi :: "byte list \<Rightarrow> int res" where
  "atoi s =
     (let t = dropWhile isspace s;
          u = (if t \<noteq> [] \<and> (hd t = 45 \<or> hd t = 43) then tl t else t);
          n = int (digits_val (takeWhile isdigit u));
          v = (if t \<noteq> [] \<and> hd t = 45 then - n else n)
      in if v < - (2 ^ 31) \<or> 2 ^ 31 \<le> v then Inl SignedOverflow else Inr v)"

definition resolve_sockaddr ::
  "(byte list \<Rightarrow> u32 option) \<Rightarrow> (byte list \<Rightarrow> u32 option) \<Rightarrow> byte list \<Rightarrow> byte list \<Rightarrow> sockaddr res" where
  "resolve_sockaddr inet dns host port =
     rbind (case inet host of
              Some a \<Rightarrow> Inr a
            | None \<Rightarrow> (case dns host of None \<Rightarrow> Inl Abort | Some a \<Rightarrow> Inr a)) (\<lambda>a.
     rbind (atoi port) (\<lambda>p. Inr (Sockaddr a (htons (word_of_int p)))))"

abbreviation (input) colon :: byte where "colon \<equiv> 58"

definition localhost :: "byte list" where
  "localhost = [49, 50, 55, 46, 48, 46, 48, 46, 49]"

text \<open>\<^verbatim>\<open>host\<close> has room for 200 characters, one of them the end of the string.\<close>

definition make_sockaddr ::
  "(byte list \<Rightarrow> u32 option) \<Rightarrow> (byte list \<Rightarrow> u32 option) \<Rightarrow> byte list \<Rightarrow> sockaddr res" where
  "make_sockaddr inet dns hostandport =
     (case find_first_of hostandport colon 0 of
        None \<Rightarrow> resolve_sockaddr inet dns localhost hostandport
      | Some k \<Rightarrow>
          if 200 \<le> k then Inl OutOfBounds
          else resolve_sockaddr inet dns (take k hostandport) (drop (Suc k) hostandport))"

section \<open>The address of a caching lock client\<close>

text \<open>The port it listens on for revoke and retry calls, given what \<^verbatim>\<open>rand\<close> returned, and its name.\<close>

definition rlock_port :: "int \<Rightarrow> int" where
  "rlock_port r = (r mod 32000) OR 1024"

definition lock_client_id :: "int \<Rightarrow> byte list" where
  "lock_client_id r = localhost @ [colon] @ decimal (nat (rlock_port r))"

section \<open>Lemmas\<close>

lemma rlock_port_bounds: "1024 \<le> rlock_port r \<and> rlock_port r < 32768"
proof -
  have "0 \<le> r mod 32000" "r mod 32000 < 2 ^ 15" by (simp_all add: less_trans [OF pos_mod_bound])
  then have "r mod 32000 OR 1024 < 2 ^ 15" by (intro OR_upper) simp_all
  moreover have "1024 \<le> 1024 OR (r mod 32000)" by (rule or_greater_eq) simp
  ultimately show ?thesis by (simp add: rlock_port_def or.commute)
qed

lemma atoi_decimal:
  assumes "n < 2 ^ 31"
  shows "atoi (decimal n) = Inr (int n)"
proof -
  have d: "\<forall>b \<in> set (decimal n). isdigit b" "decimal n \<noteq> []" using decimal_digits by auto
  then have h: "isdigit (hd (decimal n))" by simp
  have dw: "dropWhile isspace (decimal n) = decimal n"
    using d(2) digit_not_special [OF h] by (cases "decimal n") simp_all
  have tw: "takeWhile isdigit (decimal n) = decimal n" using d(1) by (simp add: takeWhile_eq_all_conv)
  have "int n < 2 ^ 31" using assms by simp
  then show ?thesis
    using digit_not_special [OF h] unfolding atoi_def dw Let_def
    by (simp add: tw digits_val_decimal del: takeWhile_eq_all_conv)
qed

lemma find_colon:
  assumes "colon \<notin> set host"
  shows "find_first_of (host @ colon # port) colon 0 = Some (length host)"
  unfolding find_first_of_def find_Some_iff
  using assms by (intro exI [of _ "length host"]) (auto simp: nth_append dest: nth_mem)

lemma resolve_local:
  assumes "inet localhost = Some a" "n < 2 ^ 31"
  shows "resolve_sockaddr inet dns localhost (decimal n) = Inr (Sockaddr a (htons (word_of_nat n)))"
  using assms by (simp add: resolve_sockaddr_def atoi_decimal)

text \<open>The server reaches a lock client: the address a caching lock client makes up from a random port
  resolves, when the server binds to it for a revoke or retry, to the local host and the very port the
  client listens on, which is never a privileged one; and the byte order of the port is the network's.\<close>

theorem client_address_resolves:
  assumes "inet localhost = Some a"
  shows "\<exists>p. make_sockaddr inet dns (lock_client_id r) = Inr (Sockaddr a p) \<and> int (unat (htons p)) = rlock_port r \<and>
    1024 \<le> rlock_port r \<and> rlock_port r < 32768"
proof -
  note b = rlock_port_bounds [of r]
  let ?n = "nat (rlock_port r)" and ?w = "word_of_nat (nat (rlock_port r)) :: 16 word"
  have n: "?n < 2 ^ 15" using b by (simp add: nat_less_iff)
  have "colon \<notin> set localhost" "length localhost = 9" by (simp_all add: localhost_def)
  then have "make_sockaddr inet dns (lock_client_id r) = resolve_sockaddr inet dns localhost (decimal ?n)"
    using find_colon [of localhost "decimal ?n"] by (simp add: make_sockaddr_def lock_client_id_def)
  also have "\<dots> = Inr (Sockaddr a (htons ?w))" using assms n by (intro resolve_local) simp_all
  finally have m: "make_sockaddr inet dns (lock_client_id r) = Inr (Sockaddr a (htons ?w))" .
  have "htons (htons w) = w" for w :: "16 word"
    unfolding htons_def by (rule bit_word_eqI) (auto simp: bit_simps)
  moreover have "unat ?w = ?n" using n by (simp add: unsigned_of_nat take_bit_nat_eq_self)
  ultimately show ?thesis using m b by (intro exI [of _ "htons ?w"]) simp
qed

theorem client_address_resolves_witness:
  "\<exists>p. make_sockaddr (\<lambda>h. if h = localhost then Some 0x0100007F else None) (\<lambda>_. None) (lock_client_id 4711) =
     Inr (Sockaddr 0x0100007F p) \<and> int (unat (htons p)) = rlock_port 4711"
  using client_address_resolves [of "\<lambda>h. if h = localhost then Some 0x0100007F else None" "0x0100007F" "\<lambda>_. None" 4711] by auto

text \<open>A host name of 200 characters or more is written beyond the buffer.\<close>

lemma long_host_overflows:
  assumes "colon \<notin> set host" "200 \<le> length host"
  shows "make_sockaddr inet dns (host @ colon # port) = Inl OutOfBounds"
  using assms by (simp add: make_sockaddr_def find_colon)

end
