(* ===== verification/File_System.thy ===== *)
theory File_System
  imports Yfs_Client
begin

text \<open>
  The file server as its users see it: a tree of directories and files. The operations of \<^verbatim>\<open>yfs_client.cc\<close>
  on extents are related to operations on the tree, for whole sessions: a session of the code gives the
  answers of the tree, and afterwards the extents hold the new tree. The tree is well typed in every
  state: what is stored under a number is a file or a directory as the number says, no entry dangles, and
  nothing has two entries.
\<close>

section \<open>Trees\<close>

datatype node = Dir "dirent list" | File "byte list"

type_synonym tree = "u64 \<rightharpoonup> node"

text \<open>Names that the search in a directory cannot take for a number.\<close>

definition plain :: "byte list \<Rightarrow> bool" where
  "plain n \<longleftrightarrow> name_ok n \<and> (\<exists>b \<in> set n. \<not> isdigit b)"

definition entries_ok :: "dirent list \<Rightarrow> bool" where
  "entries_ok es \<longleftrightarrow> (\<forall>e \<in> set es. plain (snd e)) \<and> distinct (map snd es)"

definition extent_of :: "node \<Rightarrow> byte list" where
  "extent_of nd = (case nd of Dir es \<Rightarrow> dir_bytes es | File b \<Rightarrow> b)"

definition is_dir_node :: "node \<Rightarrow> bool" where
  "is_dir_node nd = (case nd of Dir _ \<Rightarrow> True | File _ \<Rightarrow> False)"

text \<open>The extents hold the tree, and every number is of the kind of its node.\<close>

definition holds_tree :: "(u64 \<rightharpoonup> byte list) \<Rightarrow> tree \<Rightarrow> bool" where
  "holds_tree e t \<longleftrightarrow> e = map_option extent_of \<circ> t \<and> (\<forall>i nd. t i = Some nd \<longrightarrow> isdir i = is_dir_node nd)"

definition tree_ok :: "tree \<Rightarrow> bool" where
  "tree_ok t \<longleftrightarrow>
     (\<forall>p es. t p = Some (Dir es) \<longrightarrow> entries_ok es \<and> (\<forall>(i, n) \<in> set es. t i \<noteq> None \<and> i \<noteq> p)) \<and>
     (\<forall>p q es fs i n m. t p = Some (Dir es) \<and> t q = Some (Dir fs) \<and> (i, n) \<in> set es \<and> (i, m) \<in> set fs \<longrightarrow>
        p = q \<and> n = m)"

section \<open>Operations\<close>

datatype fop =
    Create u64 "byte list" bool
  | Lookup u64 "byte list"
  | Unlink u64 "byte list"
  | Read u64 u64 u64
  | Write u64 "byte list" u64
  | Truncate u64 u64

datatype fret = Made int u64 | Found bool u64 | Status int | Data int "byte list"

text \<open>The calls the FUSE handlers make; output parameters start as zero and as the empty string.\<close>

definition yfs_do :: "fop \<Rightarrow> fret ym" where
  "yfs_do op =
     (case op of
        Create p n file \<Rightarrow> ybind (create p n file 0) (\<lambda>(r, i). yreturn (Made r i))
      | Lookup p n \<Rightarrow> ybind (lookup p n 0) (\<lambda>(f, i). yreturn (Found f i))
      | Unlink p n \<Rightarrow> ybind (unlink p n) (\<lambda>r. yreturn (Status r))
      | Read i sz off \<Rightarrow> ybind (yfs_read i sz off []) (\<lambda>(r, b). yreturn (Data r b))
      | Write i buf off \<Rightarrow> ybind (yfs_write i buf off) (\<lambda>r. yreturn (Status r))
      | Truncate i sz \<Rightarrow> ybind (setattr i sz) (\<lambda>r. yreturn (Status r)))"

fun yfs_run :: "fop list \<Rightarrow> fret list ym" where
  "yfs_run [] = yreturn []"
| "yfs_run (op # ops) = ybind (yfs_do op) (\<lambda>r. ybind (yfs_run ops) (\<lambda>rs. yreturn (r # rs)))"

text \<open>The same operations on the tree; the number of a new node is any that is not in use.\<close>

definition entry_at :: "dirent list \<Rightarrow> byte list \<Rightarrow> u64 option" where
  "entry_at es n = map_of (map prod.swap es) n"

definition resize :: "byte list \<Rightarrow> nat \<Rightarrow> byte list" where
  "resize b n = take n b @ replicate (n - length b) 0"

text \<open>What a file holds after a write: at every position the byte written there, else the old byte, else zero.\<close>

definition patched :: "byte list \<Rightarrow> byte list \<Rightarrow> nat \<Rightarrow> byte list" where
  "patched b buf off =
     map (\<lambda>k. if off \<le> k \<and> k < off + length buf then buf ! (k - off) else if k < length b then b ! k else 0)
       [0..<max (length b) (off + length buf)]"

definition tree_do :: "tree \<Rightarrow> fop \<Rightarrow> fret \<Rightarrow> tree \<Rightarrow> bool" where
  "tree_do t op r t' =
     (case op of
        Create p n file \<Rightarrow> (\<exists>es. t p = Some (Dir es) \<and>
          (case entry_at es n of
             Some _ \<Rightarrow> r = Made yEXIST 0 \<and> t' = t
           | None \<Rightarrow> (\<exists>i. t i = None \<and> r = Made yOK i \<and>
               t' = t(i \<mapsto> if file then File [] else Dir [], p \<mapsto> Dir (es @ [(i, n)])))))
      | Lookup p n \<Rightarrow> (\<exists>es. t p = Some (Dir es) \<and> t' = t \<and>
          r = (case entry_at es n of None \<Rightarrow> Found False 0 | Some i \<Rightarrow> Found True i))
      | Unlink p n \<Rightarrow> (\<exists>es. t p = Some (Dir es) \<and>
          (case entry_at es n of
             None \<Rightarrow> r = Status yNOENT \<and> t' = t
           | Some i \<Rightarrow> r = Status yOK \<and> t' = t(i := None, p \<mapsto> Dir (filter (\<lambda>d. snd d \<noteq> n) es))))
      | Read i sz off \<Rightarrow> (\<exists>b. t i = Some (File b) \<and> t' = t \<and> r = Data yOK (resize (drop (unat off) b) (unat sz)))
      | Write i buf off \<Rightarrow> (\<exists>b. t i = Some (File b) \<and> r = Status yOK \<and> t' = t(i \<mapsto> File (patched b buf (unat off))))
      | Truncate i sz \<Rightarrow> (\<exists>b. t i = Some (File b) \<and> r = Status yOK \<and> t' = t(i \<mapsto> File (resize b (unat sz)))))"

fun tree_run :: "tree \<Rightarrow> fop list \<Rightarrow> fret list \<Rightarrow> tree \<Rightarrow> bool" where
  "tree_run t [] rs t' = (rs = [] \<and> t' = t)"
| "tree_run t (op # ops) rs t' = (\<exists>r rs1 t1. rs = r # rs1 \<and> tree_do t op r t1 \<and> tree_run t1 ops rs1 t')"

text \<open>What a caller must respect: operations on directories are made on directories and with plain
  names, those on files on files; random numbers are fresh; an extent to be unlinked is in the client's
  cache, as it is after a lookup through FUSE; reads start inside the file or at its end and ask for no more than it
  has left or for less than 2 GiB (what is missing is answered with zeros; a read that starts past the end throws); writes stay below 4 GiB, and new
  sizes below 2 GiB.\<close>

definition allowed :: "yst \<Rightarrow> tree \<Rightarrow> fop \<Rightarrow> bool" where
  "allowed s t op =
     (case op of
        Create p n file \<Rightarrow> plain n \<and> (\<exists>es. t p = Some (Dir es)) \<and> fresh_inums s file
      | Lookup p n \<Rightarrow> plain n \<and> (\<exists>es. t p = Some (Dir es))
      | Unlink p n \<Rightarrow> plain n \<and> (\<exists>es. t p = Some (Dir es) \<and> set_option (entry_at es n) \<subseteq> ys_known s)
      | Read i sz off \<Rightarrow> (\<exists>b. t i = Some (File b) \<and>
          (unat off + unat sz \<le> length b \<and> length b < 2 ^ 64 \<or> unat off \<le> length b \<and> length b < 2 ^ 63 \<and> unat sz < 2 ^ 31))
      | Write i buf off \<Rightarrow> (\<exists>b. t i = Some (File b) \<and> unat off + length buf < 2 ^ 32)
      | Truncate i sz \<Rightarrow> (\<exists>b. t i = Some (File b) \<and> length b < 2 ^ 31 \<and> unat sz < 2 ^ 31))"

fun allowed_run :: "yst \<Rightarrow> tree \<Rightarrow> fop list \<Rightarrow> bool" where
  "allowed_run s t [] = True"
| "allowed_run s t (op # ops) =
     (allowed s t op \<and>
      (\<forall>r s' t'. yfs_do op s = Inr (r, s') \<and> tree_do t op r t' \<and> holds_tree (ys_eff s') t' \<longrightarrow> allowed_run s' t' ops))"

section \<open>Plain names can be searched for\<close>

lemma plain_searchable: "entries_ok es \<Longrightarrow> plain n \<Longrightarrow> searchable es n"
  using decimal_digits by (fastforce simp: searchable_def entries_ok_def plain_def filename_def)

lemma entry_at_None: "entry_at es n = None \<longleftrightarrow> n \<notin> snd ` set es"
  by (force simp: entry_at_def map_of_eq_None_iff image_iff)

lemma entry_at_Some: "entry_at es n = Some i \<Longrightarrow> (i, n) \<in> set es"
  by (auto simp: entry_at_def dest: map_of_SomeD)

section \<open>Changing a size\<close>

lemma small_words:
  assumes "unat (w :: u64) < 2 ^ 31"
  shows "sint w = int (unat w)" "scast (ucast w :: u32) = w"
proof -
  have "int (unat w) < int (2 ^ 31)" using assms by (simp only: of_nat_less_iff)
  then have u: "uint w < 2 ^ 31" by simp
  have "- (2 ^ 63) \<le> uint w" by (rule order.trans [of _ 0]) simp_all
  with u have "signed_take_bit 63 (uint w) = uint w" by (intro signed_take_bit_int_eq_self) simp_all
  then show "sint w = int (unat w)" by (simp add: sint_uint)
  have "scast (ucast w :: u32) = (word_of_int (sint (ucast w :: u32)) :: u64)" by simp
  also have "\<dots> = word_of_int (int (unat w))" unfolding sint_small [OF assms] by (rule refl)
  finally show "scast (ucast w :: u32) = w" by simp
qed

lemma does_setattr:
  assumes "ys_ok s" "ino \<notin> set (ys_held s)" "ys_eff s ino = Some buf" "length buf < 2 ^ 31" "unat sz < 2 ^ 31"
  shows "does (setattr ino sz) s (\<lambda>r e. r = yOK \<and> e = (ys_eff s)(ino \<mapsto> resize buf (unat sz)))"
proof -
  let ?l = "of_nat (length buf) :: u32"
  have l: "unat ?l = length buf" using assms(4) by (simp add: unsigned_of_nat take_bit_nat_eq_self)
  then have ui: "uint ?l = int (length buf)" by (metis uint_nat)
  have c: "uint ?l < sint sz \<longleftrightarrow> length buf < unat sz"
    unfolding ui small_words(1) [OF assms(5)] by (rule of_nat_less_iff)
  show ?thesis
  proof (cases "length buf < unat sz")
    case True
    let ?n = "sz - ucast ?l"
    have ul: "unat (ucast ?l :: u64) = length buf" using l assms(4) by (simp add: unsigned_ucast_eq take_bit_nat_eq_self)
    have "ucast ?l \<le> sz" using True ul by (simp add: word_le_nat_alt)
    then have n: "unat ?n = unat sz - length buf" using ul by (simp add: unat_sub)
    then have k: "unat ?n < 2 ^ 31" using assms(5) by simp
    have "zeros ?n (scast (ucast ?n :: u32)) = Inr (replicate (unat sz - length buf) 0)"
      unfolding small_words(2) [OF k] zeros_def sint_small [OF k] by (simp add: n)
    moreover have "resize buf (unat sz) = buf @ replicate (unat sz - length buf) 0" using True by (simp add: resize_def)
    ultimately show ?thesis
      unfolding setattr_def Let_def using True
      by (intro does_locked_get [OF assms(1-3)]) (simp add: does_put c)
  next
    case False
    then have "resize buf (unat sz) = take (unat sz) buf" by (simp add: resize_def)
    then show ?thesis
      unfolding setattr_def Let_def using False
      by (intro does_locked_get [OF assms(1-3)]) (simp add: does_put c)
  qed
qed

section \<open>Reading and writing\<close>

lemma write_at_patched: "write_at b buf k = patched b buf k"
proof (rule nth_equalityI)
  show "length (write_at b buf k) = length (patched b buf k)" by (simp add: patched_def write_at_length)
  fix j assume "j < length (write_at b buf k)"
  then show "write_at b buf k ! j = patched b buf k ! j" by (simp add: write_at_nth patched_def write_at_length)
qed

lemma does_read_any:
  assumes "ys_ok s" "ino \<notin> set (ys_held s)" "ys_eff s ino = Some buf"
    and "unat off + unat sz \<le> length buf \<and> length buf < 2 ^ 64 \<or> unat off \<le> length buf \<and> length buf < 2 ^ 63 \<and> unat sz < 2 ^ 31"
  shows "does (yfs_read ino sz off ret) s (\<lambda>r e. r = (yOK, resize (drop (unat off) buf) (unat sz)) \<and> e = ys_eff s)"
proof (cases "unat off + unat sz \<le> length buf")
  case True
  then have "resize (drop (unat off) buf) (unat sz) = take (unat sz) (drop (unat off) buf)" by (simp add: resize_def)
  moreover have "length buf < 2 ^ 64" using assms(4) by auto
  ultimately show ?thesis using does_read [OF assms(1-3) True] by simp
next
  case False
  with assms(4) have a: "unat off \<le> length buf" "length buf < 2 ^ 63" "unat sz < 2 ^ 31" by auto
  let ?l = "of_nat (length buf) :: u64" and ?n = "off + sz - of_nat (length buf)"
  have l: "unat ?l = length buf" using a(2) by (simp add: unsigned_of_nat take_bit_nat_eq_self)
  have o: "unat (off + sz) = unat off + unat sz" using a by (simp add: unat_word_ariths)
  have lt: "?l < off + sz" using False l o by (simp add: word_less_nat_alt)
  then have n: "unat ?n = unat off + unat sz - length buf" using l o by (simp add: unat_sub)
  then have k: "unat ?n < 2 ^ 31" using a by simp
  have z: "zeros ?n ?n = Inr (replicate (unat off + unat sz - length buf) 0)"
    unfolding zeros_def sint_small [OF k] by (simp add: n)
  have "off \<le> ?l" using a(1) l by (simp add: word_le_nat_alt)
  then have d: "unat (?l - off) = length buf - unat off" using l by (simp add: unat_sub)
  have "substr buf (unat off) (unat (?l - off)) = Inr (drop (unat off) buf)" using a(1) by (simp add: substr_def d)
  moreover have "resize (drop (unat off) buf) (unat sz) = drop (unat off) buf @ replicate (unat off + unat sz - length buf) 0"
    using False a(1) by (simp add: resize_def add.commute)
  ultimately show ?thesis
    unfolding yfs_read_def Let_def using lt z by (intro does_locked_get [OF assms(1-3)]) (simp add: does_yreturn)
qed

section \<open>Each operation does what the tree does\<close>

lemma holds_tree_upd:
  assumes "holds_tree e t" "isdir i = is_dir_node nd"
  shows "holds_tree (e(i \<mapsto> extent_of nd)) (t(i \<mapsto> nd))"
  using assms unfolding holds_tree_def by (auto simp: fun_eq_iff)

lemma holds_tree_del: "holds_tree e t \<Longrightarrow> holds_tree (e(i := None)) (t(i := None))"
  unfolding holds_tree_def by (auto simp: fun_eq_iff)

lemma holds_dir: "holds_tree e t \<Longrightarrow> t p = Some (Dir es) \<Longrightarrow> isdir p \<and> e p = Some (dir_bytes es)"
  unfolding holds_tree_def by (auto simp: extent_of_def is_dir_node_def)

lemma holds_file: "holds_tree e t \<Longrightarrow> t i = Some (File b) \<Longrightarrow> \<not> isdir i \<and> e i = Some b"
  unfolding holds_tree_def by (auto simp: extent_of_def is_dir_node_def)

lemma holds_None: "holds_tree e t \<Longrightarrow> e i = None \<longleftrightarrow> t i = None"
  unfolding holds_tree_def by auto

lemma tree_dir: "tree_ok t \<Longrightarrow> t p = Some (Dir es) \<Longrightarrow> entries_ok es"
  unfolding tree_ok_def by blast

lemma tree_entry: "tree_ok t \<Longrightarrow> t p = Some (Dir es) \<Longrightarrow> (i, n) \<in> set es \<Longrightarrow> t i \<noteq> None \<and> i \<noteq> p"
  unfolding tree_ok_def by blast

lemma tree_entry_unique:
  "tree_ok t \<Longrightarrow> t p = Some (Dir es) \<Longrightarrow> t q = Some (Dir fs) \<Longrightarrow> (i, n) \<in> set es \<Longrightarrow> (i, m) \<in> set fs \<Longrightarrow> p = q \<and> n = m"
  unfolding tree_ok_def by blast

text \<open>Replacing the contents of a file.\<close>

lemma tree_ok_file:
  assumes "tree_ok t" "t i = Some (File b)"
  shows "tree_ok (t(i \<mapsto> File c))"
  using assms unfolding tree_ok_def by (auto split: if_splits) blast+

lemma tree_ok_new:
  assumes "tree_ok t" "t p = Some (Dir es)" "t i = None" "plain n" "entry_at es n = None" "nd = File [] \<or> nd = Dir []"
  shows "tree_ok (t(i \<mapsto> nd, p \<mapsto> Dir (es @ [(i, n)])))" (is "tree_ok ?t")
proof -
  have ip: "i \<noteq> p" using assms(2,3) by auto
  have out: "(i, m) \<notin> set fs" if "t q = Some (Dir fs)" for q fs m
    using tree_entry [OF assms(1) that] assms(3) by blast
  have old: "(\<exists>gs. t q = Some (Dir gs) \<and> (j, m) \<in> set gs) \<or> (q = p \<and> j = i \<and> m = n)"
    if "?t q = Some (Dir fs)" "(j, m) \<in> set fs" for q fs j m
    using that assms(2,6) ip by (auto split: if_splits)
  have e: "entries_ok (es @ [(i, n)])"
    using tree_dir [OF assms(1,2)] assms(4,5) by (auto simp: entries_ok_def entry_at_None)
  show ?thesis unfolding tree_ok_def
  proof (intro conjI allI impI)
    fix q fs assume q: "?t q = Some (Dir fs)"
    show "entries_ok fs" using q e tree_dir [OF assms(1)] assms(6) by (auto simp: entries_ok_def split: if_splits)
    show "\<forall>(j, m) \<in> set fs. ?t j \<noteq> None \<and> j \<noteq> q"
    proof clarify
      fix j m assume jm: "(j, m) \<in> set fs"
      from old [OF q jm] show "?t j \<noteq> None \<and> j \<noteq> q"
      proof
        assume "\<exists>gs. t q = Some (Dir gs) \<and> (j, m) \<in> set gs"
        then have "t j \<noteq> None \<and> j \<noteq> q" using tree_entry [OF assms(1)] by blast
        then show ?thesis by simp
      qed (use ip in simp)
    qed
  next
    fix q r fs gs j m k
    assume a: "?t q = Some (Dir fs) \<and> ?t r = Some (Dir gs) \<and> (j, m) \<in> set fs \<and> (j, k) \<in> set gs"
    then have "(\<exists>gs. t q = Some (Dir gs) \<and> (j, m) \<in> set gs) \<or> (q = p \<and> j = i \<and> m = n)"
      "(\<exists>gs. t r = Some (Dir gs) \<and> (j, k) \<in> set gs) \<or> (r = p \<and> j = i \<and> k = n)" using old by blast+
    then show "q = r" "m = k" using out tree_entry_unique [OF assms(1)] by blast+
  qed
qed

lemma tree_ok_unlink:
  assumes "tree_ok t" "t p = Some (Dir es)" "(i, n) \<in> set es"
  shows "tree_ok (t(i := None, p \<mapsto> Dir (filter (\<lambda>d. snd d \<noteq> n) es)))" (is "tree_ok ?t")
proof -
  have ip: "i \<noteq> p" using tree_entry [OF assms] by simp
  have old: "\<exists>gs. t q = Some (Dir gs) \<and> (j, m) \<in> set gs \<and> (q = p \<longrightarrow> m \<noteq> n) \<and> q \<noteq> i"
    if "?t q = Some (Dir fs)" "(j, m) \<in> set fs" for q fs j m
    using that assms(2) ip by (auto split: if_splits)
  show ?thesis unfolding tree_ok_def
  proof (intro conjI allI impI)
    fix q fs assume q: "?t q = Some (Dir fs)"
    show "entries_ok fs"
      using q tree_dir [OF assms(1)] assms(2) by (fastforce simp: entries_ok_def distinct_map_filter split: if_splits)
    show "\<forall>(j, m) \<in> set fs. ?t j \<noteq> None \<and> j \<noteq> q"
    proof clarify
      fix j m assume jm: "(j, m) \<in> set fs"
      from old [OF q jm] obtain gs where gs: "t q = Some (Dir gs)" "(j, m) \<in> set gs" "q = p \<longrightarrow> m \<noteq> n" by blast
      have "j \<noteq> i" using tree_entry_unique [OF assms(1) gs(1) assms(2) gs(2)] assms(3) gs(3) by blast
      then show "?t j \<noteq> None \<and> j \<noteq> q" using tree_entry [OF assms(1) gs(1,2)] by simp
    qed
  next
    fix q r fs gs j m k
    assume a: "?t q = Some (Dir fs) \<and> ?t r = Some (Dir gs) \<and> (j, m) \<in> set fs \<and> (j, k) \<in> set gs"
    then have "\<exists>gs. t q = Some (Dir gs) \<and> (j, m) \<in> set gs" "\<exists>gs. t r = Some (Dir gs) \<and> (j, k) \<in> set gs"
      using old by blast+
    then show "q = r" "m = k" using tree_entry_unique [OF assms(1)] by blast+
  qed
qed

text \<open>The answer and the extents are those of the tree.\<close>

definition follows :: "tree \<Rightarrow> fop \<Rightarrow> fret \<Rightarrow> (u64 \<rightharpoonup> byte list) \<Rightarrow> bool" where
  "follows t op r e \<longleftrightarrow> (\<exists>t'. tree_do t op r t' \<and> holds_tree e t' \<and> tree_ok t')"

lemma does_bind_return:
  assumes "does m s (\<lambda>r e. follows t op (f r) e)"
  shows "does (ybind m (\<lambda>r. yreturn (f r))) s (follows t op)"
  by (rule does_ybind [OF assms]) (rule does_yreturn)

lemma create_step:
  assumes "ys_ok s" "ys_held s = []" "holds_tree (ys_eff s) t" "tree_ok t" "allowed s t (Create p n file)"
  shows "does (yfs_do (Create p n file)) s (follows t (Create p n file))"
proof -
  obtain es where a: "plain n" "t p = Some (Dir es)" "fresh_inums s file" using assms(5) by (auto simp: allowed_def)
  note d = holds_dir [OF assms(3) a(2)]
  note sr = plain_searchable [OF tree_dir [OF assms(4) a(2)] a(1)]
  have *: "follows t (Create p n file) (case ri of (r, i) \<Rightarrow> Made r i) e"
    if r: "if n \<in> snd ` set es then ri = (yEXIST, 0) \<and> e = ys_eff s
      else \<exists>num. ri = (yOK, num) \<and> isfile num = file \<and> ys_eff s num = None \<and>
        e = (ys_eff s)(num \<mapsto> [], p \<mapsto> dir_bytes (es @ [(num, n)]))" for ri e
  proof (cases "n \<in> snd ` set es")
    case True
    then have "entry_at es n \<noteq> None" by (simp add: entry_at_None)
    with True r a(2) assms(3,4) show ?thesis by (auto simp: follows_def tree_do_def)
  next
    case False
    then have n: "entry_at es n = None" by (simp add: entry_at_None)
    from False r obtain i where i: "ri = (yOK, i)" "isfile i = file" "ys_eff s i = None"
      "e = (ys_eff s)(i \<mapsto> [], p \<mapsto> dir_bytes (es @ [(i, n)]))" by auto
    let ?nd = "if file then File [] else Dir []"
    have ti: "t i = None" using holds_None [OF assms(3)] i(3) by blast
    have "extent_of ?nd = []" "extent_of (Dir (es @ [(i, n)])) = dir_bytes (es @ [(i, n)])"
      by (simp_all add: extent_of_def dir_bytes_def)
    with holds_tree_upd [OF holds_tree_upd [OF assms(3), of i ?nd], of p "Dir (es @ [(i, n)])"] i(2,4) d
    have "holds_tree e (t(i \<mapsto> ?nd, p \<mapsto> Dir (es @ [(i, n)])))" by (auto simp: is_dir_node_def isdir_def)
    moreover have "tree_ok (t(i \<mapsto> ?nd, p \<mapsto> Dir (es @ [(i, n)])))"
      by (rule tree_ok_new [OF assms(4) a(2) ti a(1) n]) simp
    ultimately show ?thesis using a(2) n ti i(1) by (auto simp: follows_def tree_do_def)
  qed
  have "does (create p n file 0) s (\<lambda>ri e. follows t (Create p n file) (case ri of (r, i) \<Rightarrow> Made r i) e)"
    using d by (intro does_mono [OF create_does [OF assms(1,2) _ _ sr a(3)] *]) simp_all
  from does_bind_return [OF this] show ?thesis by (simp add: yfs_do_def split_def)
qed

lemma unlink_step:
  assumes "ys_ok s" "ys_held s = []" "holds_tree (ys_eff s) t" "tree_ok t" "allowed s t (Unlink p n)"
  shows "does (yfs_do (Unlink p n)) s (follows t (Unlink p n))"
proof -
  obtain es where a: "plain n" "t p = Some (Dir es)" "set_option (entry_at es n) \<subseteq> ys_known s" using assms(5) by (auto simp: allowed_def)
  note d = holds_dir [OF assms(3) a(2)]
  note sr = plain_searchable [OF tree_dir [OF assms(4) a(2)] a(1)]
  have u: "i = j" if "(i, n) \<in> set es" "(j, n) \<in> set es" for i j
    using that sr inj_onD [of snd "set es" "(i, n)" "(j, n)"] by (auto simp: searchable_def distinct_map)
  have k: "\<forall>i. (i, n) \<in> set es \<longrightarrow> i \<noteq> p \<and> i \<in> ys_known s"
  proof clarify
    fix i assume i: "(i, n) \<in> set es"
    then have "n \<in> snd ` set es" by (metis image_eqI snd_conv)
    then have "entry_at es n \<noteq> None" using entry_at_None by blast
    then obtain j where j: "entry_at es n = Some j" by blast
    with u [OF i entry_at_Some [OF j]] a(3) tree_entry [OF assms(4) a(2) i] show "i \<noteq> p \<and> i \<in> ys_known s" by simp
  qed
  have *: "follows t (Unlink p n) (Status r) e"
    if r: "case entry_at es n of None \<Rightarrow> r = yNOENT \<and> e = ys_eff s
      | Some i \<Rightarrow> r = yOK \<and> e = (ys_eff s)(i := None, p \<mapsto> dir_bytes (filter (\<lambda>d. snd d \<noteq> n) es))" for r e
  proof (cases "entry_at es n")
    case None
    with r a(2) assms(3,4) show ?thesis by (auto simp: follows_def tree_do_def)
  next
    case (Some i)
    let ?d = "Dir (filter (\<lambda>d. snd d \<noteq> n) es)"
    have "holds_tree e (t(i := None, p \<mapsto> ?d))"
      using holds_tree_upd [OF holds_tree_del [OF assms(3)], of p ?d i] r Some d by (simp add: extent_of_def is_dir_node_def)
    moreover have "tree_ok (t(i := None, p \<mapsto> ?d))" by (rule tree_ok_unlink [OF assms(4) a(2) entry_at_Some [OF Some]])
    ultimately show ?thesis using a(2) r Some by (auto simp: follows_def tree_do_def)
  qed
  have "does (unlink p n) s (\<lambda>r e. follows t (Unlink p n) (Status r) e)"
    using d by (intro does_mono [OF unlink_does [OF assms(1,2) _ _ sr k] *]) (simp_all add: entry_at_def)
  from does_bind_return [OF this] show ?thesis by (simp add: yfs_do_def)
qed

lemma other_steps:
  assumes "ys_ok s" "ys_held s = []" "holds_tree (ys_eff s) t" "tree_ok t" "allowed s t op"
    and "\<forall>p n file. op \<noteq> Create p n file" "\<forall>p n. op \<noteq> Unlink p n"
  shows "does (yfs_do op) s (follows t op)"
proof (cases op)
  case (Lookup p n)
  then obtain es where a: "plain n" "t p = Some (Dir es)" using assms(5) by (auto simp: allowed_def)
  note d = holds_dir [OF assms(3) a(2)]
  note sr = plain_searchable [OF tree_dir [OF assms(4) a(2)] a(1)]
  have "does (lookup p n 0) s (\<lambda>r e. follows t op (case r of (f, i) \<Rightarrow> Found f i) e)"
    using d assms(2-4) a(2) by (intro does_mono [OF lookup_does [OF assms(1,2) _ _ sr]])
      (auto simp: follows_def tree_do_def Lookup entry_at_def split: option.splits)
  from does_bind_return [OF this] show ?thesis by (simp add: yfs_do_def Lookup split_def)
next
  case (Read i sz off)
  then obtain b where a: "t i = Some (File b)"
    "unat off + unat sz \<le> length b \<and> length b < 2 ^ 64 \<or> unat off \<le> length b \<and> length b < 2 ^ 63 \<and> unat sz < 2 ^ 31"
    using assms(5) by (auto simp: allowed_def)
  note f = holds_file [OF assms(3) a(1)]
  have "does (yfs_read i sz off []) s (\<lambda>r e. follows t op (case r of (r, b) \<Rightarrow> Data r b) e)"
    using f assms(2-4) a by (intro does_mono [OF does_read_any [OF assms(1) _ _ a(2)]]) (auto simp: follows_def tree_do_def Read)
  from does_bind_return [OF this] show ?thesis by (simp add: yfs_do_def Read split_def)
next
  case (Write i buf off)
  then obtain b where a: "t i = Some (File b)" "unat off + length buf < 2 ^ 32" using assms(5) by (auto simp: allowed_def)
  note f = holds_file [OF assms(3) a(1)]
  have u: "unat (ucast off :: u32) = unat off" using a(2) by (simp add: unsigned_ucast_eq take_bit_nat_eq_self)
  have p: "0 \<le> sint off" by (rule sint_nonneg) (use a(2) in simp)
  let ?nd = "File (patched b buf (unat off))"
  have "holds_tree ((ys_eff s)(i \<mapsto> patched b buf (unat off))) (t(i \<mapsto> ?nd))"
    using holds_tree_upd [OF assms(3), of i ?nd] f by (simp add: extent_of_def is_dir_node_def)
  then have "does (yfs_write i buf off) s (\<lambda>r e. follows t op (Status r) e)"
    using f assms(2) a tree_ok_file [OF assms(4) a(1)] u
    by (intro does_mono [OF does_write [OF assms(1) _ _ p]]) (auto simp: follows_def tree_do_def Write write_at_patched)
  from does_bind_return [OF this] show ?thesis by (simp add: yfs_do_def Write)
next
  case (Truncate i sz)
  then obtain b where a: "t i = Some (File b)" "length b < 2 ^ 31" "unat sz < 2 ^ 31" using assms(5) by (auto simp: allowed_def)
  note f = holds_file [OF assms(3) a(1)]
  let ?nd = "File (resize b (unat sz))"
  have "holds_tree ((ys_eff s)(i \<mapsto> resize b (unat sz))) (t(i \<mapsto> ?nd))"
    using holds_tree_upd [OF assms(3), of i ?nd] f by (simp add: extent_of_def is_dir_node_def)
  then have "does (setattr i sz) s (\<lambda>r e. follows t op (Status r) e)"
    using f assms(2) a tree_ok_file [OF assms(4) a(1)]
    by (intro does_mono [OF does_setattr [OF assms(1) _ _ a(2,3)]]) (auto simp: follows_def tree_do_def Truncate)
  from does_bind_return [OF this] show ?thesis by (simp add: yfs_do_def Truncate)
qed (use assms(6,7) in auto)

lemma step_follows:
  assumes "ys_ok s" "ys_held s = []" "holds_tree (ys_eff s) t" "tree_ok t" "allowed s t op"
  shows "does (yfs_do op) s (follows t op)"
proof (cases op)
  case (Create p n f)
  with create_step assms show ?thesis by blast
next
  case (Unlink p n)
  with unlink_step assms show ?thesis by blast
qed (use other_steps [OF assms] in auto)

section \<open>Sessions\<close>

lemma run_follows:
  assumes "ys_ok s" "ys_held s = []" "holds_tree (ys_eff s) t" "tree_ok t" "allowed_run s t ops"
  shows "\<exists>rs s' t'. yfs_run ops s = Inr (rs, s') \<and> tree_run t ops rs t' \<and> holds_tree (ys_eff s') t' \<and> tree_ok t' \<and>
    ys_held s' = []"
  using assms
proof (induction ops arbitrary: s t)
  case (Cons op ops)
  have "does (yfs_do op) s (follows t op)" using Cons.prems by (intro step_follows) simp_all
  then obtain r s1 t1 where 1: "yfs_do op s = Inr (r, s1)" "tree_do t op r t1" "holds_tree (ys_eff s1) t1" "tree_ok t1"
    "ys_ok s1" "ys_held s1 = []" using Cons.prems(2) by (auto simp: does_def follows_def)
  from Cons.prems(5) 1(1-3) have "allowed_run s1 t1 ops" by auto
  from Cons.IH [OF 1(5,6,3,4) this] obtain rs s' t' where
    "yfs_run ops s1 = Inr (rs, s')" "tree_run t1 ops rs t'" "holds_tree (ys_eff s') t'" "tree_ok t'" "ys_held s' = []" by blast
  with 1 show ?case by (intro exI [of _ "r # rs"] exI [of _ s'] exI [of _ t']) (auto simp: ybind_def yreturn_def)
qed (auto simp: yreturn_def)

text \<open>(C4) The file server is a tree of directories and files: every session of allowed operations, of any length,
  on any directories and files, with locks revoked and extents flushed at any time, runs to its end
  without a fault or a deadlock, and gives the answers that the same operations give on the tree:
  names are found as they were created, what was written is read, and what was unlinked is gone. What is
  allowed is said above (\<open>allowed\<close>): names that are not numbers, fresh random numbers, unlinking what the client has in
  its cache, sizes in bounds, reads that start inside the file; the calls to the extent and lock servers arrive (\<open>ys_ok\<close>).\<close>

theorem sessions_follow_tree:
  assumes "ys_ok s" "ys_held s = []" "holds_tree (ys_eff s) t" "tree_ok t" "allowed_run s t ops"
  shows "\<exists>rs s' t'. yfs_run ops s = Inr (rs, s') \<and> tree_run t ops rs t' \<and> holds_tree (ys_eff s') t'"
  using run_follows [OF assms] by blast

text \<open>What is stored is well typed: every extent whose number has not the bit of files is a directory, that is,
  it is spelled exactly by the entries that listing it gives, with plain and distinct names; every entry leads to an extent
  that exists, and none to the directory itself; and nothing is entered twice.\<close>

definition stored_ok :: "(u64 \<rightharpoonup> byte list) \<Rightarrow> bool" where
  "stored_ok e \<longleftrightarrow>
     (\<forall>p b. e p = Some b \<and> isdir p \<longrightarrow>
        b = dir_bytes (readdir_loop b 0) \<and> entries_ok (readdir_loop b 0) \<and> (\<forall>(i, n) \<in> set (readdir_loop b 0). e i \<noteq> None \<and> i \<noteq> p)) \<and>
     (\<forall>p q b c i n m. e p = Some b \<and> isdir p \<and> e q = Some c \<and> isdir q \<and>
        (i, n) \<in> set (readdir_loop b 0) \<and> (i, m) \<in> set (readdir_loop c 0) \<longrightarrow> p = q \<and> n = m)"

lemma stored_ok_tree:
  assumes "holds_tree e t" "tree_ok t"
  shows "stored_ok e"
proof -
  have d: "\<exists>es. t p = Some (Dir es) \<and> b = dir_bytes es \<and> readdir_loop b 0 = es" if "e p = Some b" "isdir p" for p b
  proof -
    from that assms(1) obtain nd where "t p = Some nd" "b = extent_of nd" "is_dir_node nd" unfolding holds_tree_def by auto
    then obtain es where es: "t p = Some (Dir es)" "b = dir_bytes es" by (cases nd) (auto simp: extent_of_def is_dir_node_def)
    have "\<forall>x \<in> set es. name_ok (snd x)" using tree_dir [OF assms(2) es(1)] by (auto simp: entries_ok_def plain_def)
    from readdir_loop_entries [OF this, of "[]"] es show ?thesis by simp
  qed
  show ?thesis unfolding stored_ok_def
  proof (intro conjI allI impI)
    fix p b assume "e p = Some b \<and> isdir p"
    with d obtain es where es: "t p = Some (Dir es)" "b = dir_bytes es" "readdir_loop b 0 = es" by blast
    from es show "b = dir_bytes (readdir_loop b 0)" by simp
    from tree_dir [OF assms(2) es(1)] es show "entries_ok (readdir_loop b 0)" by simp
    from tree_entry [OF assms(2) es(1)] holds_None [OF assms(1)] es(3)
    show "\<forall>(i, n) \<in> set (readdir_loop b 0). e i \<noteq> None \<and> i \<noteq> p" by blast
  next
    fix p q b c i n m
    assume a: "e p = Some b \<and> isdir p \<and> e q = Some c \<and> isdir q \<and> (i, n) \<in> set (readdir_loop b 0) \<and> (i, m) \<in> set (readdir_loop c 0)"
    then obtain es fs where "t p = Some (Dir es)" "t q = Some (Dir fs)" "(i, n) \<in> set es" "(i, m) \<in> set fs" using d by metis
    from tree_entry_unique [OF assms(2) this] show "p = q" "n = m" by simp_all
  qed
qed

text \<open>(C17) What is stored stays well typed: after every session of allowed operations that starts on a well formed tree, each directory parses,
  into plain and distinct names; every entry leads to an extent that exists; and nothing is entered
  twice or in itself.\<close>

theorem stored_tree_well_typed:
  assumes "ys_ok s" "ys_held s = []" "holds_tree (ys_eff s) t" "tree_ok t" "allowed_run s t ops" "yfs_run ops s = Inr (rs, s')"
  shows "stored_ok (ys_eff s')"
  using run_follows [OF assms(1-5)] assms(6) stored_ok_tree by auto

section \<open>A session\<close>

text \<open>A file is created in the root and found again.\<close>

definition session :: "fop list" where
  "session = [Create 1 [102] True, Lookup 1 [102]]"

lemma session_start:
  "holds_tree (ys_eff (with_root [])) [1 \<mapsto> Dir []]" "tree_ok [1 \<mapsto> Dir []]"
  by (auto simp: holds_tree_def fun_eq_iff extent_of_def is_dir_node_def dir_bytes_def tree_ok_def entries_ok_def split: if_splits)

lemma session_allowed: "allowed_run (with_root []) [1 \<mapsto> Dir []] session"
proof -
  have p: "plain [102]" by (simp add: plain_def name_ok_def slash_def isdigit_def)
  have "inum_of True 77 \<noteq> 1" using isfile_inum_of [of True 77] isdir_1 by (auto simp: isdir_def)
  from fresh_with_root [OF this] have "fresh_inums (with_root []) True" .
  with p show ?thesis by (auto simp: session_def allowed_def tree_do_def entry_at_def)
qed

lemma session_answers: "tree_run [1 \<mapsto> Dir []] session rs t' \<Longrightarrow> \<exists>i. rs = [Made yOK i, Found True i]"
  by (auto simp: session_def tree_do_def entry_at_def split: if_splits)

theorem sessions_follow_tree_witness:
  "\<exists>i s'. yfs_run session (with_root []) = Inr ([Made yOK i, Found True i], s')"
  using sessions_follow_tree [OF with_root_simps(1,2) session_start session_allowed] session_answers by blast

theorem stored_tree_well_typed_witness:
  "\<exists>rs s'. yfs_run session (with_root []) = Inr (rs, s') \<and> stored_ok (ys_eff s')"
proof -
  obtain rs s' where r: "yfs_run session (with_root []) = Inr (rs, s')"
    using run_follows [OF with_root_simps(1,2) session_start session_allowed] by blast
  with stored_tree_well_typed [OF with_root_simps(1,2) session_start session_allowed r] show ?thesis by blast
qed

end
