(* ===== verification/File_Test.thy ===== *)
theory File_Test
  imports Dir_Format "HOL-Library.AList"
begin

text \<open>
  The test program \<^verbatim>\<open>test-lab-3-b.c\<close>, which creates, reads, extends, lists and removes files of one
  directory that is mounted twice. The system calls are an argument: a record of functions on the state
  of the operating system. The predicate \<open>posix\<close> is a system on which no call fails for want of resources and every write is taken whole, so
  that the calls do what their documentation says of successful ones, on a directory that both mount points show. Under it the part of the test that runs in
  one process passes. \<open>Fork_Test\<close> has the sections that fork.
\<close>

section \<open>System calls\<close>

datatype errno = EEXIST | EOTHER

datatype omode = RdOnly | WrAppend | WrCreat | WrOnly

text \<open>A call that fails gives \<open>None\<close> or an error number; \<open>o_list\<close> is \<^verbatim>\<open>opendir\<close>, \<^verbatim>\<open>readdir\<close> until it returns null,
  and \<^verbatim>\<open>closedir\<close>.\<close>

record 's os =
  o_creat :: "byte list \<Rightarrow> 's \<Rightarrow> (errno + nat) \<times> 's"
  o_open :: "byte list \<Rightarrow> omode \<Rightarrow> 's \<Rightarrow> (errno + nat) \<times> 's"
  o_read :: "nat \<Rightarrow> nat \<Rightarrow> 's \<Rightarrow> byte list option \<times> 's"
  o_write :: "nat \<Rightarrow> byte list \<Rightarrow> 's \<Rightarrow> nat option \<times> 's"
  o_lseek :: "nat \<Rightarrow> nat \<Rightarrow> 's \<Rightarrow> nat option \<times> 's"
  o_fsync :: "nat \<Rightarrow> 's \<Rightarrow> bool \<times> 's"
  o_close :: "nat \<Rightarrow> 's \<Rightarrow> bool \<times> 's"
  o_unlink :: "byte list \<Rightarrow> 's \<Rightarrow> bool \<times> 's"
  o_list :: "byte list \<Rightarrow> 's \<Rightarrow> byte list list option \<times> 's"

section \<open>The tests\<close>

text \<open>A test that fails exits with status 1, which is \<open>Abort\<close>. \<^verbatim>\<open>sprintf\<close> writes the name of the file into a
  buffer of 512 characters.\<close>

definition in_dir :: "byte list \<Rightarrow> byte list \<Rightarrow> byte list res" where
  "in_dir d f = (if 512 \<le> length d + 1 + length f then Inl OutOfBounds else Inr (d @ [slash] @ f))"

definition create1 :: "'s os \<Rightarrow> byte list \<Rightarrow> byte list \<Rightarrow> byte list \<Rightarrow> 's \<Rightarrow> 's res" where
  "create1 os d f inp s =
     rbind (in_dir d f) (\<lambda>n.
     case o_creat os n s of
       (Inl _, _) \<Rightarrow> Inl Abort
     | (Inr fd, s) \<Rightarrow>
         (case o_write os fd inp s of (r, s) \<Rightarrow>
            if r \<noteq> Some (length inp) then Inl Abort
            else case o_close os fd s of (ok, s) \<Rightarrow> if \<not> ok then Inl Abort else Inr s))"

text \<open>Whether \<^verbatim>\<open>strncmp\<close> finds no difference in at most \<open>n\<close> characters of two strings.\<close>

fun strncmp_eq :: "nat \<Rightarrow> byte list \<Rightarrow> byte list \<Rightarrow> bool" where
  "strncmp_eq 0 a b = True"
| "strncmp_eq (Suc n) a b =
     (let x = (case a of [] \<Rightarrow> 0 | c # _ \<Rightarrow> c); y = (case b of [] \<Rightarrow> 0 | c # _ \<Rightarrow> c) in
      x = y \<and> (x = 0 \<or> strncmp_eq n (tl a) (tl b)))"

text \<open>The number of characters compared is the length of the name, not of the contents. The size of the
  buffer, without the end of the string, is an argument: it differs between the two programs.\<close>

definition check1 :: "nat \<Rightarrow> 's os \<Rightarrow> byte list \<Rightarrow> byte list \<Rightarrow> byte list \<Rightarrow> 's \<Rightarrow> 's res" where
  "check1 bufsz os d f inp s =
     rbind (in_dir d f) (\<lambda>n.
     case o_open os n RdOnly s of
       (Inl _, _) \<Rightarrow> Inl Abort
     | (Inr fd, s) \<Rightarrow>
         (case o_read os fd bufsz s of (r, s) \<Rightarrow>
          case r of
            None \<Rightarrow> Inl Abort
          | Some buf \<Rightarrow>
              if length buf \<noteq> length inp then Inl Abort
              else case o_close os fd s of (_, s) \<Rightarrow>
                if \<not> strncmp_eq (length n) buf inp then Inl Abort else Inr s))"

definition unlink1 :: "'s os \<Rightarrow> byte list \<Rightarrow> byte list \<Rightarrow> 's \<Rightarrow> 's res" where
  "unlink1 os d f s =
     rbind (in_dir d f) (\<lambda>n. case o_unlink os n s of (ok, s) \<Rightarrow> if \<not> ok then Inl Abort else Inr s)"

definition checknot :: "'s os \<Rightarrow> byte list \<Rightarrow> byte list \<Rightarrow> 's \<Rightarrow> 's res" where
  "checknot os d f s =
     rbind (in_dir d f) (\<lambda>n. case o_open os n RdOnly s of (r, s) \<Rightarrow> case r of Inr _ \<Rightarrow> Inl Abort | Inl _ \<Rightarrow> Inr s)"

definition append1 :: "'s os \<Rightarrow> byte list \<Rightarrow> byte list \<Rightarrow> byte list \<Rightarrow> 's \<Rightarrow> 's res" where
  "append1 os d f inp s =
     rbind (in_dir d f) (\<lambda>n.
     case o_open os n WrAppend s of
       (Inl _, _) \<Rightarrow> Inl Abort
     | (Inr fd, s) \<Rightarrow>
         (case o_write os fd inp s of (r, s) \<Rightarrow>
            if r \<noteq> Some (length inp) then Inl Abort
            else case o_close os fd s of (ok, s) \<Rightarrow> if \<not> ok then Inl Abort else Inr s))"

fun write_loop :: "'s os \<Rightarrow> nat \<Rightarrow> byte \<Rightarrow> nat \<Rightarrow> 's \<Rightarrow> 's res" where
  "write_loop os fd c 0 s = Inr s"
| "write_loop os fd c (Suc n) s =
     (case o_write os fd [c] s of (r, s) \<Rightarrow>
        if r \<noteq> Some 1 then Inl Abort
        else case o_fsync os fd s of (ok, s) \<Rightarrow> if \<not> ok then Inl Abort else write_loop os fd c n s)"

definition write1 :: "'s os \<Rightarrow> byte list \<Rightarrow> byte list \<Rightarrow> nat \<Rightarrow> nat \<Rightarrow> byte \<Rightarrow> 's \<Rightarrow> 's res" where
  "write1 os d f start n c s =
     rbind (in_dir d f) (\<lambda>name.
     case (case o_open os name WrCreat s of
             (Inl EEXIST, s) \<Rightarrow> o_open os name WrOnly s
           | r \<Rightarrow> r) of
       (Inl _, _) \<Rightarrow> Inl Abort
     | (Inr fd, s) \<Rightarrow>
         (case o_lseek os fd start s of (r, s) \<Rightarrow>
            if r \<noteq> Some start then Inl Abort
            else rbind (write_loop os fd c n s) (\<lambda>s.
              case o_close os fd s of (ok, s) \<Rightarrow> if \<not> ok then Inl Abort else Inr s)))"

fun read_loop :: "'s os \<Rightarrow> nat \<Rightarrow> byte \<Rightarrow> nat \<Rightarrow> 's \<Rightarrow> 's res" where
  "read_loop os fd c 0 s = Inr s"
| "read_loop os fd c (Suc n) s =
     (case o_read os fd 1 s of (r, s) \<Rightarrow> if r \<noteq> Some [c] then Inl Abort else read_loop os fd c n s)"

definition checkread :: "'s os \<Rightarrow> byte list \<Rightarrow> byte list \<Rightarrow> nat \<Rightarrow> nat \<Rightarrow> byte \<Rightarrow> 's \<Rightarrow> 's res" where
  "checkread os d f start n c s =
     rbind (in_dir d f) (\<lambda>name.
     case o_open os name RdOnly s of
       (Inl _, _) \<Rightarrow> Inl Abort
     | (Inr fd, s) \<Rightarrow>
         (case o_lseek os fd start s of (r, s) \<Rightarrow>
            if r \<noteq> Some start then Inl Abort
            else rbind (read_loop os fd c n s) (\<lambda>s. case o_close os fd s of (_, s) \<Rightarrow> Inr s)))"

text \<open>The name of a numbered file, and the bytes of its number in memory.\<close>

definition numbered :: "byte list \<Rightarrow> nat \<Rightarrow> byte list" where
  "numbered prefix i = prefix @ [45] @ decimal i"

definition int_bytes :: "nat \<Rightarrow> byte list" where
  "int_bytes i = [of_nat i, of_nat (i div 256), of_nat (i div 65536), of_nat (i div 16777216)]"

fun createn :: "'s os \<Rightarrow> byte list \<Rightarrow> byte list \<Rightarrow> bool \<Rightarrow> nat list \<Rightarrow> 's \<Rightarrow> 's res" where
  "createn os d prefix possible_dup [] s = Inr s"
| "createn os d prefix possible_dup (i # is) s =
     rbind (in_dir d (numbered prefix i)) (\<lambda>n.
     case o_creat os n s of
       (Inl e, s) \<Rightarrow> if possible_dup \<and> e = EEXIST then createn os d prefix possible_dup is s else Inl Abort
     | (Inr fd, s) \<Rightarrow>
         (case o_write os fd (int_bytes i) s of (r, s) \<Rightarrow>
            if r \<noteq> Some 4 then Inl Abort
            else case o_close os fd s of (ok, s) \<Rightarrow>
              if \<not> ok then Inl Abort else createn os d prefix possible_dup is s))"

fun checkn :: "'s os \<Rightarrow> byte list \<Rightarrow> byte list \<Rightarrow> nat list \<Rightarrow> 's \<Rightarrow> 's res" where
  "checkn os d prefix [] s = Inr s"
| "checkn os d prefix (i # is) s =
     rbind (in_dir d (numbered prefix i)) (\<lambda>n.
     case o_open os n RdOnly s of
       (Inl _, _) \<Rightarrow> Inl Abort
     | (Inr fd, s) \<Rightarrow>
         (case o_read os fd 4 s of (r, s) \<Rightarrow>
          case r of
            None \<Rightarrow> Inl Abort
          | Some buf \<Rightarrow>
              if length buf \<noteq> 4 then Inl Abort
              else if buf \<noteq> int_bytes i then Inl Abort
              else case o_close os fd s of (_, s) \<Rightarrow> checkn os d prefix is s))"

fun unlinkn :: "'s os \<Rightarrow> byte list \<Rightarrow> byte list \<Rightarrow> nat list \<Rightarrow> 's \<Rightarrow> 's res" where
  "unlinkn os d prefix [] s = Inr s"
| "unlinkn os d prefix (i # is) s =
     rbind (in_dir d (numbered prefix i)) (\<lambda>n.
     case o_unlink os n s of (ok, s) \<Rightarrow> if \<not> ok then Inl Abort else unlinkn os d prefix is s)"

text \<open>\<^verbatim>\<open>names\<close> has room for 1000 names; a longer directory only prints a warning. Names are compared as C
  strings after sorting, so the check fails if one occurs twice.\<close>

definition dircheck :: "'s os \<Rightarrow> byte list \<Rightarrow> nat \<Rightarrow> 's \<Rightarrow> 's res" where
  "dircheck os d nf s =
     (case o_list os d s of
        (None, _) \<Rightarrow> Inl Abort
      | (Some es, s) \<Rightarrow>
          let names = filter (\<lambda>e. e = [] \<or> hd e \<noteq> 46) es in
          if 1000 < length names then Inl OutOfBounds
          else if nf \<noteq> length names then Inl Abort
          else if \<not> distinct names then Inl Abort
          else Inr s)"

section \<open>The program\<close>

text \<open>The tests that \<^verbatim>\<open>main\<close> makes before it forks for the first time; the flag says whether the second mount
  point is used.\<close>

datatype tcmd =
    Create1 bool string "byte list"
  | Check1 bool string "byte list"
  | Unlink1 bool string
  | Checknot bool string
  | Append1 bool string "byte list"
  | Dircheck bool nat
  | Createn bool string nat
  | Checkn bool string nat
  | Unlinkn bool string nat

definition run_cmd :: "'s os \<Rightarrow> byte list \<Rightarrow> byte list \<Rightarrow> tcmd \<Rightarrow> 's \<Rightarrow> 's res" where
  "run_cmd os d1 d2 cmd s =
     (case cmd of
        Create1 w f inp \<Rightarrow> create1 os (if w then d2 else d1) (bytes f) inp s
      | Check1 w f inp \<Rightarrow> check1 20999 os (if w then d2 else d1) (bytes f) inp s
      | Unlink1 w f \<Rightarrow> unlink1 os (if w then d2 else d1) (bytes f) s
      | Checknot w f \<Rightarrow> checknot os (if w then d2 else d1) (bytes f) s
      | Append1 w f inp \<Rightarrow> append1 os (if w then d2 else d1) (bytes f) inp s
      | Dircheck w n \<Rightarrow> dircheck os (if w then d2 else d1) n s
      | Createn w p n \<Rightarrow> createn os (if w then d2 else d1) (bytes p) False [0..<n] s
      | Checkn w p n \<Rightarrow> checkn os (if w then d2 else d1) (bytes p) [0..<n] s
      | Unlinkn w p n \<Rightarrow> unlinkn os (if w then d2 else d1) (bytes p) [0..<n] s)"

definition big :: "byte list" where
  "big = replicate 20000 120"

definition create_then_read :: "tcmd list" where
  "create_then_read = [Create1 False ''f1'' (bytes ''aaa''), Check1 True ''f1'' (bytes ''aaa''), Check1 False ''f1'' (bytes ''aaa'')]"

definition unlink_tests :: "tcmd list" where
  "unlink_tests =
     [Unlink1 True ''f1'', Create1 False ''fx1'' (bytes ''fxx''), Unlink1 False ''fx1'', Checknot False ''f1'', Checknot True ''f1'',
      Create1 False ''f2'' (bytes ''222''), Unlink1 True ''f2'', Checknot False ''f2'', Checknot True ''f2'',
      Create1 False ''f3'' (bytes ''333''), Check1 True ''f3'' (bytes ''333''), Check1 False ''f3'' (bytes ''333''), Unlink1 False ''f3'',
      Create1 True ''fx2'' (bytes ''22''), Unlink1 True ''fx2'', Checknot True ''f3'', Checknot False ''f3'']"

definition append_tests :: "tcmd list" where
  "append_tests =
     [Create1 True ''f1'' (bytes ''aaa''), Append1 False ''f1'' (bytes ''bbb''), Append1 True ''f1'' (bytes ''ccc''),
      Check1 False ''f1'' (bytes ''aaabbbccc''), Check1 True ''f1'' (bytes ''aaabbbccc'')]"

definition readdir_tests :: "tcmd list" where
  "readdir_tests =
     [Dircheck False 1, Dircheck True 1, Unlink1 False ''f1'', Dircheck False 0, Dircheck True 0,
      Create1 True ''f2'' (bytes ''aaa''), Create1 False ''f3'' (bytes ''aaa''), Dircheck False 2, Dircheck True 2,
      Unlink1 True ''f2'', Dircheck True 1, Dircheck False 1, Unlink1 True ''f3'', Dircheck False 0, Dircheck True 0]"

definition sequential_creates :: "tcmd list" where
  "sequential_creates =
     [Createn False ''aa'' 10, Createn True ''bb'' 10, Dircheck True 20, Checkn True ''bb'' 10, Checkn True ''aa'' 10,
      Checkn False ''aa'' 10, Checkn False ''bb'' 10, Unlinkn False ''aa'' 10, Unlinkn True ''bb'' 10]"

definition big_write :: "tcmd list" where
  "big_write = [Create1 False ''bf'' big, Check1 False ''bf'' big, Check1 True ''bf'' big, Unlink1 False ''bf'']"

definition main_script :: "tcmd list" where
  "main_script = create_then_read @ unlink_tests @ append_tests @ readdir_tests @ sequential_creates @ big_write"

section \<open>What the tests rely on\<close>

text \<open>A directory of names for files, the contents of files, and the open files with their offsets and
  whether they append.\<close>

record pstate =
  ps_dir :: "byte list \<rightharpoonup> nat"
  ps_data :: "nat \<Rightarrow> byte list"
  ps_fd :: "nat \<rightharpoonup> nat \<times> nat \<times> bool"

definition overwrite :: "byte list \<Rightarrow> nat \<Rightarrow> byte list \<Rightarrow> byte list" where
  "overwrite c off b = (if b = [] then c else take off (c @ replicate (off - length c) 0) @ b @ drop (off + length b) c)"

definition opened :: "pstate \<Rightarrow> nat \<Rightarrow> bool \<Rightarrow> errno + nat \<Rightarrow> pstate \<Rightarrow> bool" where
  "opened st i ap r st' \<longleftrightarrow> (\<exists>fd. ps_fd st fd = None \<and> r = Inr fd \<and> st' = st\<lparr>ps_fd := (ps_fd st)(fd \<mapsto> (i, 0, ap))\<rparr>)"

definition creat_post :: "pstate \<Rightarrow> byte list \<Rightarrow> errno + nat \<Rightarrow> pstate \<Rightarrow> bool" where
  "creat_post st n r st' \<longleftrightarrow>
     (\<exists>i. (case ps_dir st n of None \<Rightarrow> i \<notin> ran (ps_dir st) \<and> (\<forall>fd x. ps_fd st fd = Some x \<longrightarrow> fst x \<noteq> i) | Some j \<Rightarrow> i = j) \<and>
        opened (st\<lparr>ps_dir := (ps_dir st)(n \<mapsto> i), ps_data := (ps_data st)(i := [])\<rparr>) i False r st')"

definition open_post :: "pstate \<Rightarrow> byte list \<Rightarrow> omode \<Rightarrow> errno + nat \<Rightarrow> pstate \<Rightarrow> bool" where
  "open_post st n mode r st' \<longleftrightarrow>
     (case ps_dir st n of
        Some i \<Rightarrow> opened st i (mode = WrAppend) r st'
      | None \<Rightarrow> if mode = WrCreat then creat_post st n r st' else (\<exists>e. r = Inl e) \<and> st' = st)"

text \<open>The names the rules are about: not empty, not hidden, of at most 255 characters, none a slash.\<close>

definition fname :: "byte list \<Rightarrow> bool" where
  "fname f \<longleftrightarrow> f \<noteq> [] \<and> hd f \<noteq> 46 \<and> length f \<le> 255 \<and> slash \<notin> set f"

definition posix :: "'s os \<Rightarrow> ('s \<Rightarrow> pstate) \<Rightarrow> byte list set \<Rightarrow> bool" where
  "posix os ab ds \<longleftrightarrow>
     (\<forall>d \<in> ds. \<forall>f s r s'. fname f \<longrightarrow> o_creat os (d @ slash # f) s = (r, s') \<longrightarrow> creat_post (ab s) f r (ab s')) \<and>
     (\<forall>d \<in> ds. \<forall>f m s r s'. fname f \<longrightarrow> o_open os (d @ slash # f) m s = (r, s') \<longrightarrow> open_post (ab s) f m r (ab s')) \<and>
     (\<forall>d \<in> ds. \<forall>f s r s'. fname f \<longrightarrow> o_unlink os (d @ slash # f) s = (r, s') \<longrightarrow>
        (r \<longleftrightarrow> ps_dir (ab s) f \<noteq> None) \<and> ab s' = (ab s)\<lparr>ps_dir := (ps_dir (ab s))(f := None)\<rparr>) \<and>
     (\<forall>d \<in> ds. \<forall>s r s'. o_list os d s = (r, s') \<longrightarrow>
        ab s' = ab s \<and> (\<exists>l. r = Some l \<and> distinct l \<and> set l = dom (ps_dir (ab s)) \<union> {[46], [46, 46]})) \<and>
     (\<forall>fd i off ap s. ps_fd (ab s) fd = Some (i, off, ap) \<longrightarrow>
        (\<forall>k r s'. o_read os fd k s = (r, s') \<longrightarrow>
           r = Some (take k (drop off (ps_data (ab s) i))) \<and>
           ab s' = (ab s)\<lparr>ps_fd := (ps_fd (ab s))(fd \<mapsto> (i, off + min k (length (ps_data (ab s) i) - off), ap))\<rparr>) \<and>
        (\<forall>b r s'. o_write os fd b s = (r, s') \<longrightarrow>
           (let at = (if ap then length (ps_data (ab s) i) else off) in
            r = Some (length b) \<and>
            ab s' = (ab s)\<lparr>ps_data := (ps_data (ab s))(i := overwrite (ps_data (ab s) i) at b),
              ps_fd := (ps_fd (ab s))(fd \<mapsto> (i, at + length b, ap))\<rparr>)) \<and>
        (\<forall>k r s'. o_lseek os fd k s = (r, s') \<longrightarrow>
           r = Some k \<and> ab s' = (ab s)\<lparr>ps_fd := (ps_fd (ab s))(fd \<mapsto> (i, k, ap))\<rparr>) \<and>
        (\<forall>r s'. o_fsync os fd s = (r, s') \<longrightarrow> r \<and> ab s' = ab s) \<and>
        (\<forall>r s'. o_close os fd s = (r, s') \<longrightarrow> r \<and> ab s' = (ab s)\<lparr>ps_fd := (ps_fd (ab s))(fd := None)\<rparr>))"

text \<open>No file is open, and no file has two names.\<close>

definition idle :: "pstate \<Rightarrow> bool" where
  "idle st \<longleftrightarrow> ps_fd st = Map.empty \<and> inj_on (ps_dir st) (dom (ps_dir st))"

definition contents :: "pstate \<Rightarrow> byte list \<rightharpoonup> byte list" where
  "contents st f = map_option (ps_data st) (ps_dir st f)"

section \<open>Each test under these rules\<close>

lemma posix_names:
  assumes "posix os ab ds" "d \<in> ds" "fname f"
  shows "o_creat os (d @ slash # f) s = (r, s') \<Longrightarrow> creat_post (ab s) f r (ab s')"
    and "o_open os (d @ slash # f) m s = (r, s') \<Longrightarrow> open_post (ab s) f m r (ab s')"
    and "o_unlink os (d @ slash # f) s = (ok, s') \<Longrightarrow>
      (ok \<longleftrightarrow> ps_dir (ab s) f \<noteq> None) \<and> ab s' = (ab s)\<lparr>ps_dir := (ps_dir (ab s))(f := None)\<rparr>"
proof -
  note p = assms(1) [unfolded posix_def]
  show "o_creat os (d @ slash # f) s = (r, s') \<Longrightarrow> creat_post (ab s) f r (ab s')"
    by (rule p [THEN conjunct1, rule_format, OF assms(2,3)])
  show "o_open os (d @ slash # f) m s = (r, s') \<Longrightarrow> open_post (ab s) f m r (ab s')"
    by (rule p [THEN conjunct2, THEN conjunct1, rule_format, OF assms(2,3)])
  show "o_unlink os (d @ slash # f) s = (ok, s') \<Longrightarrow>
      (ok \<longleftrightarrow> ps_dir (ab s) f \<noteq> None) \<and> ab s' = (ab s)\<lparr>ps_dir := (ps_dir (ab s))(f := None)\<rparr>"
    by (rule p [THEN conjunct2, THEN conjunct2, THEN conjunct1, THEN bspec, OF assms(2), THEN spec, THEN spec,
      THEN spec, THEN spec, THEN mp, OF assms(3), THEN mp])
qed

lemma posix_list:
  assumes "posix os ab ds" "d \<in> ds" "o_list os d s = (l, s')"
  shows "ab s' = ab s \<and> (\<exists>es. l = Some es \<and> distinct es \<and> set es = dom (ps_dir (ab s)) \<union> {[46], [46, 46]})"
  by (rule assms(1) [unfolded posix_def, THEN conjunct2, THEN conjunct2, THEN conjunct2, THEN conjunct1, THEN bspec,
    OF assms(2), THEN spec, THEN spec, THEN spec, THEN mp, OF assms(3)])

lemma posix_files:
  assumes "posix os ab ds" "ps_fd (ab s) fd = Some (i, off, ap)"
  shows "o_read os fd k s = (r, s') \<Longrightarrow>
      r = Some (take k (drop off (ps_data (ab s) i))) \<and>
      ab s' = (ab s)\<lparr>ps_fd := (ps_fd (ab s))(fd \<mapsto> (i, off + min k (length (ps_data (ab s) i) - off), ap))\<rparr>"
    and "o_write os fd b s = (w, s') \<Longrightarrow> at = (if ap then length (ps_data (ab s) i) else off) \<Longrightarrow>
      w = Some (length b) \<and> ab s' = (ab s)\<lparr>ps_data := (ps_data (ab s))(i := overwrite (ps_data (ab s) i) at b),
        ps_fd := (ps_fd (ab s))(fd \<mapsto> (i, at + length b, ap))\<rparr>"
    and "o_close os fd s = (ok, s') \<Longrightarrow> ok \<and> ab s' = (ab s)\<lparr>ps_fd := (ps_fd (ab s))(fd := None)\<rparr>"
    and "o_lseek os fd n s = (w, s') \<Longrightarrow> w = Some n \<and> ab s' = (ab s)\<lparr>ps_fd := (ps_fd (ab s))(fd \<mapsto> (i, n, ap))\<rparr>"
    and "o_fsync os fd s = (ok, s') \<Longrightarrow> ok \<and> ab s' = ab s"
proof -
  note p = assms(1) [unfolded posix_def, THEN conjunct2, THEN conjunct2, THEN conjunct2, THEN conjunct2,
    THEN spec, THEN spec, THEN spec, THEN spec, THEN spec, THEN mp, OF assms(2)]
  show "o_read os fd k s = (r, s') \<Longrightarrow>
      r = Some (take k (drop off (ps_data (ab s) i))) \<and>
      ab s' = (ab s)\<lparr>ps_fd := (ps_fd (ab s))(fd \<mapsto> (i, off + min k (length (ps_data (ab s) i) - off), ap))\<rparr>"
    by (rule p [THEN conjunct1, THEN spec, THEN spec, THEN spec, THEN mp])
  show "o_write os fd b s = (w, s') \<Longrightarrow> at = (if ap then length (ps_data (ab s) i) else off) \<Longrightarrow>
      w = Some (length b) \<and> ab s' = (ab s)\<lparr>ps_data := (ps_data (ab s))(i := overwrite (ps_data (ab s) i) at b),
        ps_fd := (ps_fd (ab s))(fd \<mapsto> (i, at + length b, ap))\<rparr>"
    using p [THEN conjunct2, THEN conjunct1, unfolded Let_def, THEN spec, THEN spec, THEN spec, THEN mp] by simp
  show "o_close os fd s = (ok, s') \<Longrightarrow> ok \<and> ab s' = (ab s)\<lparr>ps_fd := (ps_fd (ab s))(fd := None)\<rparr>"
    by (rule p [THEN conjunct2, THEN conjunct2, THEN conjunct2, THEN conjunct2, THEN spec, THEN spec, THEN mp])
  show "o_lseek os fd n s = (w, s') \<Longrightarrow> w = Some n \<and> ab s' = (ab s)\<lparr>ps_fd := (ps_fd (ab s))(fd \<mapsto> (i, n, ap))\<rparr>"
    by (rule p [THEN conjunct2, THEN conjunct2, THEN conjunct1, THEN spec, THEN spec, THEN spec, THEN mp])
  show "o_fsync os fd s = (ok, s') \<Longrightarrow> ok \<and> ab s' = ab s"
    by (rule p [THEN conjunct2, THEN conjunct2, THEN conjunct2, THEN conjunct1, THEN spec, THEN spec, THEN mp])
qed

lemma in_dir_ok: "length d + length f < 511 \<Longrightarrow> in_dir d f = Inr (d @ slash # f)"
  by (simp add: in_dir_def)

lemma overwrite_simps [simp]: "overwrite [] 0 b = b" "overwrite c (length c) b = c @ b"
  by (simp_all add: overwrite_def)

lemma one_name_file:
  assumes "inj_on (ps_dir st) (dom (ps_dir st))" "ps_dir st f = Some i"
  shows "contents (st\<lparr>ps_data := (ps_data st)(i := b)\<rparr>) = (contents st)(f \<mapsto> b)"
proof
  fix g
  have "g = f" if "ps_dir st g = Some i" using inj_onD [of "ps_dir st" "dom (ps_dir st)" g f] assms that by auto
  then show "contents (st\<lparr>ps_data := (ps_data st)(i := b)\<rparr>) g = ((contents st)(f \<mapsto> b)) g"
    using assms(2) by (cases "ps_dir st g") (auto simp: contents_def)
qed

lemmas idle_file = one_name_file [OF conjunct2 [OF iffD1 [OF idle_def]]]

lemma fd_frames [simp]:
  "contents (st\<lparr>ps_fd := x\<rparr>) = contents st" "idle (st\<lparr>ps_data := y\<rparr>) = idle st"
  "ps_fd st = Map.empty \<Longrightarrow> st\<lparr>ps_fd := Map.empty\<rparr> = st"
  by (auto simp: contents_def idle_def fun_eq_iff)

lemma contents_None: "contents st f = None \<longleftrightarrow> ps_dir st f = None"
  by (simp add: contents_def)

text \<open>Creating or emptying a file, writing to it and closing it.\<close>

lemma creat_write_close:
  assumes "posix os ab ds" "d \<in> ds" "fname f" "idle (ab s)"
  shows "\<exists>fd s1 s2 s3. o_creat os (d @ slash # f) s = (Inr fd, s1) \<and> o_write os fd b s1 = (Some (length b), s2) \<and>
    o_close os fd s2 = (True, s3) \<and> idle (ab s3) \<and> contents (ab s3) = (contents (ab s))(f \<mapsto> b)"
proof -
  obtain r s1 where 1: "o_creat os (d @ slash # f) s = (r, s1)" by fastforce
  from posix_names(1) [OF assms(1-3) 1] obtain i fd where
    i: "case ps_dir (ab s) f of None \<Rightarrow> i \<notin> ran (ps_dir (ab s)) | Some j \<Rightarrow> i = j" "r = Inr fd"
    "ab s1 = (ab s)\<lparr>ps_dir := (ps_dir (ab s))(f \<mapsto> i), ps_data := (ps_data (ab s))(i := []), ps_fd := [fd \<mapsto> (i, 0, False)]\<rparr>"
    using assms(4) unfolding creat_post_def opened_def idle_def by (cases "ps_dir (ab s) f") auto
  obtain w s2 where 2: "o_write os fd b s1 = (w, s2)" by fastforce
  note w = posix_files(2) [OF assms(1) _ 2, of i 0 False]
  have w: "w = Some (length b)" "ab s2 = (ab s1)\<lparr>ps_data := (ps_data (ab s1))(i := b), ps_fd := [fd \<mapsto> (i, length b, False)]\<rparr>"
    using w by (auto simp: i(3))
  obtain c s3 where 3: "o_close os fd s2 = (c, s3)" by fastforce
  have c: "c" "ab s3 = (ab s)\<lparr>ps_dir := (ps_dir (ab s))(f \<mapsto> i), ps_data := (ps_data (ab s))(i := b)\<rparr>"
    using posix_files(3) [OF assms(1) _ 3, of i "length b" False] assms(4) by (auto simp: w(2) i(3) idle_def)
  have inj: "idle ((ab s)\<lparr>ps_dir := (ps_dir (ab s))(f \<mapsto> i)\<rparr>)"
    using assms(4) i(1) unfolding idle_def inj_on_def by (auto simp: ran_def dom_def split: option.splits if_splits)
  have "contents (ab s3) = (contents ((ab s)\<lparr>ps_dir := (ps_dir (ab s))(f \<mapsto> i)\<rparr>))(f \<mapsto> b)"
    using idle_file [OF inj, of f i b] by (simp add: c(2))
  also have "\<dots> = (contents (ab s))(f \<mapsto> b)" by (auto simp: contents_def)
  finally have "contents (ab s3) = (contents (ab s))(f \<mapsto> b)" .
  moreover have "idle (ab s3)" using inj by (simp add: c(2))
  ultimately show ?thesis using 1 2 3 i(2) w(1) c(1)
    by (intro exI [of _ fd] exI [of _ s1] exI [of _ s2] exI [of _ s3]) simp
qed

text \<open>Opening a file and reading from its start.\<close>

lemma open_read_close:
  assumes "posix os ab ds" "d \<in> ds" "fname f" "idle (ab s)" "contents (ab s) f = Some b"
  shows "\<exists>fd s1 s2 ok s3. o_open os (d @ slash # f) RdOnly s = (Inr fd, s1) \<and> o_read os fd k s1 = (Some (take k b), s2) \<and>
    o_close os fd s2 = (ok, s3) \<and> ab s3 = ab s"
proof -
  obtain r s1 where 1: "o_open os (d @ slash # f) RdOnly s = (r, s1)" by fastforce
  from assms(5) obtain i where i: "ps_dir (ab s) f = Some i" "ps_data (ab s) i = b" by (auto simp: contents_def)
  from posix_names(2) [OF assms(1-3) 1] i(1) assms(4) obtain fd where
    fd: "r = Inr fd" "ab s1 = (ab s)\<lparr>ps_fd := [fd \<mapsto> (i, 0, False)]\<rparr>"
    unfolding open_post_def opened_def idle_def by auto
  obtain w s2 where 2: "o_read os fd k s1 = (w, s2)" by fastforce
  have w: "w = Some (take k b)" "ab s2 = (ab s)\<lparr>ps_fd := [fd \<mapsto> (i, min k (length b), False)]\<rparr>"
    using posix_files(1) [OF assms(1) _ 2, of i 0 False] i(2) by (auto simp: fd(2))
  obtain c s3 where 3: "o_close os fd s2 = (c, s3)" by fastforce
  have "ab s3 = ab s"
    using posix_files(3) [OF assms(1) _ 3, of i "min k (length b)" False] assms(4) by (auto simp: w(2) idle_def)
  with 1 2 3 fd(1) w(1) show ?thesis by blast
qed

lemma open_missing:
  assumes "posix os ab ds" "d \<in> ds" "fname f" "contents (ab s) f = None"
  shows "\<exists>e s1. o_open os (d @ slash # f) RdOnly s = (Inl e, s1) \<and> ab s1 = ab s"
proof -
  obtain r s1 where 1: "o_open os (d @ slash # f) RdOnly s = (r, s1)" by fastforce
  with posix_names(2) [OF assms(1-3) 1] assms(4) show ?thesis by (auto simp: open_post_def contents_None)
qed

lemma open_append_close:
  assumes "posix os ab ds" "d \<in> ds" "fname f" "idle (ab s)" "contents (ab s) f = Some c"
  shows "\<exists>fd s1 s2 s3. o_open os (d @ slash # f) WrAppend s = (Inr fd, s1) \<and> o_write os fd b s1 = (Some (length b), s2) \<and>
    o_close os fd s2 = (True, s3) \<and> idle (ab s3) \<and> contents (ab s3) = (contents (ab s))(f \<mapsto> c @ b)"
proof -
  obtain r s1 where 1: "o_open os (d @ slash # f) WrAppend s = (r, s1)" by fastforce
  from assms(5) obtain i where i: "ps_dir (ab s) f = Some i" "ps_data (ab s) i = c" by (auto simp: contents_def)
  from posix_names(2) [OF assms(1-3) 1] i(1) assms(4) obtain fd where
    fd: "r = Inr fd" "ab s1 = (ab s)\<lparr>ps_fd := [fd \<mapsto> (i, 0, True)]\<rparr>"
    unfolding open_post_def opened_def idle_def by auto
  obtain w s2 where 2: "o_write os fd b s1 = (w, s2)" by fastforce
  have w: "w = Some (length b)" "ab s2 = (ab s)\<lparr>ps_data := (ps_data (ab s))(i := c @ b), ps_fd := [fd \<mapsto> (i, length c + length b, True)]\<rparr>"
    using posix_files(2) [OF assms(1) _ 2, of i 0 True] i(2) by (auto simp: fd(2))
  obtain ok s3 where 3: "o_close os fd s2 = (ok, s3)" by fastforce
  have ok: "ok" "ab s3 = (ab s)\<lparr>ps_data := (ps_data (ab s))(i := c @ b)\<rparr>"
    using posix_files(3) [OF assms(1) _ 3, of i "length c + length b" True] assms(4) by (auto simp: w(2) idle_def)
  with idle_file [OF assms(4) i(1)] assms(4) 1 2 3 fd(1) w(1) show ?thesis
    by (intro exI [of _ fd] exI [of _ s1] exI [of _ s2] exI [of _ s3]) simp
qed

text \<open>One file of the directory at a time.\<close>

lemma create1_ok:
  assumes "posix os ab ds" "d \<in> ds" "fname f" "idle (ab s)" "length d < 256"
  shows "\<exists>s'. create1 os d f b s = Inr s' \<and> idle (ab s') \<and> contents (ab s') = (contents (ab s))(f \<mapsto> b)"
proof -
  have n: "in_dir d f = Inr (d @ slash # f)" using assms(3,5) by (intro in_dir_ok) (simp add: fname_def)
  from creat_write_close [OF assms(1-4), of b] show ?thesis by (elim exE conjE) (simp add: create1_def n)
qed

lemma append1_ok:
  assumes "posix os ab ds" "d \<in> ds" "fname f" "idle (ab s)" "contents (ab s) f = Some c" "length d < 256"
  shows "\<exists>s'. append1 os d f b s = Inr s' \<and> idle (ab s') \<and> contents (ab s') = (contents (ab s))(f \<mapsto> c @ b)"
proof -
  have n: "in_dir d f = Inr (d @ slash # f)" using assms(3,6) by (intro in_dir_ok) (simp add: fname_def)
  from open_append_close [OF assms(1-5), of b] show ?thesis by (elim exE conjE) (simp add: append1_def n)
qed

lemma strncmp_eq_refl [simp]: "strncmp_eq n a a"
  by (induction n arbitrary: a) auto

lemma check1_ok:
  assumes "posix os ab ds" "d \<in> ds" "fname f" "idle (ab s)" "contents (ab s) f = Some b" "length d < 256" "length b \<le> k"
  shows "\<exists>s'. check1 k os d f b s = Inr s' \<and> ab s' = ab s"
proof -
  have n: "in_dir d f = Inr (d @ slash # f)" using assms(3,6) by (intro in_dir_ok) (simp add: fname_def)
  from open_read_close [OF assms(1-5), of k] assms(7) show ?thesis by (elim exE conjE) (simp add: check1_def n)
qed

lemma unlink1_ok:
  assumes "posix os ab ds" "d \<in> ds" "fname f" "idle (ab s)" "contents (ab s) f \<noteq> None" "length d < 256"
  shows "\<exists>s'. unlink1 os d f s = Inr s' \<and> idle (ab s') \<and> contents (ab s') = (contents (ab s))(f := None)"
proof -
  have n: "in_dir d f = Inr (d @ slash # f)" using assms(3,6) by (intro in_dir_ok) (simp add: fname_def)
  obtain r s1 where 1: "o_unlink os (d @ slash # f) s = (r, s1)" by fastforce
  have r: "r" "ab s1 = (ab s)\<lparr>ps_dir := (ps_dir (ab s))(f := None)\<rparr>"
    using posix_names(3) [OF assms(1-3) 1] assms(5) by (auto simp: contents_def)
  have "idle (ab s1)" using assms(4) by (auto simp: r(2) idle_def inj_on_def dom_def split: if_splits)
  moreover have "contents (ab s1) = (contents (ab s))(f := None)" by (auto simp: r(2) contents_def)
  ultimately show ?thesis by (simp add: unlink1_def n 1 r(1))
qed

lemma checknot_ok:
  assumes "posix os ab ds" "d \<in> ds" "fname f" "contents (ab s) f = None" "length d < 256"
  shows "\<exists>s'. checknot os d f s = Inr s' \<and> ab s' = ab s"
proof -
  have n: "in_dir d f = Inr (d @ slash # f)" using assms(3,5) by (intro in_dir_ok) (simp add: fname_def)
  from open_missing [OF assms(1-4)] show ?thesis by (elim exE conjE) (simp add: checknot_def n)
qed

text \<open>A run of numbered files is the single tests in turn.\<close>

lemma createn_Cons:
  assumes "posix os ab ds" "d \<in> ds" "fname (numbered p i)" "idle (ab s)"
  shows "createn os d p dup (i # is) s = rbind (create1 os d (numbered p i) (int_bytes i) s) (createn os d p dup is)"
proof -
  from creat_write_close [OF assms, of "int_bytes i"] show ?thesis
    by (elim exE conjE) (auto simp: create1_def in_dir_def int_bytes_def)
qed

lemma unlinkn_Cons:
  "unlinkn os d p (i # is) s = rbind (unlink1 os d (numbered p i) s) (unlinkn os d p is)"
  by (cases "in_dir d (numbered p i)") (auto simp: unlink1_def split: prod.splits)

definition put_all :: "byte list \<Rightarrow> nat list \<Rightarrow> (byte list \<rightharpoonup> byte list) \<Rightarrow> byte list \<rightharpoonup> byte list" where
  "put_all p is = fold (\<lambda>i m. m(numbered p i \<mapsto> int_bytes i)) is"

lemma createn_ok:
  assumes "posix os ab ds" "d \<in> ds" "\<forall>i \<in> set is. fname (numbered p i)" "idle (ab s)" "length d < 256"
  shows "\<exists>s'. createn os d p dup is s = Inr s' \<and> idle (ab s') \<and> contents (ab s') = put_all p is (contents (ab s))"
  using assms(3,4)
proof (induction "is" arbitrary: s)
  case Nil
  then show ?case by (simp add: put_all_def)
next
  case (Cons i "is")
  from create1_ok [OF assms(1,2) _ Cons.prems(2) assms(5), of "numbered p i" "int_bytes i"] Cons.prems(1)
  obtain s1 where 1: "create1 os d (numbered p i) (int_bytes i) s = Inr s1" "idle (ab s1)"
    "contents (ab s1) = (contents (ab s))(numbered p i \<mapsto> int_bytes i)" by auto
  have "createn os d p dup (i # is) s = createn os d p dup is s1"
    using createn_Cons [OF assms(1,2) _ Cons.prems(2), of p i dup "is"] Cons.prems(1) by (simp add: 1(1))
  moreover have "put_all p (i # is) (contents (ab s)) = put_all p is (contents (ab s1))" by (simp add: put_all_def 1(3) del: fun_upd_apply)
  moreover have "\<forall>j \<in> set is. fname (numbered p j)" using Cons.prems(1) by simp
  ultimately show ?case using Cons.IH [OF _ 1(2)] by (simp only:)
qed

lemma checkn_ok:
  assumes "posix os ab ds" "d \<in> ds" "length d < 256" "idle (ab s)"
    "\<forall>i \<in> set is. fname (numbered p i) \<and> contents (ab s) (numbered p i) = Some (int_bytes i)"
  shows "\<exists>s'. checkn os d p is s = Inr s' \<and> ab s' = ab s"
  using assms(4,5)
proof (induction "is" arbitrary: s)
  case Nil
  then show ?case by simp
next
  case (Cons i "is")
  then have i: "fname (numbered p i)" "contents (ab s) (numbered p i) = Some (int_bytes i)" by auto
  have n: "in_dir d (numbered p i) = Inr (d @ slash # numbered p i)"
    using i(1) assms(3) by (intro in_dir_ok) (simp add: fname_def)
  have l: "length (int_bytes i) = 4" "take 4 (int_bytes i) = int_bytes i" by (simp_all add: int_bytes_def)
  from open_read_close [OF assms(1,2) i(1) Cons.prems(1) i(2), of 4]
  obtain fd s1 s2 ok s3 where o: "o_open os (d @ slash # numbered p i) RdOnly s = (Inr fd, s1)"
    "o_read os fd 4 s1 = (Some (int_bytes i), s2)" "o_close os fd s2 = (ok, s3)" "ab s3 = ab s"
    unfolding l(2) by blast
  have "checkn os d p (i # is) s = checkn os d p is s3" using l(1) by (simp add: n o)
  with Cons.IH [of s3] Cons.prems show ?case by (simp add: o(4))
qed

lemma unlinkn_ok:
  assumes "posix os ab ds" "d \<in> ds" "length d < 256" "idle (ab s)" "distinct (map (numbered p) is)"
    "\<forall>i \<in> set is. fname (numbered p i) \<and> contents (ab s) (numbered p i) \<noteq> None"
  shows "\<exists>s'. unlinkn os d p is s = Inr s' \<and> idle (ab s') \<and>
    contents (ab s') = contents (ab s) |` (- (numbered p ` set is))"
  using assms(4-6)
proof (induction "is" arbitrary: s)
  case Nil
  then show ?case by (simp add: restrict_map_def)
next
  case (Cons i "is")
  from unlink1_ok [OF assms(1,2) _ Cons.prems(1) _ assms(3), of "numbered p i"] Cons.prems(3)
  obtain s1 where 1: "unlink1 os d (numbered p i) s = Inr s1" "idle (ab s1)"
    "contents (ab s1) = (contents (ab s))(numbered p i := None)" by auto
  have "\<forall>j \<in> set is. fname (numbered p j) \<and> contents (ab s1) (numbered p j) \<noteq> None"
    using Cons.prems(2,3) by (auto simp: 1(3) image_iff)
  from Cons.IH [OF 1(2) _ this] Cons.prems(2) obtain s2 where
    2: "unlinkn os d p is s1 = Inr s2" "idle (ab s2)" "contents (ab s2) = contents (ab s1) |` (- (numbered p ` set is))"
    by auto
  have "contents (ab s2) = contents (ab s) |` (- (numbered p ` set (i # is)))"
    unfolding 2(3) 1(3) by (auto simp: restrict_map_def fun_eq_iff)
  with 2 show ?case by (simp add: unlinkn_Cons 1(1) del: unlinkn.simps)
qed

lemma dircheck_ok:
  assumes "posix os ab ds" "d \<in> ds" "\<forall>f \<in> dom (contents (ab s)). fname f" "card (dom (contents (ab s))) = nf" "nf \<le> 1000"
  shows "\<exists>s'. dircheck os d nf s = Inr s' \<and> ab s' = ab s"
proof -
  obtain l s1 where 1: "o_list os d s = (l, s1)" by fastforce
  from posix_list [OF assms(1,2) 1] obtain es where
    es: "l = Some es" "distinct es" "set es = dom (ps_dir (ab s)) \<union> {[46], [46, 46]}" "ab s1 = ab s" by blast
  let ?n = "filter (\<lambda>e. e = [] \<or> hd e \<noteq> 46) es"
  have dom: "dom (contents (ab s)) = dom (ps_dir (ab s))" by (auto simp: contents_def)
  have "set ?n = dom (ps_dir (ab s))" using assms(3) unfolding dom by (auto simp: es(3) fname_def)
  then have "length ?n = nf" using distinct_card [of ?n] es(2) assms(4) by (simp add: dom)
  then show ?thesis using es assms(5) by (simp add: dircheck_def 1)
qed

text \<open>Writing and reading one character at a time.\<close>

lemma fd_again [simp]: "(\<lambda>a. if a = k then Some x else None)(k \<mapsto> y) = [k \<mapsto> y]"
  by auto

lemma overwrite_more: "overwrite (overwrite b k [c]) (Suc k) (replicate n c) = overwrite b k (replicate (Suc n) c)"
proof -
  let ?h = "take k (b @ replicate (k - length b) 0)"
  have h: "length ?h = k" by simp
  have "take (Suc k) (?h @ c # drop (Suc k) b) = ?h @ [c]" "drop (Suc k + n) (?h @ c # drop (Suc k) b) = drop (k + Suc n) b"
    using h by (simp_all add: add.commute)
  then show ?thesis by (simp add: overwrite_def)
qed

lemma write_loop_ok:
  assumes "posix os ab ds"
  shows "ab s = st\<lparr>ps_fd := [fd \<mapsto> (i, k, False)]\<rparr> \<Longrightarrow> \<exists>s'. write_loop os fd c n s = Inr s' \<and>
    ab s' = st\<lparr>ps_data := (ps_data st)(i := overwrite (ps_data st i) k (replicate n c)), ps_fd := [fd \<mapsto> (i, k + n, False)]\<rparr>"
proof (induction n arbitrary: s st k)
  case 0
  then show ?case by (simp add: overwrite_def)
next
  case (Suc n)
  obtain w s1 where 1: "o_write os fd [c] s = (w, s1)" by fastforce
  obtain ok s2 where 2: "o_fsync os fd s1 = (ok, s2)" by fastforce
  let ?st = "st\<lparr>ps_data := (ps_data st)(i := overwrite (ps_data st i) k [c])\<rparr>"
  have w: "w = Some 1" "ab s1 = ?st\<lparr>ps_fd := [fd \<mapsto> (i, Suc k, False)]\<rparr>"
    using posix_files(2) [OF assms _ 1, of i k False k] by (auto simp: Suc.prems)
  have ok: "ok" "ab s2 = ab s1" using posix_files(5) [OF assms _ 2, of i "Suc k" False] by (simp_all add: w(2))
  from Suc.IH [OF trans [OF ok(2) w(2)]] obtain s3 where 3: "write_loop os fd c n s2 = Inr s3"
    "ab s3 = ?st\<lparr>ps_data := (ps_data ?st)(i := overwrite (ps_data ?st i) (Suc k) (replicate n c)), ps_fd := [fd \<mapsto> (i, Suc k + n, False)]\<rparr>"
    by blast
  have "write_loop os fd c (Suc n) s = Inr s3" by (simp add: 1 2 w(1) ok(1) 3(1))
  moreover have "ab s3 = st\<lparr>ps_data := (ps_data st)(i := overwrite (ps_data st i) k (replicate (Suc n) c)),
      ps_fd := [fd \<mapsto> (i, k + Suc n, False)]\<rparr>"
    unfolding 3(2) by (simp add: overwrite_more fun_upd_def cong: if_cong)
  ultimately show ?case by blast
qed

lemma read_loop_ok:
  assumes "posix os ab ds"
  shows "ab s = st\<lparr>ps_fd := [fd \<mapsto> (i, k, False)]\<rparr> \<Longrightarrow> take n (drop k (ps_data st i)) = replicate n c \<Longrightarrow>
    \<exists>s'. read_loop os fd c n s = Inr s' \<and> ab s' = st\<lparr>ps_fd := [fd \<mapsto> (i, k + n, False)]\<rparr>"
proof (induction n arbitrary: s k)
  case 0
  then show ?case by simp
next
  case (Suc n)
  obtain w s1 where 1: "o_read os fd (Suc 0) s = (w, s1)" by fastforce
  obtain r where d: "drop k (ps_data st i) = c # r" "take n r = replicate n c"
    using Suc.prems(2) by (cases "drop k (ps_data st i)") auto
  have l: "k < length (ps_data st i)" using arg_cong [OF d(1), of length] by simp
  have "drop (Suc k) (ps_data st i) = r" using d(1) by (metis drop_Suc tl_drop list.sel(3))
  then have r: "take n (drop (Suc k) (ps_data st i)) = replicate n c" using d(2) by simp
  have w: "w = Some [c]" "ab s1 = st\<lparr>ps_fd := [fd \<mapsto> (i, Suc k, False)]\<rparr>"
    using posix_files(1) [OF assms _ 1, of i k False] d(1) l by (auto simp: Suc.prems(1))
  from Suc.IH [OF w(2) r] show ?case by (simp add: 1 w(1))
qed

lemma write1_ok:
  assumes "posix os ab ds" "d \<in> ds" "fname f" "idle (ab s)" "contents (ab s) f = Some b" "length d < 256"
  shows "\<exists>s'. write1 os d f start n c s = Inr s' \<and> idle (ab s') \<and>
    contents (ab s') = (contents (ab s))(f \<mapsto> overwrite b start (replicate n c))"
proof -
  have nm: "in_dir d f = Inr (d @ slash # f)" using assms(3,6) by (intro in_dir_ok) (simp add: fname_def)
  from assms(5) obtain i where i: "ps_dir (ab s) f = Some i" "ps_data (ab s) i = b" by (auto simp: contents_def)
  obtain r s1 where 1: "o_open os (d @ slash # f) WrCreat s = (r, s1)" by fastforce
  from posix_names(2) [OF assms(1-3) 1] i(1) assms(4) obtain fd where
    fd: "r = Inr fd" "ab s1 = (ab s)\<lparr>ps_fd := [fd \<mapsto> (i, 0, False)]\<rparr>"
    unfolding open_post_def opened_def idle_def by auto
  obtain w s2 where 2: "o_lseek os fd start s1 = (w, s2)" by fastforce
  have w: "w = Some start" "ab s2 = (ab s)\<lparr>ps_fd := [fd \<mapsto> (i, start, False)]\<rparr>"
    using posix_files(4) [OF assms(1) _ 2, of i 0 False] by (auto simp: fd(2))
  from write_loop_ok [OF assms(1) w(2), of c n] obtain s3 where 3: "write_loop os fd c n s2 = Inr s3"
    "ab s3 = (ab s)\<lparr>ps_data := (ps_data (ab s))(i := overwrite b start (replicate n c)), ps_fd := [fd \<mapsto> (i, start + n, False)]\<rparr>"
    by (auto simp: i(2))
  obtain ok s4 where 4: "o_close os fd s3 = (ok, s4)" by fastforce
  have ok: "ok" "ab s4 = (ab s)\<lparr>ps_data := (ps_data (ab s))(i := overwrite b start (replicate n c))\<rparr>"
    using posix_files(3) [OF assms(1) _ 4, of i "start + n" False] assms(4) by (auto simp: 3(2) idle_def)
  have "write1 os d f start n c s = Inr s4" by (simp add: write1_def nm 1 fd(1) 2 w(1) 3(1) 4 ok(1))
  moreover have "contents (ab s4) = (contents (ab s))(f \<mapsto> overwrite b start (replicate n c))"
    unfolding ok(2) by (rule idle_file [OF assms(4) i(1)])
  moreover have "idle (ab s4)" using assms(4) by (simp add: ok(2))
  ultimately show ?thesis by blast
qed

lemma checkread_ok:
  assumes "posix os ab ds" "d \<in> ds" "fname f" "idle (ab s)" "contents (ab s) f = Some b" "length d < 256"
    "take n (drop start b) = replicate n c"
  shows "\<exists>s'. checkread os d f start n c s = Inr s' \<and> ab s' = ab s"
proof -
  have nm: "in_dir d f = Inr (d @ slash # f)" using assms(3,6) by (intro in_dir_ok) (simp add: fname_def)
  from assms(5) obtain i where i: "ps_dir (ab s) f = Some i" "ps_data (ab s) i = b" by (auto simp: contents_def)
  obtain r s1 where 1: "o_open os (d @ slash # f) RdOnly s = (r, s1)" by fastforce
  from posix_names(2) [OF assms(1-3) 1] i(1) assms(4) obtain fd where
    fd: "r = Inr fd" "ab s1 = (ab s)\<lparr>ps_fd := [fd \<mapsto> (i, 0, False)]\<rparr>"
    unfolding open_post_def opened_def idle_def by auto
  obtain w s2 where 2: "o_lseek os fd start s1 = (w, s2)" by fastforce
  have w: "w = Some start" "ab s2 = (ab s)\<lparr>ps_fd := [fd \<mapsto> (i, start, False)]\<rparr>"
    using posix_files(4) [OF assms(1) _ 2, of i 0 False] by (auto simp: fd(2))
  from read_loop_ok [OF assms(1) w(2), of n c] assms(7) obtain s3 where 3: "read_loop os fd c n s2 = Inr s3"
    "ab s3 = (ab s)\<lparr>ps_fd := [fd \<mapsto> (i, start + n, False)]\<rparr>" by (auto simp: i(2))
  obtain ok s4 where 4: "o_close os fd s3 = (ok, s4)" by fastforce
  have "ab s4 = ab s" using posix_files(3) [OF assms(1) _ 4, of i "start + n" False] assms(4) by (auto simp: 3(2) idle_def)
  then show ?thesis by (simp add: checkread_def nm 1 fd(1) 2 w(1) 3(1) 4)
qed

lemma overwrite_read: "take n (drop k (overwrite b k (replicate n c))) = replicate n c"
  by (simp add: overwrite_def)

section \<open>The whole program\<close>

text \<open>What each test asks of the files, given as a list of their names and contents, and what it leaves:
  \<open>None\<close> if the test must fail.\<close>

fun cmd_spec :: "tcmd \<Rightarrow> (byte list \<times> byte list) list \<Rightarrow> (byte list \<times> byte list) list option" where
  "cmd_spec (Create1 w f b) al = (if fname (bytes f) then Some (AList.update (bytes f) b al) else None)"
| "cmd_spec (Check1 w f b) al =
     (if fname (bytes f) \<and> map_of al (bytes f) = Some b \<and> length b \<le> 20999 then Some al else None)"
| "cmd_spec (Unlink1 w f) al =
     (if fname (bytes f) \<and> map_of al (bytes f) \<noteq> None then Some (AList.delete (bytes f) al) else None)"
| "cmd_spec (Checknot w f) al = (if fname (bytes f) \<and> map_of al (bytes f) = None then Some al else None)"
| "cmd_spec (Append1 w f b) al =
     (case map_of al (bytes f) of
        Some c \<Rightarrow> if fname (bytes f) then Some (AList.update (bytes f) (c @ b) al) else None
      | None \<Rightarrow> None)"
| "cmd_spec (Dircheck w n) al = (if length al = n \<and> n \<le> 1000 then Some al else None)"
| "cmd_spec (Createn w p n) al =
     (if list_all (\<lambda>i. fname (numbered (bytes p) i)) [0..<n]
      then Some (fold (\<lambda>i. AList.update (numbered (bytes p) i) (int_bytes i)) [0..<n] al) else None)"
| "cmd_spec (Checkn w p n) al =
     (if list_all (\<lambda>i. fname (numbered (bytes p) i) \<and> map_of al (numbered (bytes p) i) = Some (int_bytes i)) [0..<n]
      then Some al else None)"
| "cmd_spec (Unlinkn w p n) al =
     (if distinct (map (numbered (bytes p)) [0..<n]) \<and>
         list_all (\<lambda>i. fname (numbered (bytes p) i) \<and> map_of al (numbered (bytes p) i) \<noteq> None) [0..<n]
      then Some (fold (\<lambda>i. AList.delete (numbered (bytes p) i)) [0..<n] al) else None)"

fun script_spec :: "tcmd list \<Rightarrow> (byte list \<times> byte list) list \<Rightarrow> (byte list \<times> byte list) list option" where
  "script_spec [] al = Some al"
| "script_spec (c # cs) al = Option.bind (cmd_spec c al) (script_spec cs)"

fun run_script :: "'s os \<Rightarrow> byte list \<Rightarrow> byte list \<Rightarrow> tcmd list \<Rightarrow> 's \<Rightarrow> 's res" where
  "run_script os d1 d2 [] s = Inr s"
| "run_script os d1 d2 (c # cs) s = rbind (run_cmd os d1 d2 c s) (run_script os d1 d2 cs)"

definition stands :: "pstate \<Rightarrow> (byte list \<times> byte list) list \<Rightarrow> bool" where
  "stands st al \<longleftrightarrow> idle st \<and> contents st = map_of al \<and> distinct (map fst al) \<and> (\<forall>f \<in> fst ` set al. fname f)"

lemma fold_delete_all: "map_of (fold (\<lambda>i. AList.delete (g i)) is al) = map_of al |` (- (g ` set is))"
  by (induction "is" arbitrary: al) (auto simp: AList.delete_conv' restrict_map_def fun_eq_iff)

lemma fold_update_all: "map_of (fold (\<lambda>i. AList.update (numbered p i) (int_bytes i)) is al) = put_all p is (map_of al)"
  by (induction "is" arbitrary: al) (simp_all add: put_all_def AList.update_conv' del: fun_upd_apply)

lemma fold_update_keys:
  "distinct (map fst al) \<Longrightarrow> \<forall>f \<in> fst ` set al. fname f \<Longrightarrow> \<forall>i \<in> set is. fname (g i) \<Longrightarrow>
   al' = fold (\<lambda>i. AList.update (g i) (v i)) is al \<Longrightarrow> distinct (map fst al') \<and> (\<forall>f \<in> fst ` set al'. fname f)"
proof (induction "is" arbitrary: al)
  case (Cons i "is")
  show ?case by (rule Cons.IH [of "AList.update (g i) (v i) al"]) (use Cons.prems in \<open>auto simp: AList.distinct_update AList.dom_update\<close>)
qed auto

lemma fold_delete_keys:
  "distinct (map fst al) \<Longrightarrow> \<forall>f \<in> fst ` set al. fname f \<Longrightarrow> al' = fold (\<lambda>i. AList.delete (g i)) is al \<Longrightarrow>
   distinct (map fst al') \<and> (\<forall>f \<in> fst ` set al'. fname f)"
proof (induction "is" arbitrary: al)
  case (Cons i "is")
  have "fst ` set (AList.delete (g i) al) \<subseteq> fst ` set al" by (auto simp: AList.delete_eq)
  then have "\<forall>f \<in> fst ` set (AList.delete (g i) al). fname f" using Cons.prems(2) by blast
  then show ?case
    by (rule Cons.IH [rotated]) (use Cons.prems in \<open>auto simp: AList.distinct_delete\<close>)
qed auto

lemma bytes_inject [simp]: "bytes a = bytes b \<longleftrightarrow> a = b"
  using chars_bytes [of a] chars_bytes [of b] by metis

lemma fname_bytes:
  "fname (bytes f) \<longleftrightarrow> f \<noteq> [] \<and> hd f \<noteq> CHR ''.'' \<and> length f \<le> 255 \<and> CHR ''/'' \<notin> set f"
proof -
  define g :: "char \<Rightarrow> byte" where "g c = word_of_nat (of_char c)" for c
  have map: "bytes x = map g x" for x by (simp add: bytes_def g_def)
  have g: "g x = g y \<longleftrightarrow> x = y" for x y using bytes_inject [of "[x]" "[y]"] by (simp add: map)
  have "46 = g (CHR ''.'')" "slash = g (CHR ''/'')" by (simp_all add: g_def slash_def)
  then have "g x = 46 \<longleftrightarrow> x = CHR ''.''" "slash = g x \<longleftrightarrow> x = CHR ''/''" for x using g by metis+
  note g = this
  have "slash \<notin> set (map g f) \<longleftrightarrow> CHR ''/'' \<notin> set f" by (auto simp add: g(2))
  then show ?thesis by (cases f) (simp_all add: fname_def map g(1))
qed

lemma take_bytes: "take n (bytes a) = bytes (take n a)"
  by (simp add: bytes_def take_map)

lemma bytes_append: "bytes (a @ b) = bytes a @ bytes b"
  by (simp add: bytes_def)

lemma single_files_eval: "script_spec (create_then_read @ unlink_tests @ append_tests @ readdir_tests) [] = Some []"
  by (simp add: create_then_read_def unlink_tests_def append_tests_def readdir_tests_def fname_bytes bytes_append [symmetric])

lemma numbered_eval: "n < 10 \<Longrightarrow> numbered (bytes p) n = bytes (p @ ''-'') @ [48 + of_nat n]"
  by (subst numbered_def, subst decimal.simps) (simp add: bytes_def)

lemma ten: "[0..<10] = [0, 1, 2, 3, 4, 5, 6, 7, 8, 9]"
  by (simp add: upt_rec)

lemma aa_names:
  "map (numbered (bytes ''aa'')) [0, 1, 2, 3, 4, 5, 6, 7, 8, 9] = map (\<lambda>c. [97, 97, 45, c]) [48, 49, 50, 51, 52, 53, 54, 55, 56, 57]"
  by (simp add: numbered_eval) (simp add: bytes_def)

lemma bb_names:
  "map (numbered (bytes ''bb'')) [0, 1, 2, 3, 4, 5, 6, 7, 8, 9] = map (\<lambda>c. [98, 98, 45, c]) [48, 49, 50, 51, 52, 53, 54, 55, 56, 57]"
  by (simp add: numbered_eval) (simp add: bytes_def)

lemma sequential_eval: "script_spec sequential_creates [] = Some []"
  using aa_names bb_names by (simp add: sequential_creates_def ten fname_def slash_def)

lemma big_eval: "script_spec big_write [] = Some []"
  by (simp add: big_write_def fname_bytes big_def)

lemma script_spec_append: "script_spec (xs @ ys) al = Option.bind (script_spec xs al) (script_spec ys)"
  by (induction xs arbitrary: al) (auto simp: bind_eq_Some_conv split: bind_splits)

lemma main_eval: "script_spec main_script [] = Some []"
proof -
  let ?f = "create_then_read @ unlink_tests @ append_tests @ readdir_tests"
  have m: "main_script = ?f @ sequential_creates @ big_write" by (simp add: main_script_def)
  have "script_spec (?f @ sequential_creates @ big_write) [] = script_spec (sequential_creates @ big_write) []"
    unfolding script_spec_append [of ?f] single_files_eval by (rule Option.bind.simps(2))
  also have "\<dots> = script_spec big_write []"
    unfolding script_spec_append sequential_eval by (rule Option.bind.simps(2))
  finally show ?thesis unfolding m big_eval .
qed

lemma stands_update:
  "stands st al \<Longrightarrow> fname f \<Longrightarrow> idle st' \<Longrightarrow> contents st' = (contents st)(f \<mapsto> b) \<Longrightarrow> stands st' (AList.update f b al)"
  by (auto simp: stands_def AList.update_conv' AList.distinct_update AList.dom_update)

lemma stands_delete:
  "stands st al \<Longrightarrow> idle st' \<Longrightarrow> contents st' = (contents st)(f := None) \<Longrightarrow> stands st' (AList.delete f al)"
  using fold_delete_keys [of al _ "\<lambda>_. f" "[()]"] by (auto simp: stands_def AList.delete_conv')

lemma run_cmd_ok:
  assumes "posix os ab ds" "d1 \<in> ds" "d2 \<in> ds" "length d1 < 256" "length d2 < 256"
    "stands (ab s) al" "cmd_spec c al = Some al'"
  shows "\<exists>s'. run_cmd os d1 d2 c s = Inr s' \<and> stands (ab s') al'"
proof -
  define d where "d w = (if w then d2 else d1)" for w
  have d: "d w \<in> ds" "length (d w) < 256" for w using assms(2-5) by (simp_all add: d_def)
  note st = assms(6) [unfolded stands_def]
  have idle: "idle (ab s)" and con: "contents (ab s) = map_of al" using st by auto
  note run = run_cmd_def d_def [symmetric]
  show ?thesis
  proof (cases c)
    case (Create1 w f b)
    with assms(7) have "fname (bytes f)" "al' = AList.update (bytes f) b al" by (auto split: if_splits)
    with create1_ok [OF assms(1) d(1) _ idle d(2), of "bytes f" w b] stands_update [OF assms(6)] Create1 show ?thesis
      by (auto simp: run)
  next
    case (Check1 w f b)
    with assms(7) have "fname (bytes f)" "map_of al (bytes f) = Some b" "length b \<le> 20999" "al' = al" by (auto split: if_splits)
    with check1_ok [OF assms(1) d(1) _ idle _ d(2), of "bytes f" b 20999 w] assms(6) Check1 con show ?thesis
      by (auto simp: run)
  next
    case (Unlink1 w f)
    with assms(7) have "fname (bytes f)" "map_of al (bytes f) \<noteq> None" "al' = AList.delete (bytes f) al" by (auto split: if_splits)
    with unlink1_ok [OF assms(1) d(1) _ idle _ d(2), of "bytes f" w] stands_delete [OF assms(6)] Unlink1 con show ?thesis
      by (auto simp: run)
  next
    case (Checknot w f)
    with assms(7) have "fname (bytes f)" "map_of al (bytes f) = None" "al' = al" by (auto split: if_splits)
    with checknot_ok [OF assms(1) d(1) _ _ d(2), of "bytes f" s w] assms(6) Checknot con show ?thesis
      by (auto simp: run)
  next
    case (Append1 w f b)
    with assms(7) obtain c where "fname (bytes f)" "map_of al (bytes f) = Some c" "al' = AList.update (bytes f) (c @ b) al"
      by (auto split: if_splits option.splits)
    with append1_ok [OF assms(1) d(1) _ idle _ d(2), of "bytes f" c w b] stands_update [OF assms(6)] Append1 con show ?thesis
      by (auto simp: run)
  next
    case (Dircheck w n)
    with assms(7) have n: "length al = n" "n \<le> 1000" "al' = al" by (auto split: if_splits)
    have "card (dom (contents (ab s))) = n" "\<forall>f \<in> dom (contents (ab s)). fname f"
      using st n(1) distinct_card [of "map fst al"] by (auto simp: dom_map_of_conv_image_fst)
    with dircheck_ok [OF assms(1) d(1) _ _ n(2), of s w] n(3) assms(6) Dircheck show ?thesis
      by (auto simp: run)
  next
    case (Createn w p n)
    with assms(7) have n: "\<forall>i \<in> set [0..<n]. fname (numbered (bytes p) i)"
      "al' = fold (\<lambda>i. AList.update (numbered (bytes p) i) (int_bytes i)) [0..<n] al" by (auto simp: list_all_iff split: if_splits)
    have "distinct (map fst al') \<and> (\<forall>f \<in> fst ` set al'. fname f)" using fold_update_keys [OF _ _ n] st by blast
    with createn_ok [OF assms(1) d(1) n(1) idle d(2), of w False] Createn show ?thesis
      by (auto simp: run stands_def con n(2) fold_update_all)
  next
    case (Checkn w p n)
    with assms(7) have n: "\<forall>i \<in> set [0..<n]. fname (numbered (bytes p) i) \<and> contents (ab s) (numbered (bytes p) i) = Some (int_bytes i)"
      "al' = al" by (auto simp: list_all_iff con split: if_splits)
    with checkn_ok [OF assms(1) d idle n(1), of w] Checkn assms(6) show ?thesis by (auto simp: run)
  next
    case (Unlinkn w p n)
    with assms(7) have n: "\<forall>i \<in> set [0..<n]. fname (numbered (bytes p) i) \<and> contents (ab s) (numbered (bytes p) i) \<noteq> None"
      "distinct (map (numbered (bytes p)) [0..<n])" "al' = fold (\<lambda>i. AList.delete (numbered (bytes p) i)) [0..<n] al"
      by (auto simp: list_all_iff con split: if_splits)
    have "distinct (map fst al') \<and> (\<forall>f \<in> fst ` set al'. fname f)" using fold_delete_keys [OF _ _ n(3)] st by blast
    with unlinkn_ok [OF assms(1) d idle n(2,1), of w] Unlinkn st show ?thesis
      by (auto simp: run stands_def con n(3) fold_delete_all)
  qed
qed

lemma run_script_ok:
  assumes "posix os ab ds" "d1 \<in> ds" "d2 \<in> ds" "length d1 < 256" "length d2 < 256"
    "stands (ab s) al" "script_spec cs al = Some al'"
  shows "\<exists>s'. run_script os d1 d2 cs s = Inr s' \<and> stands (ab s') al'"
  using assms(6,7)
proof (induction cs arbitrary: s al)
  case (Cons c cs)
  then obtain al1 where 1: "cmd_spec c al = Some al1" "script_spec cs al1 = Some al'" by (auto simp: bind_eq_Some_conv)
  from run_cmd_ok [OF assms(1-5) Cons.prems(1) 1(1)] obtain s1 where "run_cmd os d1 d2 c s = Inr s1" "stands (ab s1) al1" by blast
  with Cons.IH [OF this(2) 1(2)] show ?case by simp
qed auto

lemma strncmp_eq_take: "take n a = take n b \<Longrightarrow> strncmp_eq n a b"
  by (induction n arbitrary: a b) (auto simp: take_Suc Let_def split: list.splits if_splits)

lemma check1_prefix:
  assumes "posix os ab ds" "d \<in> ds" "fname f" "idle (ab s)" "contents (ab s) f = Some b" "length d < 256" "length b \<le> k"
    "length b = length inp" "take (length d + 1 + length f) b = take (length d + 1 + length f) inp"
  shows "\<exists>s'. check1 k os d f inp s = Inr s' \<and> ab s' = ab s"
proof -
  have n: "in_dir d f = Inr (d @ slash # f)" using assms(3,6) by (intro in_dir_ok) (simp add: fname_def)
  have "strncmp_eq (length (d @ slash # f)) b inp" using assms(9) by (intro strncmp_eq_take) simp
  then show ?thesis using open_read_close [OF assms(1-5), of k] assms(7,8) by (elim exE conjE) (simp add: check1_def n)
qed

section \<open>A system that follows the rules\<close>

text \<open>A directory held in memory; the mount point is what precedes the first slash of a path.\<close>

type_synonym mem = "(byte list \<times> nat) list \<times> (nat \<Rightarrow> byte list) \<times> (nat \<times> nat \<times> nat \<times> bool) list"

definition base :: "byte list \<Rightarrow> byte list" where
  "base p = tl (dropWhile (\<lambda>c. c \<noteq> slash) p)"

definition new_fd :: "(nat \<times> nat \<times> nat \<times> bool) list \<Rightarrow> nat" where
  "new_fd fds = Suc (sum_list (map fst fds))"

definition new_ino :: "mem \<Rightarrow> nat" where
  "new_ino s = (case s of (dir, _, fds) \<Rightarrow> Suc (sum_list (map snd dir) + sum_list (map (fst \<circ> snd) fds)))"

definition mem_creat :: "byte list \<Rightarrow> mem \<Rightarrow> (errno + nat) \<times> mem" where
  "mem_creat p s =
     (case s of (dir, data, fds) \<Rightarrow>
        let f = base p; i = (case map_of dir f of Some j \<Rightarrow> j | None \<Rightarrow> new_ino s) in
        (Inr (new_fd fds), AList.update f i dir, data(i := []), (new_fd fds, i, 0, False) # fds))"

definition mem_open :: "byte list \<Rightarrow> omode \<Rightarrow> mem \<Rightarrow> (errno + nat) \<times> mem" where
  "mem_open p m s =
     (case s of (dir, data, fds) \<Rightarrow>
        case map_of dir (base p) of
          Some i \<Rightarrow> (Inr (new_fd fds), dir, data, (new_fd fds, i, 0, m = WrAppend) # fds)
        | None \<Rightarrow> if m = WrCreat then mem_creat p s else (Inl EOTHER, s))"

definition mem_read :: "nat \<Rightarrow> nat \<Rightarrow> mem \<Rightarrow> byte list option \<times> mem" where
  "mem_read fd k s =
     (case s of (dir, data, fds) \<Rightarrow>
        case map_of fds fd of
          None \<Rightarrow> (None, s)
        | Some (i, off, ap) \<Rightarrow>
            (Some (take k (drop off (data i))), dir, data, (fd, i, off + min k (length (data i) - off), ap) # fds))"

definition mem_write :: "nat \<Rightarrow> byte list \<Rightarrow> mem \<Rightarrow> nat option \<times> mem" where
  "mem_write fd b s =
     (case s of (dir, data, fds) \<Rightarrow>
        case map_of fds fd of
          None \<Rightarrow> (None, s)
        | Some (i, off, ap) \<Rightarrow>
            let at = (if ap then length (data i) else off) in
            (Some (length b), dir, data(i := overwrite (data i) at b), (fd, i, at + length b, ap) # fds))"

definition mem_lseek :: "nat \<Rightarrow> nat \<Rightarrow> mem \<Rightarrow> nat option \<times> mem" where
  "mem_lseek fd k s =
     (case s of (dir, data, fds) \<Rightarrow>
        case map_of fds fd of None \<Rightarrow> (None, s) | Some (i, off, ap) \<Rightarrow> (Some k, dir, data, (fd, i, k, ap) # fds))"

definition mem_close :: "nat \<Rightarrow> mem \<Rightarrow> bool \<times> mem" where
  "mem_close fd s =
     (case s of (dir, data, fds) \<Rightarrow> (map_of fds fd \<noteq> None, dir, data, AList.delete fd fds))"

definition mem_unlink :: "byte list \<Rightarrow> mem \<Rightarrow> bool \<times> mem" where
  "mem_unlink p s =
     (case s of (dir, data, fds) \<Rightarrow> (map_of dir (base p) \<noteq> None, AList.delete (base p) dir, data, fds))"

definition mem_list :: "byte list \<Rightarrow> mem \<Rightarrow> byte list list option \<times> mem" where
  "mem_list d s = (Some (remdups ([46] # [46, 46] # map fst (fst s))), s)"

definition mem_os :: "mem os" where
  "mem_os = \<lparr>o_creat = mem_creat, o_open = mem_open, o_read = mem_read, o_write = mem_write, o_lseek = mem_lseek,
     o_fsync = (\<lambda>fd s. (map_of (snd (snd s)) fd \<noteq> None, s)), o_close = mem_close, o_unlink = mem_unlink, o_list = mem_list\<rparr>"

definition mem_abs :: "mem \<Rightarrow> pstate" where
  "mem_abs s = \<lparr>ps_dir = map_of (fst s), ps_data = fst (snd s), ps_fd = map_of (snd (snd s))\<rparr>"

lemma base_path: "slash \<notin> set d \<Longrightarrow> base (d @ slash # f) = f"
  by (induction d) (auto simp: base_def)

lemma new_fd_free: "map_of fds (new_fd fds) = None"
proof -
  have "x \<le> sum_list (map fst fds)" if "x \<in> fst ` set fds" for x using member_le_sum_list [of x "map fst fds"] that by simp
  then have "new_fd fds \<notin> fst ` set fds" unfolding new_fd_def by (metis Suc_n_not_le_n)
  then show ?thesis by (simp add: map_of_eq_None_iff)
qed

lemma new_ino_free:
  "new_ino (dir, data, fds) \<notin> ran (map_of dir)" "map_of fds fd = Some x \<Longrightarrow> fst x \<noteq> new_ino (dir, data, fds)"
proof -
  have "i \<le> sum_list (map snd dir)" if "i \<in> ran (map_of dir)" for i
    using member_le_sum_list [of i "map snd dir"] that by (force simp: ran_def dest: map_of_SomeD)
  then show "new_ino (dir, data, fds) \<notin> ran (map_of dir)" by (fastforce simp: new_ino_def)
  have "fst x \<le> sum_list (map (fst \<circ> snd) fds)" if "map_of fds fd = Some x"
    using member_le_sum_list [of "fst x" "map (fst \<circ> snd) fds"] map_of_SomeD [OF that] by force
  then show "map_of fds fd = Some x \<Longrightarrow> fst x \<noteq> new_ino (dir, data, fds)" by (fastforce simp: new_ino_def)
qed

lemma mem_creat_post:
  assumes "base p = f"
  shows "mem_creat p s = (r, s') \<Longrightarrow> creat_post (mem_abs s) f r (mem_abs s')"
proof -
  assume c: "mem_creat p s = (r, s')"
  obtain dir data fds where s: "s = (dir, data, fds)" by (cases s)
  define i where "i = (case map_of dir f of Some j \<Rightarrow> j | None \<Rightarrow> new_ino (dir, data, fds))"
  have r: "r = Inr (new_fd fds)" "s' = (AList.update f i dir, data(i := []), (new_fd fds, i, 0, False) # fds)"
    using c by (auto simp: mem_creat_def s assms i_def Let_def)
  have "case ps_dir (mem_abs s) f of None \<Rightarrow> i \<notin> ran (ps_dir (mem_abs s)) \<and> (\<forall>fd x. ps_fd (mem_abs s) fd = Some x \<longrightarrow> fst x \<noteq> i)
    | Some j \<Rightarrow> i = j"
    using new_ino_free(1) [of dir data fds] new_ino_free(2) [where dir = dir and data = data and fds = fds] by (auto simp: mem_abs_def s i_def split: option.splits)
  moreover have "opened ((mem_abs s)\<lparr>ps_dir := (ps_dir (mem_abs s))(f \<mapsto> i), ps_data := (ps_data (mem_abs s))(i := [])\<rparr>) i False r (mem_abs s')"
    using new_fd_free [of fds] by (simp add: opened_def r mem_abs_def s AList.update_conv')
  ultimately show ?thesis unfolding creat_post_def by blast
qed

lemma mem_open_post:
  assumes "base p = f"
  shows "mem_open p m s = (r, s') \<Longrightarrow> open_post (mem_abs s) f m r (mem_abs s')"
  using mem_creat_post [OF assms, of s r s'] new_fd_free [of "snd (snd s)"] assms
  by (auto simp: mem_open_def open_post_def opened_def mem_abs_def split: option.splits if_splits prod.splits)

lemma mem_posix: "\<forall>d \<in> ds. slash \<notin> set d \<Longrightarrow> posix mem_os mem_abs ds"
  unfolding posix_def mem_os_def os.simps
proof (intro conjI ballI allI impI)
  fix d f and s s' :: mem and r
  assume "\<forall>d \<in> ds. slash \<notin> set d" "d \<in> ds"
  then have b: "base (d @ slash # f) = f" by (simp add: base_path)
  show "mem_creat (d @ slash # f) s = (r, s') \<Longrightarrow> creat_post (mem_abs s) f r (mem_abs s')" by (rule mem_creat_post [OF b])
  show "mem_open (d @ slash # f) m s = (r, s') \<Longrightarrow> open_post (mem_abs s) f m r (mem_abs s')" for m by (rule mem_open_post [OF b])
qed (auto simp: base_path mem_unlink_def mem_list_def mem_read_def mem_write_def
    mem_lseek_def mem_close_def mem_abs_def AList.delete_conv' dom_map_of_conv_image_fst Let_def split: prod.splits)

text \<open>On an operating system that follows the rules of \<^verbatim>\<open>open\<close>, \<^verbatim>\<open>read\<close>, \<^verbatim>\<open>write\<close>, \<^verbatim>\<open>close\<close>, \<^verbatim>\<open>unlink\<close> and
  \<^verbatim>\<open>readdir\<close> for one directory mounted at two points, started with the directory empty and no file open,
  every test of \<^verbatim>\<open>test-lab-3-b\<close> up to the first fork passes and leaves the directory empty again.\<close>

theorem single_process_tests_pass:
  assumes "posix os ab {d1, d2}" "length d1 < 256" "length d2 < 256"
    "ps_fd (ab s) = Map.empty" "ps_dir (ab s) = Map.empty"
  shows "\<exists>s'. run_script os d1 d2 main_script s = Inr s' \<and>
    ps_dir (ab s') = Map.empty \<and> ps_fd (ab s') = Map.empty"
proof -
  have "stands (ab s) []" using assms(4,5) by (auto simp: stands_def idle_def contents_def)
  from run_script_ok [OF assms(1) _ _ assms(2,3) this main_eval] obtain s' where
    "run_script os d1 d2 main_script s = Inr s'" "stands (ab s') []" by auto
  moreover from this(2) have "ps_dir (ab s') = Map.empty" "ps_fd (ab s') = Map.empty"
    by (auto simp: stands_def idle_def contents_def fun_eq_iff)
  ultimately show ?thesis by blast
qed

theorem single_process_tests_pass_witness:
  "\<exists>s'. run_script mem_os (bytes ''yfs1'') (bytes ''yfs2'') main_script ([], \<lambda>_. [], []) = Inr s' \<and>
    ps_dir (mem_abs s') = Map.empty \<and> ps_fd (mem_abs s') = Map.empty"
proof -
  have "posix mem_os mem_abs {bytes ''yfs1'', bytes ''yfs2''}"
    by (rule mem_posix) (simp add: bytes_def slash_def)
  then show ?thesis by (rule single_process_tests_pass) (simp_all add: mem_abs_def)
qed

text \<open>\<^verbatim>\<open>check1\<close> of \<^verbatim>\<open>test-lab-3-b\<close> compares only as many characters as the path has: a file whose contents
  agree with the expected ones so far and have the same length passes, whatever follows.\<close>

lemma check1_compares_a_prefix:
  assumes "posix os ab {d}" "fname f" "idle (ab s)" "contents (ab s) f = Some b" "length d < 256" "length b \<le> 20999"
    "length b = length inp" "take (length d + 1 + length f) b = take (length d + 1 + length f) inp"
  shows "\<exists>s'. check1 20999 os d f inp s = Inr s' \<and> ab s' = ab s"
  using check1_prefix [OF assms(1) _ assms(2-8)] by simp

lemma check1_compares_a_prefix_example:
  "\<exists>s'. check1 20999 mem_os (bytes ''y'') (bytes ''f1'') (bytes ''aaabbbccc'') ([(bytes ''f1'', 1)], \<lambda>_. bytes ''aaabxxxxx'', []) = Inr s' \<and>
     mem_abs s' = mem_abs ([(bytes ''f1'', 1)], \<lambda>_. bytes ''aaabxxxxx'', [])"
proof (rule check1_compares_a_prefix [where b = "bytes ''aaabxxxxx''"])
  show "posix mem_os mem_abs {bytes ''y''}" by (rule mem_posix) (simp add: bytes_def slash_def)
  show "idle (mem_abs ([(bytes ''f1'', 1)], \<lambda>_. bytes ''aaabxxxxx'', []))" by (simp add: idle_def mem_abs_def)
  show "fname (bytes ''f1'')" by (simp add: fname_bytes)
qed (simp_all add: contents_def mem_abs_def take_bytes)

end
