(* ===== verification/Fork_Test.thy ===== *)
theory Fork_Test
  imports File_Test
begin

text \<open>
  The sections of \<^verbatim>\<open>test-lab-3-b.c\<close> in which a child process and its parent create numbered files at the
  same time. A process is its \<^verbatim>\<open>createn\<close> cut at its system calls, which are atomic; a schedule says
  which process makes the next call. Every schedule is free of failures, and one that gives each
  process enough turns ends with all files in place, also when both processes create the same ones.
\<close>

section \<open>A process between two system calls\<close>

text \<open>The next call creates the file of the first number to do, writes to it, or closes it.\<close>

datatype point = AtCreat | AtWrite nat | AtClose nat

record cproc =
  cp_dir :: "byte list"
  cp_prefix :: "byte list"
  cp_dup :: bool
  cp_todo :: "nat list"
  cp_at :: point

definition createn_step :: "'s os \<Rightarrow> cproc \<Rightarrow> 's \<Rightarrow> (cproc \<times> 's) res" where
  "createn_step os p s =
     (case cp_todo p of
        [] \<Rightarrow> Inr (p, s)
      | i # is \<Rightarrow>
          (case cp_at p of
             AtCreat \<Rightarrow>
               rbind (in_dir (cp_dir p) (numbered (cp_prefix p) i)) (\<lambda>n.
               case o_creat os n s of
                 (Inl e, s) \<Rightarrow> if cp_dup p \<and> e = EEXIST then Inr (p\<lparr>cp_todo := is\<rparr>, s) else Inl Abort
               | (Inr fd, s) \<Rightarrow> Inr (p\<lparr>cp_at := AtWrite fd\<rparr>, s))
           | AtWrite fd \<Rightarrow>
               (case o_write os fd (int_bytes i) s of (r, s) \<Rightarrow>
                  if r \<noteq> Some 4 then Inl Abort else Inr (p\<lparr>cp_at := AtClose fd\<rparr>, s))
           | AtClose fd \<Rightarrow>
               (case o_close os fd s of (ok, s) \<Rightarrow>
                  if \<not> ok then Inl Abort else Inr (p\<lparr>cp_at := AtCreat, cp_todo := is\<rparr>, s))))"

definition start :: "byte list \<Rightarrow> byte list \<Rightarrow> bool \<Rightarrow> nat list \<Rightarrow> cproc" where
  "start d prefix dup is = \<lparr>cp_dir = d, cp_prefix = prefix, cp_dup = dup, cp_todo = is, cp_at = AtCreat\<rparr>"

text \<open>Any number of processes that take turns; the program has two. \<open>f\<close> is what a process does in its turn.\<close>

fun schedule :: "('q \<Rightarrow> 's \<Rightarrow> ('q \<times> 's) res) \<Rightarrow> 'p list \<Rightarrow> ('p \<Rightarrow> 'q) \<times> 's \<Rightarrow> (('p \<Rightarrow> 'q) \<times> 's) res" where
  "schedule f [] (P, s) = Inr (P, s)"
| "schedule f (w # ws) (P, s) = rbind (f (P w) s) (\<lambda>(p, s). schedule f ws (P(w := p), s))"

text \<open>Alone, with at least three turns for each file, a process does what \<^verbatim>\<open>createn\<close> does.\<close>

lemma createn_steps:
  "createn_step os (start d prefix dup (i # is)) s =
     rbind (in_dir d (numbered prefix i)) (\<lambda>n.
     case o_creat os n s of
       (Inl e, s) \<Rightarrow> if dup \<and> e = EEXIST then Inr (start d prefix dup is, s) else Inl Abort
     | (Inr fd, s) \<Rightarrow> Inr ((start d prefix dup (i # is))\<lparr>cp_at := AtWrite fd\<rparr>, s))"
  "createn_step os ((start d prefix dup (i # is))\<lparr>cp_at := AtWrite fd\<rparr>) s =
     (case o_write os fd (int_bytes i) s of (r, s) \<Rightarrow>
        if r \<noteq> Some 4 then Inl Abort else Inr ((start d prefix dup (i # is))\<lparr>cp_at := AtClose fd\<rparr>, s))"
  "createn_step os ((start d prefix dup (i # is))\<lparr>cp_at := AtClose fd\<rparr>) s =
     (case o_close os fd s of (ok, s) \<Rightarrow> if \<not> ok then Inl Abort else Inr (start d prefix dup is, s))"
  by (simp_all add: createn_step_def start_def cong: if_cong sum.case_cong)

lemma schedule_done: "cp_todo (P w) = [] \<Longrightarrow> schedule (createn_step os) (replicate k w) (P, s) = Inr (P, s)"
  by (induction k) (auto simp: createn_step_def)

lemma schedule_alone:
  "3 * length is \<le> k \<Longrightarrow> P w = start d prefix dup is \<Longrightarrow>
   rbind (schedule (createn_step os) (replicate k w) (P, s)) (\<lambda>(_, s). Inr s) = createn os d prefix dup is s"
proof (induction "is" arbitrary: k P s)
  case Nil
  then show ?case by (simp add: schedule_done start_def)
next
  case (Cons i "is")
  then obtain k' where k: "k = Suc (Suc (Suc k'))" "3 * length is \<le> k'"
    by (cases k; cases "k - 1"; cases "k - 2") auto
  have skip: "rbind (schedule (createn_step os) (replicate (Suc (Suc k')) w) (P(w := start d prefix dup is), s1)) (\<lambda>(_, s). Inr s) =
      createn os d prefix dup is s1" for s1
    by (rule Cons.IH) (use k(2) in simp_all)
  have three: "rbind (schedule (createn_step os) (replicate k' w) (P(w := start d prefix dup is), s1)) (\<lambda>(_, s). Inr s) =
      createn os d prefix dup is s1" for s1
    by (rule Cons.IH) (use k(2) in simp_all)
  show ?case
  proof (cases "in_dir d (numbered prefix i)")
    case (Inl e)
    then show ?thesis by (simp add: k(1) Cons.prems(2) createn_steps)
  next
    case (Inr n)
    obtain r s1 where 1: "o_creat os n s = (r, s1)" by fastforce
    show ?thesis
    proof (cases r)
      case (Inl e)
      with skip [of s1] show ?thesis by (auto simp: k(1) Cons.prems(2) createn_steps Inr 1)
    next
      case r: (Inr fd)
      obtain w s2 where 2: "o_write os fd (int_bytes i) s1 = (w, s2)" by fastforce
      obtain ok s3 where 3: "o_close os fd s2 = (ok, s3)" by fastforce
      from three [of s3] show ?thesis by (simp add: k(1) Cons.prems(2) createn_steps Inr 1 r 2 3)
    qed
  qed
qed

section \<open>Two processes at once\<close>

definition fd_at :: "cproc \<Rightarrow> nat option" where
  "fd_at p = (case cp_at p of AtCreat \<Rightarrow> None | AtWrite fd \<Rightarrow> Some fd | AtClose fd \<Rightarrow> Some fd)"

definition left :: "cproc \<Rightarrow> nat" where
  "left p = 3 * length (cp_todo p) - (case cp_at p of AtCreat \<Rightarrow> 0 | AtWrite _ \<Rightarrow> 1 | AtClose _ \<Rightarrow> 2)"

definition next_name :: "cproc \<Rightarrow> byte list" where
  "next_name p = numbered (cp_prefix p) (hd (cp_todo p))"

text \<open>What each process knows of its open file.\<close>

definition pinv :: "pstate \<Rightarrow> byte list set \<Rightarrow> cproc \<Rightarrow> bool" where
  "pinv st made p \<longleftrightarrow>
     (cp_at p \<noteq> AtCreat \<longrightarrow> cp_todo p \<noteq> [] \<and> next_name p \<in> made) \<and>
     (\<forall>fd. cp_at p = AtWrite fd \<longrightarrow> (\<exists>i. ps_fd st fd = Some (i, 0, False) \<and> ps_dir st (next_name p) = Some i)) \<and>
     (\<forall>fd. cp_at p = AtClose fd \<longrightarrow> ps_fd st fd \<noteq> None)"

text \<open>The files: \<open>made\<close> are the names created so far, \<open>val\<close> says what each shall hold; a file just created
  may still be empty, while the process that created it has not written.\<close>

definition files_inv :: "(byte list \<Rightarrow> byte list) \<Rightarrow> (byte list \<rightharpoonup> byte list) \<Rightarrow> byte list set \<Rightarrow> ('p \<Rightarrow> cproc) \<Rightarrow> pstate \<Rightarrow> bool" where
  "files_inv val m made P st \<longleftrightarrow>
     inj_on (ps_dir st) (dom (ps_dir st)) \<and>
     (\<forall>n. n \<notin> made \<longrightarrow> contents st n = m n) \<and>
     (\<forall>n \<in> made. contents st n = Some (val n) \<or>
        contents st n = Some [] \<and> (\<exists>b fd. cp_at (P b) = AtWrite fd \<and> next_name (P b) = n))"

definition cinv :: "(byte list \<Rightarrow> byte list) \<Rightarrow> (byte list \<rightharpoonup> byte list) \<Rightarrow> byte list set \<Rightarrow> ('p \<Rightarrow> cproc) \<Rightarrow> pstate \<Rightarrow> bool" where
  "cinv val m made P st \<longleftrightarrow>
     files_inv val m made P st \<and> (\<forall>b. pinv st made (P b)) \<and>
     (\<forall>b b' fd. fd_at (P b) = Some fd \<longrightarrow> fd_at (P b') = Some fd \<longrightarrow> b = b') \<and>
     (\<forall>fd. ps_fd st fd \<noteq> None \<longrightarrow> (\<exists>b. fd_at (P b) = Some fd))"

lemma fd_at_open: "pinv st made p \<Longrightarrow> fd_at p = Some fd \<Longrightarrow> ps_fd st fd \<noteq> None"
  by (auto simp: pinv_def fd_at_def split: point.splits)

lemma fd_at_other: "cinv val m made P st \<Longrightarrow> fd_at (P w) = Some fd \<Longrightarrow> fd_at (P b) = Some fd \<Longrightarrow> b = w"
  unfolding cinv_def by blast

text \<open>Creating a file, seen from the directory.\<close>

lemma creat_effect:
  assumes "creat_post st n r st'" "inj_on (ps_dir st) (dom (ps_dir st))"
  obtains fd i where "r = Inr fd" "ps_fd st fd = None" "ps_fd st' = (ps_fd st)(fd \<mapsto> (i, 0, False))"
    "ps_dir st' = (ps_dir st)(n \<mapsto> i)" "inj_on (ps_dir st') (dom (ps_dir st'))"
    "contents st' = (contents st)(n \<mapsto> [])" "ps_dir st n = None \<or> ps_dir st n = Some i"
proof -
  from assms(1) obtain i where i: "case ps_dir st n of None \<Rightarrow> i \<notin> ran (ps_dir st) | Some j \<Rightarrow> i = j"
    "opened (st\<lparr>ps_dir := (ps_dir st)(n \<mapsto> i), ps_data := (ps_data st)(i := [])\<rparr>) i False r st'"
    unfolding creat_post_def by (cases "ps_dir st n") auto
  then obtain fd where fd: "ps_fd st fd = None" "r = Inr fd"
    "st' = st\<lparr>ps_dir := (ps_dir st)(n \<mapsto> i), ps_data := (ps_data st)(i := []), ps_fd := (ps_fd st)(fd \<mapsto> (i, 0, False))\<rparr>"
    by (auto simp: opened_def)
  let ?st = "st\<lparr>ps_dir := (ps_dir st)(n \<mapsto> i)\<rparr>"
  have inj: "inj_on (ps_dir ?st) (dom (ps_dir ?st))"
    using assms(2) i(1) unfolding inj_on_def by (auto simp: ran_def dom_def split: option.splits if_splits)
  have "contents st' = contents (?st\<lparr>ps_data := (ps_data ?st)(i := [])\<rparr>)" by (simp add: fd(3) contents_def fun_eq_iff)
  also have "\<dots> = (contents ?st)(n \<mapsto> [])" by (rule one_name_file [OF inj]) simp
  also have "\<dots> = (contents st)(n \<mapsto> [])" by (auto simp: contents_def)
  finally show ?thesis using that [OF fd(2,1)] inj i(1) by (auto simp: fd(3) split: option.splits)
qed

lemma next_name_at [simp]: "next_name (p\<lparr>cp_at := x\<rparr>) = next_name p"
  by (simp add: next_name_def)

lemma cinv_creat:
  assumes c: "cinv val m made P st" and w: "cp_at (P w) = AtCreat" "cp_todo (P w) \<noteq> []"
    and post: "creat_post st (next_name (P w)) r st'"
  shows "\<exists>fd. r = Inr fd \<and> cinv val m (insert (next_name (P w)) made) (P(w := (P w)\<lparr>cp_at := AtWrite fd\<rparr>)) st'"
proof -
  let ?n = "next_name (P w)"
  from c have f: "files_inv val m made P st" and p: "\<And>b. pinv st made (P b)"
    and o: "\<And>fd. ps_fd st fd \<noteq> None \<Longrightarrow> \<exists>b. fd_at (P b) = Some fd" by (auto simp: cinv_def)
  from creat_effect [OF post] f obtain fd i where e: "r = Inr fd" "ps_fd st fd = None" "ps_fd st' = (ps_fd st)(fd \<mapsto> (i, 0, False))"
    "ps_dir st' = (ps_dir st)(?n \<mapsto> i)" "inj_on (ps_dir st') (dom (ps_dir st'))"
    "contents st' = (contents st)(?n \<mapsto> [])" "ps_dir st ?n = None \<or> ps_dir st ?n = Some i"
    by (auto simp: files_inv_def)
  let ?P = "P(w := (P w)\<lparr>cp_at := AtWrite fd\<rparr>)"
  have other: "b \<noteq> w" if "cp_at (P b) = AtWrite x" for b x using that w(1) by auto
  have "files_inv val m (insert ?n made) ?P st'"
    unfolding files_inv_def
  proof (intro conjI allI impI ballI)
    fix n assume n: "n \<in> insert ?n made"
    show "contents st' n = Some (val n) \<or> contents st' n = Some [] \<and> (\<exists>b fd. cp_at (?P b) = AtWrite fd \<and> next_name (?P b) = n)"
    proof (cases "n = ?n")
      case True
      then show ?thesis by (auto simp: e(6))
    next
      case False
      with n f have "contents st n = Some (val n) \<or> contents st n = Some [] \<and> (\<exists>b fd. cp_at (P b) = AtWrite fd \<and> next_name (P b) = n)"
        by (auto simp: files_inv_def)
      with False other show ?thesis by (auto simp: e(6))
    qed
  qed (use f e(5) in \<open>auto simp: e(6) files_inv_def\<close>)
  moreover have "pinv st' (insert ?n made) (?P b)" for b
    using p [of b] e(2,7) w by (cases "b = w") (auto simp: pinv_def e(3,4))
  moreover have "b = b'" if "fd_at (?P b) = Some x" "fd_at (?P b') = Some x" for b b' x
  proof -
    have "fd_at (P b) \<noteq> Some fd" for b using fd_at_open [OF p] e(2) by blast
    then show ?thesis using that fd_at_other [OF c, of b' x b] by (auto simp: fd_at_def split: if_splits)
  qed
  moreover have "\<exists>b. fd_at (?P b) = Some x" if "ps_fd st' x \<noteq> None" for x
  proof (cases "x = fd")
    case True
    then show ?thesis by (intro exI [of _ w]) (simp add: fd_at_def)
  next
    case False
    with that have "ps_fd st x \<noteq> None" by (simp add: e(3))
    with o obtain b where "fd_at (P b) = Some x" by blast
    moreover from this have "b \<noteq> w" using w(1) by (auto simp: fd_at_def)
    ultimately show ?thesis by (intro exI [of _ b]) simp
  qed
  ultimately show ?thesis unfolding cinv_def e(1) by blast
qed

lemma cinv_write:
  assumes c: "cinv val m made P st" and w: "cp_at (P w) = AtWrite fd" and i: "ps_fd st fd = Some (i, off, ap)"
    and v: "val (next_name (P w)) = b" "\<And>n. n \<in> made \<Longrightarrow> length (val n) = 4"
    and st': "st' = st\<lparr>ps_data := (ps_data st)(i := overwrite (ps_data st i) (if ap then length (ps_data st i) else off) b),
      ps_fd := (ps_fd st)(fd \<mapsto> x)\<rparr>"
  shows "cinv val m made (P(w := (P w)\<lparr>cp_at := AtClose fd\<rparr>)) st'"
proof -
  let ?n = "next_name (P w)"
  let ?P = "P(w := (P w)\<lparr>cp_at := AtClose fd\<rparr>)"
  from c have f: "files_inv val m made P st" and p: "\<And>b. pinv st made (P b)"
    and o: "\<And>fd. ps_fd st fd \<noteq> None \<Longrightarrow> \<exists>b. fd_at (P b) = Some fd" by (auto simp: cinv_def)
  from p [of w] w i have n: "?n \<in> made" "ps_dir st ?n = Some i" "off = 0" "\<not> ap" "cp_todo (P w) \<noteq> []" by (auto simp: pinv_def)
  have "ps_data st i = [] \<or> ps_data st i = b" using f n(1,2) v(1) by (auto simp: files_inv_def contents_def)
  then have ow: "overwrite (ps_data st i) (if ap then length (ps_data st i) else off) b = b"
    using v(2) [OF n(1)] v(1) n(3,4) by (auto simp: overwrite_def)
  have dir: "ps_dir st' = ps_dir st" by (simp add: st')
  have con: "contents st' = (contents st)(?n \<mapsto> b)"
    using one_name_file [OF _ n(2), of b] f by (simp add: st' ow files_inv_def)
  have "files_inv val m made ?P st'"
    unfolding files_inv_def
  proof (intro conjI allI impI ballI)
    fix k assume k: "k \<in> made"
    show "contents st' k = Some (val k) \<or> contents st' k = Some [] \<and> (\<exists>b fd. cp_at (?P b) = AtWrite fd \<and> next_name (?P b) = k)"
    proof (cases "k = ?n")
      case True
      then show ?thesis by (simp add: con v(1))
    next
      case False
      with k f have "contents st k = Some (val k) \<or> contents st k = Some [] \<and> (\<exists>b fd. cp_at (P b) = AtWrite fd \<and> next_name (P b) = k)"
        by (auto simp: files_inv_def)
      with False show ?thesis by (auto simp: con)
    qed
  qed (use f n(1) in \<open>auto simp: con dir files_inv_def\<close>)
  moreover have "pinv st' made (?P b)" for b
  proof (cases "b = w")
    case True
    then show ?thesis using n by (auto simp: pinv_def st')
  next
    case False
    have "fd_at (P b) \<noteq> Some fd" using fd_at_other [OF c, of w fd b] False w by (auto simp: fd_at_def)
    with False p [of b] show ?thesis by (auto simp: pinv_def st' fd_at_def)
  qed
  moreover have fd: "fd_at (?P b) = fd_at (P b)" for b using w by (auto simp: fd_at_def)
  moreover have "\<exists>b. fd_at (?P b) = Some y" if "ps_fd st' y \<noteq> None" for y
    unfolding fd by (rule o) (use that i in \<open>auto simp: st' split: if_splits\<close>)
  moreover have "b = b'" if "fd_at (?P b) = Some x" "fd_at (?P b') = Some x" for b b' x
    by (rule fd_at_other [OF c]) (use that [unfolded fd] in auto)
  ultimately show ?thesis unfolding cinv_def by blast
qed

lemma cinv_close:
  assumes c: "cinv val m made P st" and w: "cp_at (P w) = AtClose fd"
    and st': "st' = st\<lparr>ps_fd := (ps_fd st)(fd := None)\<rparr>"
  shows "cinv val m made (P(w := (P w)\<lparr>cp_at := AtCreat, cp_todo := is\<rparr>)) st'"
proof -
  let ?P = "P(w := (P w)\<lparr>cp_at := AtCreat, cp_todo := is\<rparr>)"
  from c have f: "files_inv val m made P st" and p: "\<And>b. pinv st made (P b)"
    and o: "\<And>fd. ps_fd st fd \<noteq> None \<Longrightarrow> \<exists>b. fd_at (P b) = Some fd" by (auto simp: cinv_def)
  have con: "contents st' = contents st" "ps_dir st' = ps_dir st" by (simp_all add: st')
  have "\<exists>b fd. cp_at (?P b) = AtWrite fd \<and> next_name (?P b) = n" if "cp_at (P b) = AtWrite x" "next_name (P b) = n" for b x n
    using that w by (intro exI [of _ b]) auto
  then have "files_inv val m made ?P st'" using f unfolding files_inv_def con by blast
  moreover have "pinv st' made (?P b)" for b
  proof (cases "b = w")
    case True
    then show ?thesis by (simp add: pinv_def)
  next
    case False
    have "fd_at (P b) \<noteq> Some fd" using fd_at_other [OF c, of w fd b] False w by (auto simp: fd_at_def)
    with False p [of b] show ?thesis by (auto simp: pinv_def st' fd_at_def)
  qed
  moreover have "fd_at (?P b) = (if b = w then None else fd_at (P b))" for b by (auto simp: fd_at_def)
  moreover have "\<exists>b. fd_at (?P b) = Some y" if y: "ps_fd st' y \<noteq> None" for y
  proof -
    from o [of y] y obtain b where b: "fd_at (P b) = Some y" by (auto simp: st' split: if_splits)
    have "b \<noteq> w" using b y w by (auto simp: fd_at_def st')
    with b show ?thesis by (intro exI [of _ b]) simp
  qed
  ultimately show ?thesis using c unfolding cinv_def by auto
qed

section \<open>Every schedule\<close>

definition todo_names :: "cproc \<Rightarrow> byte list set" where
  "todo_names p = numbered (cp_prefix p) ` set (cp_todo p)"

definition ready :: "byte list set \<Rightarrow> (byte list \<Rightarrow> byte list) \<Rightarrow> cproc \<Rightarrow> bool" where
  "ready ds val p \<longleftrightarrow> cp_dir p \<in> ds \<and> length (cp_dir p) < 256 \<and>
     (\<forall>i \<in> set (cp_todo p). fname (numbered (cp_prefix p) i) \<and> val (numbered (cp_prefix p) i) = int_bytes i)"

definition sys :: "byte list set \<Rightarrow> (byte list \<Rightarrow> byte list) \<Rightarrow> (byte list \<rightharpoonup> byte list) \<Rightarrow> ('p \<Rightarrow> byte list set) \<Rightarrow> ('p \<Rightarrow> cproc) \<Rightarrow> pstate \<Rightarrow> bool" where
  "sys ds val m goal P st \<longleftrightarrow>
     (\<exists>made. cinv val m made P st \<and> (\<forall>b. ready ds val (P b)) \<and> (\<forall>n \<in> made. length (val n) = 4) \<and>
        made \<subseteq> (\<Union>b. goal b) \<and> (\<forall>b. todo_names (P b) \<subseteq> goal b \<and> goal b \<subseteq> made \<union> todo_names (P b)))"

lemma sys_step:
  assumes os: "posix os ab ds" and y: "sys ds val m goal P (ab s)"
  shows "\<exists>p s'. createn_step os (P w) s = Inr (p, s') \<and> sys ds val m goal (P(w := p)) (ab s') \<and> left p = left (P w) - 1"
proof -
  from y obtain made where c: "cinv val m made P (ab s)" and r: "\<And>b. ready ds val (P b)" and
    l: "\<forall>n \<in> made. length (val n) = 4" and g: "made \<subseteq> (\<Union>b. goal b)"
    "\<And>b. todo_names (P b) \<subseteq> goal b" "\<And>b. goal b \<subseteq> made \<union> todo_names (P b)" unfolding sys_def by blast
  show ?thesis
  proof (cases "cp_todo (P w)")
    case Nil
    moreover from this c have "cp_at (P w) = AtCreat" by (auto simp: cinv_def pinv_def)
    ultimately show ?thesis using y by (auto simp: createn_step_def left_def)
  next
    case todo: (Cons i "is")
    let ?n = "numbered (cp_prefix (P w)) i"
    have nn: "next_name (P w) = ?n" by (simp add: next_name_def todo)
    from r [of w] have n: "fname ?n" "val ?n = int_bytes i" "cp_dir (P w) \<in> ds" "length (cp_dir (P w)) < 256"
      by (auto simp: ready_def todo)
    have pw: "pinv (ab s) made (P w)" using c by (auto simp: cinv_def)
    have l4: "length (int_bytes i) = 4" by (simp add: int_bytes_def)
    show ?thesis
    proof (cases "cp_at (P w)")
      case AtCreat
      have d: "in_dir (cp_dir (P w)) ?n = Inr (cp_dir (P w) @ slash # ?n)" using n by (intro in_dir_ok) (simp add: fname_def)
      obtain x s1 where 1: "o_creat os (cp_dir (P w) @ slash # ?n) s = (x, s1)" by fastforce
      from cinv_creat [OF c AtCreat, of x "ab s1"] posix_names(1) [OF os n(3,1) 1] obtain fd where
        fd: "x = Inr fd" "cinv val m (insert ?n made) (P(w := (P w)\<lparr>cp_at := AtWrite fd\<rparr>)) (ab s1)"
        by (auto simp: nn todo)
      let ?p = "(P w)\<lparr>cp_at := AtWrite fd\<rparr>"
      have "?n \<in> goal w" using g(2) [of w] by (auto simp: todo_names_def todo)
      moreover have "todo_names ((P(w := ?p)) b) = todo_names (P b)" "ready ds val ((P(w := ?p)) b)" for b
        using r [of b] by (auto simp: todo_names_def ready_def)
      moreover have "goal b \<subseteq> insert ?n made \<union> todo_names (P b)" for b using g(3) [of b] by blast
      moreover have "insert ?n made \<subseteq> (\<Union>b. goal b)" using calculation(1) g(1) by blast
      ultimately have "sys ds val m goal (P(w := ?p)) (ab s1)"
        unfolding sys_def using fd(2) l n(2) l4 g(2) by (intro exI [of _ "insert ?n made"]) simp
      then show ?thesis by (simp add: createn_step_def todo AtCreat d 1 fd(1) left_def)
    next
      case (AtWrite fd)
      from pw AtWrite obtain j where j: "ps_fd (ab s) fd = Some (j, 0, False)" by (auto simp: pinv_def)
      obtain x s1 where 1: "o_write os fd (int_bytes i) s = (x, s1)" by fastforce
      let ?p = "(P w)\<lparr>cp_at := AtClose fd\<rparr>"
      from posix_files(2) [OF os j 1, of 0] have x: "x = Some 4" "cinv val m made (P(w := ?p)) (ab s1)"
        using cinv_write [OF c AtWrite j, of "int_bytes i" "ab s1" "(j, 4, False)"] n(2) l l4 by (auto simp: nn)
      have "todo_names ((P(w := ?p)) b) = todo_names (P b)" "ready ds val ((P(w := ?p)) b)" for b
        using r [of b] by (auto simp: todo_names_def ready_def)
      with x(2) l g have "sys ds val m goal (P(w := ?p)) (ab s1)" unfolding sys_def by (intro exI [of _ made]) simp
      then show ?thesis by (simp add: createn_step_def todo AtWrite 1 x(1) left_def)
    next
      case (AtClose fd)
      from pw AtClose obtain j where j: "ps_fd (ab s) fd = Some j" and made: "?n \<in> made" by (auto simp: pinv_def nn)
      obtain ok s1 where 1: "o_close os fd s = (ok, s1)" by fastforce
      let ?p = "(P w)\<lparr>cp_at := AtCreat, cp_todo := is\<rparr>"
      have x: "ok" "ab s1 = (ab s)\<lparr>ps_fd := (ps_fd (ab s))(fd := None)\<rparr>"
        using posix_files(3) [OF os _ 1] j by (cases j, simp)+
      have "todo_names ((P(w := ?p)) b) \<subseteq> goal b" "goal b \<subseteq> made \<union> todo_names ((P(w := ?p)) b)" "ready ds val ((P(w := ?p)) b)" for b
        using r [of b] g(2,3) [of b] made by (auto simp: todo_names_def ready_def todo)
      with cinv_close [OF c AtClose x(2), of "is"] l g(1) have "sys ds val m goal (P(w := ?p)) (ab s1)"
        unfolding sys_def by (intro exI [of _ made]) simp
      then show ?thesis by (simp add: createn_step_def todo AtClose 1 x(1) left_def)
    qed
  qed
qed

lemma schedule_sys:
  assumes "posix os ab ds"
  shows "sys ds val m goal P (ab s) \<Longrightarrow> \<exists>P' s'. schedule (createn_step os) ws (P, s) = Inr (P', s') \<and>
    sys ds val m goal P' (ab s') \<and> (\<forall>b. left (P' b) = left (P b) - count_list ws b)"
proof (induction ws arbitrary: P s)
  case Nil
  then show ?case by simp
next
  case (Cons w ws)
  from sys_step [OF assms Cons.prems, of w] obtain p s1 where
    1: "createn_step os (P w) s = Inr (p, s1)" "sys ds val m goal (P(w := p)) (ab s1)" "left p = left (P w) - 1" by blast
  from Cons.IH [OF 1(2)] obtain P' s' where 2: "schedule (createn_step os) ws (P(w := p), s1) = Inr (P', s')"
    "sys ds val m goal P' (ab s')" "\<And>b. left (P' b) = left ((P(w := p)) b) - count_list ws b" by blast
  have "left (P' b) = left (P b) - count_list (w # ws) b" for b using 2(3) [of b] 1(3) by auto
  with 1(1) 2(1,2) show ?case by auto
qed

lemma left_done: "left p = 0 \<longleftrightarrow> cp_todo p = []"
  by (cases "cp_todo p") (auto simp: left_def split: point.splits)

lemma sys_done:
  assumes "sys ds val m goal P st" "\<And>b. left (P b) = 0"
  shows "idle st \<and> contents st = (\<lambda>n. if n \<in> (\<Union>b. goal b) then Some (val n) else m n)"
proof -
  have todo: "cp_todo (P b) = []" for b using assms(2) by (simp add: left_done)
  from assms(1) obtain made where c: "cinv val m made P st" "made \<subseteq> (\<Union>b. goal b)" "\<And>b. goal b \<subseteq> made"
    unfolding sys_def todo_names_def todo by auto
  then have c: "cinv val m made P st" "(\<Union>b. goal b) = made" by blast+
  have at: "cp_at (P b) = AtCreat" for b using c(1) todo [of b] by (auto simp: cinv_def pinv_def)
  have "ps_fd st fd = None" for fd using c(1) at by (cases "ps_fd st fd") (auto simp: cinv_def fd_at_def)
  moreover have "contents st n = (if n \<in> made then Some (val n) else m n)" for n
    using c(1) at by (auto simp: cinv_def files_inv_def)
  ultimately show ?thesis using c by (auto simp: idle_def cinv_def files_inv_def)
qed

text \<open>Once one process is done its files are in the directory, also while others still run.\<close>

lemma sys_one_done:
  assumes "sys ds val Map.empty goal P st" "left (P w) = 0" "\<And>b. goal b \<subseteq> goal w"
  shows "dom (contents st) = goal w"
proof -
  from assms(1) obtain made where c: "cinv val Map.empty made P st" "made \<subseteq> (\<Union>b. goal b)" "goal w \<subseteq> made \<union> todo_names (P w)"
    unfolding sys_def by blast
  have "made = goal w" using c(2,3) assms(2,3) by (auto simp: left_done todo_names_def)
  moreover have "dom (contents st) = made" using c(1) by (auto simp: cinv_def files_inv_def)
  ultimately show ?thesis by simp
qed

text \<open>The number at the end of a name.\<close>

definition number_of :: "byte list \<Rightarrow> nat" where
  "number_of n = digits_val (rev (takeWhile (\<lambda>c. c \<noteq> 45) (rev n)))"

lemma number_of_numbered [simp]: "number_of (numbered p i) = i"
proof -
  have "\<forall>c \<in> set (decimal i). c \<noteq> 45" using decimal_digits [of i] digit_not_special by blast
  then have "takeWhile (\<lambda>c. c \<noteq> 45) (rev (decimal i) @ 45 # rev p) = rev (decimal i)" by (subst takeWhile_append2) auto
  then show ?thesis by (simp add: number_of_def numbered_def digits_val_decimal)
qed

lemma numbered_inject [simp]: "numbered p i = numbered q j \<longleftrightarrow> p = q \<and> i = j"
proof
  assume e: "numbered p i = numbered q j"
  with number_of_numbered [of p i] have "i = j" by simp
  with e show "p = q \<and> i = j" by (simp add: numbered_def)
qed simp

lemma start_sys:
  assumes "idle st" "\<And>b. d b \<in> ds \<and> length (d b) < 256" "\<And>b i. i \<in> set (T b) \<Longrightarrow> fname (numbered (pre b) i)"
  shows "sys ds (int_bytes \<circ> number_of) (contents st) (\<lambda>b. numbered (pre b) ` set (T b))
    (\<lambda>b. start (d b) (pre b) (dup b) (T b)) st"
  unfolding sys_def
  by (intro exI [of _ "{}"]) (use assms in \<open>auto simp: cinv_def files_inv_def pinv_def start_def fd_at_def idle_def ready_def todo_names_def\<close>)

section \<open>The sections that fork\<close>

text \<open>The schedule of the first section ends when the parent has reaped its child. In the two sections that
  follow, the parent lists the directory when it is done itself, while the child may still run.\<close>

definition concurrent_creates :: "'s os \<Rightarrow> byte list \<Rightarrow> byte list \<Rightarrow> bool list \<Rightarrow> 's \<Rightarrow> 's res" where
  "concurrent_creates os d1 d2 ws s =
     rbind (schedule (createn_step os) ws (\<lambda>child. start (if child then d2 else d1) (bytes (if child then ''xx'' else ''yy'')) False [0..<20], s))
       (\<lambda>(_, s). run_script os d1 d2
          [Dircheck False 40, Checkn False ''xx'' 20, Checkn True ''yy'' 20, Unlinkn False ''xx'' 20, Unlinkn False ''yy'' 20] s)"

definition same_file_creates :: "'s os \<Rightarrow> byte list \<Rightarrow> byte list \<Rightarrow> bool list \<Rightarrow> bool list \<Rightarrow> 's \<Rightarrow> 's res" where
  "same_file_creates os d1 d2 ws ws' s =
     rbind (schedule (createn_step os) ws (\<lambda>child. start (if child then d2 else d1) (bytes ''zz'') True [0..<20], s)) (\<lambda>(P, s).
     rbind (dircheck os d1 20 s) (\<lambda>s.
     rbind (schedule (createn_step os) ws' (P, s)) (\<lambda>(_, s).
       run_script os d1 d2 [Checkn False ''zz'' 20, Checkn True ''zz'' 20, Unlinkn False ''zz'' 20] s)))"

definition same_server_creates :: "'s os \<Rightarrow> byte list \<Rightarrow> byte list \<Rightarrow> bool list \<Rightarrow> bool list \<Rightarrow> 's \<Rightarrow> 's res" where
  "same_server_creates os d1 d2 ws ws' s =
     rbind (schedule (createn_step os) ws (\<lambda>child. start d1 (bytes ''zz'') True [0..<20], s)) (\<lambda>(P, s).
     rbind (dircheck os d1 20 s) (\<lambda>s.
     rbind (schedule (createn_step os) ws' (P, s)) (\<lambda>(_, s).
       run_script os d1 d2 [Checkn False ''zz'' 20, Unlinkn False ''zz'' 20] s)))"

lemma decimal_short: "i < 100 \<Longrightarrow> length (decimal i) \<le> 2"
  by (subst decimal.simps, subst decimal.simps) auto

lemma fname_numbered:
  assumes "fname (bytes p)" "length p \<le> 200" "i < 100"
  shows "fname (numbered (bytes p) i)"
proof -
  have "slash \<notin> set (decimal i)" using decimal_digits [of i] digit_not_special by blast
  then show ?thesis using assms decimal_short [of i] length_bytes [of p] by (cases "bytes p") (auto simp: fname_def numbered_def slash_def)
qed

lemma card_numbered: "card (numbered p ` {0..<n}) = n"
  by (subst card_image) (auto simp: inj_on_def)

lemma distinct_numbered: "distinct (map (numbered p) [0..<n])"
  by (auto simp: distinct_map inj_on_def)

lemma numbered_fname:
  assumes "p \<in> {''xx'', ''yy'', ''zz''}" "i < 20"
  shows "fname (numbered (bytes p) i)"
  using assms by (intro fname_numbered) (auto simp: fname_bytes)

lemma empty_idle: "ps_fd st = Map.empty \<Longrightarrow> ps_dir st = Map.empty \<Longrightarrow> idle st \<and> contents st = Map.empty"
  by (auto simp: idle_def contents_def)

lemma idle_empty: "idle st \<Longrightarrow> contents st = Map.empty \<Longrightarrow> ps_dir st = Map.empty \<and> ps_fd st = Map.empty"
  by (auto simp: idle_def contents_def fun_eq_iff)

text \<open>Reading all numbered files of a directory, and removing them.\<close>

definition numbered_files :: "string set \<Rightarrow> byte list \<rightharpoonup> byte list" where
  "numbered_files ps n =
     (if n \<in> (\<Union>p \<in> ps. numbered (bytes p) ` {0..<20}) then Some (int_bytes (number_of n)) else None)"

lemma check_numbered:
  assumes "posix os ab ds" "d \<in> ds" "length d < 256" "idle (ab s)" "contents (ab s) = numbered_files ps" "p \<in> ps"
    "ps \<subseteq> {''xx'', ''yy'', ''zz''}"
  shows "\<exists>s'. checkn os d (bytes p) [0..<20] s = Inr s' \<and> ab s' = ab s"
  by (rule checkn_ok [OF assms(1-4)]) (use assms(5-7) numbered_fname in \<open>auto simp: numbered_files_def\<close>)

lemma unlink_numbered:
  assumes "posix os ab ds" "d \<in> ds" "length d < 256" "idle (ab s)" "contents (ab s) = numbered_files ps" "p \<in> ps"
    "ps \<subseteq> {''xx'', ''yy'', ''zz''}"
  shows "\<exists>s'. unlinkn os d (bytes p) [0..<20] s = Inr s' \<and> idle (ab s') \<and> contents (ab s') = numbered_files (ps - {p})"
proof -
  have "numbered_files ps |` (- (numbered (bytes p) ` set [0..<20])) = numbered_files (ps - {p})"
    by (auto simp: numbered_files_def restrict_map_def fun_eq_iff)
  moreover have "\<forall>i \<in> set [0..<20]. fname (numbered (bytes p) i) \<and> contents (ab s) (numbered (bytes p) i) \<noteq> None"
    using assms(5-7) numbered_fname by (auto simp: numbered_files_def)
  ultimately show ?thesis using unlinkn_ok [OF assms(1-4) distinct_numbered] assms(5) by metis
qed

lemma union_bool: "(\<Union>b. f b) = f True \<union> f False"
  by (auto simp: UNIV_bool)

lemma dircheck_numbered:
  assumes "posix os ab ds" "d \<in> ds" "dom (contents (ab s)) = (\<Union>p \<in> ps. numbered (bytes p) ` {0..<20})"
    "ps \<subseteq> {''xx'', ''yy'', ''zz''}" "nf = 20 * card ps"
  shows "\<exists>s'. dircheck os d nf s = Inr s' \<and> ab s' = ab s"
proof (rule dircheck_ok [OF assms(1,2)])
  have fin: "finite ps" using assms(4) finite_subset by blast
  have "card (\<Union>p \<in> ps. numbered (bytes p) ` {0..<20}) = (\<Sum>p \<in> ps. card (numbered (bytes p) ` {0..<20}))"
    by (rule card_UN_disjoint [OF fin]) auto
  then show "card (dom (contents (ab s))) = nf" by (simp add: assms(3,5) card_numbered)
  show "\<forall>f \<in> dom (contents (ab s)). fname f" using assms(3,4) numbered_fname by auto
  have "card ps \<le> card {''xx'', ''yy'', ''zz''}" by (rule card_mono) (use assms(4) in auto)
  then show "nf \<le> 1000" by (simp add: assms(5))
qed

text \<open>The section \<^verbatim>\<open>Concurrent creates\<close> of \<^verbatim>\<open>test-lab-3-b\<close>: in whatever order the calls of parent and child reach
  an operating system that follows the rules, no call fails, and if both processes end (60 calls each),
  the checks that follow pass and leave the directory empty.\<close>

theorem concurrent_creates_pass:
  assumes "posix os ab {d1, d2}" "length d1 < 256" "length d2 < 256"
    "ps_fd (ab s) = Map.empty" "ps_dir (ab s) = Map.empty"
    "60 \<le> count_list ws True" "60 \<le> count_list ws False"
  shows "\<exists>s'. concurrent_creates os d1 d2 ws s = Inr s' \<and> ps_dir (ab s') = Map.empty \<and> ps_fd (ab s') = Map.empty"
proof -
  let ?d = "\<lambda>c. if c then d2 else d1" and ?p = "\<lambda>c. bytes (if c then ''xx'' else ''yy'')"
  let ?P = "\<lambda>c. start (?d c) (?p c) False [0..<20]"
  have st: "idle (ab s)" "contents (ab s) = Map.empty" using empty_idle assms(4,5) by blast+
  have "sys {d1, d2} (int_bytes \<circ> number_of) (contents (ab s)) (\<lambda>c. numbered (?p c) ` set [0..<20]) ?P (ab s)"
    by (rule start_sys [OF st(1)]) (use assms(2,3) numbered_fname in auto)
  from schedule_sys [OF assms(1) this, of ws] obtain P' s1 where 1: "schedule (createn_step os) ws (?P, s) = Inr (P', s1)"
    "sys {d1, d2} (int_bytes \<circ> number_of) (contents (ab s)) (\<lambda>c. numbered (?p c) ` set [0..<20]) P' (ab s1)"
    "\<And>b. left (P' b) = left (?P b) - count_list ws b" by blast
  have "left (P' b) = 0" for b using 1(3) [of b] assms(6,7) by (cases b) (auto simp: left_def start_def)
  from sys_done [OF 1(2) this] have i1: "idle (ab s1)" "contents (ab s1) = numbered_files {''xx'', ''yy''}"
    unfolding union_bool st(2) by (auto simp: numbered_files_def fun_eq_iff)
  have ds: "d1 \<in> {d1, d2}" "d2 \<in> {d1, d2}" by auto
  have "dom (contents (ab s1)) = (\<Union>p \<in> {''xx'', ''yy''}. numbered (bytes p) ` {0..<20})"
    unfolding i1(2) numbered_files_def by (auto split: if_splits)
  from dircheck_numbered [OF assms(1) ds(1) this, of 40] obtain s2 where 2: "dircheck os d1 40 s1 = Inr s2" "ab s2 = ab s1" by auto
  from check_numbered [OF assms(1) ds(1) assms(2) _ _, of s2 "{''xx'', ''yy''}" "''xx''"] i1 obtain s3 where
    3: "checkn os d1 (bytes ''xx'') [0..<20] s2 = Inr s3" "ab s3 = ab s1" by (auto simp: 2(2))
  from check_numbered [OF assms(1) ds(2) assms(3) _ _, of s3 "{''xx'', ''yy''}" "''yy''"] i1 obtain s4 where
    4: "checkn os d2 (bytes ''yy'') [0..<20] s3 = Inr s4" "ab s4 = ab s1" by (auto simp: 3(2))
  from unlink_numbered [OF assms(1) ds(1) assms(2) _ _, of s4 "{''xx'', ''yy''}" "''xx''"] i1 obtain s5 where
    5: "unlinkn os d1 (bytes ''xx'') [0..<20] s4 = Inr s5" "idle (ab s5)" "contents (ab s5) = numbered_files {''yy''}"
    by (auto simp: 4(2) insert_Diff_if)
  from unlink_numbered [OF assms(1) ds(1) assms(2) 5(2,3), of "''yy''"] obtain s6 where
    6: "unlinkn os d1 (bytes ''yy'') [0..<20] s5 = Inr s6" "idle (ab s6)" "contents (ab s6) = numbered_files {}" by auto
  have "contents (ab s6) = Map.empty" by (simp add: 6(3) numbered_files_def fun_eq_iff)
  with idle_empty [OF 6(2)] show ?thesis
    by (simp add: concurrent_creates_def 1(1) run_cmd_def 2(1) 3(1) 4(1) 5(1) 6(1))
qed

lemma zz_forked:
  fixes ws ws' :: "bool list"
  assumes "posix os ab ds" "d1 \<in> ds" "dc \<in> ds" "length d1 < 256" "length dc < 256"
    "ps_fd (ab s) = Map.empty" "ps_dir (ab s) = Map.empty"
    "60 \<le> count_list ws False" "60 \<le> count_list (ws @ ws') True"
  obtains P1 s1 s2 P3 s3 where
    "schedule (createn_step os) ws (\<lambda>c. start (if c then dc else d1) (bytes ''zz'') True [0..<20], s) = Inr (P1, s1)"
    "dircheck os d1 20 s1 = Inr s2" "schedule (createn_step os) ws' (P1, s2) = Inr (P3, s3)"
    "idle (ab s3)" "contents (ab s3) = numbered_files {''zz''}"
proof -
  let ?P = "\<lambda>c. start (if c then dc else d1) (bytes ''zz'') True [0..<20]"
  let ?g = "\<lambda>c :: bool. numbered (bytes ''zz'') ` set [0..<20]"
  have st: "idle (ab s)" "contents (ab s) = Map.empty" using empty_idle assms(6,7) by blast+
  have "sys ds (int_bytes \<circ> number_of) (contents (ab s)) ?g ?P (ab s)"
    by (rule start_sys [OF st(1)]) (use assms(2-5) numbered_fname in auto)
  from schedule_sys [OF assms(1) this, of ws] obtain P1 s1 where 1: "schedule (createn_step os) ws (?P, s) = Inr (P1, s1)"
    "sys ds (int_bytes \<circ> number_of) Map.empty ?g P1 (ab s1)" "\<And>b. left (P1 b) = left (?P b) - count_list ws b"
    unfolding st(2) by blast
  have "left (P1 False) = 0" using 1(3) [of False] assms(8) by (simp add: left_def start_def)
  from sys_one_done [OF 1(2) this] have "dom (contents (ab s1)) = (\<Union>p \<in> {''zz''}. numbered (bytes p) ` {0..<20})" by simp
  from dircheck_numbered [OF assms(1,2) this, of 20] obtain s2 where 2: "dircheck os d1 20 s1 = Inr s2" "ab s2 = ab s1" by auto
  from schedule_sys [OF assms(1) 1(2) [folded 2(2)], of ws'] obtain P3 s3 where 3: "schedule (createn_step os) ws' (P1, s2) = Inr (P3, s3)"
    "sys ds (int_bytes \<circ> number_of) Map.empty ?g P3 (ab s3)" "\<And>b. left (P3 b) = left (P1 b) - count_list ws' b" by blast
  have "left (P3 b) = 0" for b using 3(3) [of b] 1(3) [of b] assms(8,9) by (cases b) (auto simp: left_def start_def)
  from sys_done [OF 3(2) this] have "idle (ab s3)" "contents (ab s3) = numbered_files {''zz''}"
    by (auto simp: numbered_files_def fun_eq_iff)
  then show thesis by (rule that [OF 1(1) 2(1) 3(1)])
qed

text \<open>The sections of \<^verbatim>\<open>test-lab-3-b\<close> in which parent and child create the same files, over two mount points
  and over one: for every order of the calls no call fails, the parent counts 20 files even while the
  child still creates them again, and once both have ended every file holds its number and can be removed.\<close>

theorem same_file_creates_pass:
  assumes "posix os ab {d1, d2}" "length d1 < 256" "length d2 < 256"
    "ps_fd (ab s) = Map.empty" "ps_dir (ab s) = Map.empty"
    "60 \<le> count_list ws False" "60 \<le> count_list (ws @ ws') True"
  shows "(\<exists>s'. same_file_creates os d1 d2 ws ws' s = Inr s' \<and> ps_dir (ab s') = Map.empty \<and> ps_fd (ab s') = Map.empty) \<and>
    (\<exists>s'. same_server_creates os d1 d2 ws ws' s = Inr s' \<and> ps_dir (ab s') = Map.empty \<and> ps_fd (ab s') = Map.empty)"
proof
  have ds: "d1 \<in> {d1, d2}" "d2 \<in> {d1, d2}" by auto
  have none: "numbered_files {} = Map.empty" by (simp add: numbered_files_def fun_eq_iff)
  show "\<exists>s'. same_file_creates os d1 d2 ws ws' s = Inr s' \<and> ps_dir (ab s') = Map.empty \<and> ps_fd (ab s') = Map.empty"
  proof (rule zz_forked [OF assms(1) ds assms(2-7)])
    fix P1 s1 s2 P3 s3
    assume f: "schedule (createn_step os) ws (\<lambda>c. start (if c then d2 else d1) (bytes ''zz'') True [0..<20], s) = Inr (P1, s1)"
      "dircheck os d1 20 s1 = Inr s2" "schedule (createn_step os) ws' (P1, s2) = Inr (P3, s3)"
      and i: "idle (ab s3)" "contents (ab s3) = numbered_files {''zz''}"
    from check_numbered [OF assms(1) ds(1) assms(2) i, of "''zz''"] obtain s4 where
      4: "checkn os d1 (bytes ''zz'') [0..<20] s3 = Inr s4" "ab s4 = ab s3" by auto
    from check_numbered [OF assms(1) ds(2) assms(3) i [folded 4(2)], of "''zz''"] obtain s5 where
      5: "checkn os d2 (bytes ''zz'') [0..<20] s4 = Inr s5" "ab s5 = ab s3" by (auto simp: 4(2))
    from unlink_numbered [OF assms(1) ds(1) assms(2) i [folded 5(2)], of "''zz''"] obtain s6 where
      6: "unlinkn os d1 (bytes ''zz'') [0..<20] s5 = Inr s6" "idle (ab s6)" "contents (ab s6) = numbered_files {}" by auto
    from idle_empty [OF 6(2)] 6(3) none show ?thesis by (simp add: same_file_creates_def f run_cmd_def 4(1) 5(1) 6(1))
  qed
  show "\<exists>s'. same_server_creates os d1 d2 ws ws' s = Inr s' \<and> ps_dir (ab s') = Map.empty \<and> ps_fd (ab s') = Map.empty"
  proof (rule zz_forked [OF assms(1) ds(1) ds(1) assms(2,2,4-7)])
    fix P1 s1 s2 P3 s3
    assume f: "schedule (createn_step os) ws (\<lambda>c. start (if c then d1 else d1) (bytes ''zz'') True [0..<20], s) = Inr (P1, s1)"
      "dircheck os d1 20 s1 = Inr s2" "schedule (createn_step os) ws' (P1, s2) = Inr (P3, s3)"
      and i: "idle (ab s3)" "contents (ab s3) = numbered_files {''zz''}"
    from check_numbered [OF assms(1) ds(1) assms(2) i, of "''zz''"] obtain s4 where
      4: "checkn os d1 (bytes ''zz'') [0..<20] s3 = Inr s4" "ab s4 = ab s3" by auto
    from unlink_numbered [OF assms(1) ds(1) assms(2) i [folded 4(2)], of "''zz''"] obtain s6 where
      6: "unlinkn os d1 (bytes ''zz'') [0..<20] s4 = Inr s6" "idle (ab s6)" "contents (ab s6) = numbered_files {}" by auto
    from f(1) have f1: "schedule (createn_step os) ws (\<lambda>c. start d1 (bytes ''zz'') True [0..<20], s) = Inr (P1, s1)" by (simp only: if_cancel)
    from idle_empty [OF 6(2)] 6(3) none show ?thesis by (simp add: same_server_creates_def f1 f(2,3) run_cmd_def 4(1) 6(1))
  qed
qed

lemma mem_start: "ps_fd (mem_abs ([], data, [])) = Map.empty" "ps_dir (mem_abs ([], data, [])) = Map.empty"
  by (simp_all add: mem_abs_def)

theorem concurrent_creates_pass_witness:
  "\<exists>s'. concurrent_creates mem_os (bytes ''yfs1'') (bytes ''yfs2'') (concat (replicate 60 [True, False])) ([], \<lambda>_. [], []) = Inr s' \<and>
    ps_dir (mem_abs s') = Map.empty \<and> ps_fd (mem_abs s') = Map.empty"
proof (rule concurrent_creates_pass)
  show "posix mem_os mem_abs {bytes ''yfs1'', bytes ''yfs2''}" by (rule mem_posix) (simp add: bytes_def slash_def)
qed (simp_all add: mem_start eval_nat_numeral)

theorem same_file_creates_pass_witness:
  "(\<exists>s'. same_file_creates mem_os (bytes ''yfs1'') (bytes ''yfs2'') (replicate 60 False @ [True, True]) (replicate 58 True) ([], \<lambda>_. [], []) = Inr s' \<and>
      ps_dir (mem_abs s') = Map.empty \<and> ps_fd (mem_abs s') = Map.empty) \<and>
   (\<exists>s'. same_server_creates mem_os (bytes ''yfs1'') (bytes ''yfs2'') (replicate 60 False @ [True, True]) (replicate 58 True) ([], \<lambda>_. [], []) = Inr s' \<and>
      ps_dir (mem_abs s') = Map.empty \<and> ps_fd (mem_abs s') = Map.empty)"
proof (rule same_file_creates_pass)
  show "posix mem_os mem_abs {bytes ''yfs1'', bytes ''yfs2''}" by (rule mem_posix) (simp add: bytes_def slash_def)
qed (simp_all add: mem_start eval_nat_numeral)

end
