(* ===== verification/Listener.thy ===== *)
theory Listener
  imports Connection
begin

text \<open>
  The thread of \<^verbatim>\<open>tcpsconn\<close> (\<^verbatim>\<open>rpc/connection.cc\<close>) that accepts connections until the destructor closes the
  pipe, and the destructor, which closes what was accepted. The outcomes of \<^verbatim>\<open>select\<close> and \<^verbatim>\<open>accept\<close> are
  arguments, and so is what other threads do to the accepted connections in between: they die, and workers
  take and drop references to them.
\<close>

section \<open>The accepting thread\<close>

datatype selected = SelIntr | SelFail | SelReady (on_pipe: bool) (on_tcp: bool)

text \<open>\<^verbatim>\<open>accept\<close> fails, or gives a descriptor, for which a connection is allocated at an address and a time.\<close>

datatype arrival = Refused | Arrived (a_fd: int) (a_conn: cid) int int

text \<open>The thread is still in its loop, has left it, or has ended itself with \<^verbatim>\<open>pthread_exit\<close>.\<close>

datatype lstatus = Listening | Returned | Exited

text \<open>A round of the loop, or a step of another thread: a connection is closed, is held, or is dropped.\<close>

datatype levent = Round selected arrival | Closes cid | Holds cid | Drops cid

fun accept_conn :: "levent list \<Rightarrow> conn_store \<times> (int \<times> cid) list \<Rightarrow> (lstatus \<times> conn_store \<times> (int \<times> cid) list) res" where
  "accept_conn [] s = Inr (Listening, s)"
| "accept_conn (Round SelIntr _ # es) s = accept_conn es s"
| "accept_conn (Round SelFail _ # es) s = Inl Abort"
| "accept_conn (Round (SelReady pipe tcp) a # es) s =
     (if pipe then Inr (Returned, s)
      else if tcp then
        (case a of
           Refused \<Rightarrow> Inr (Exited, s)
         | Arrived fd ch sec usec \<Rightarrow> rbind (process_accept (fst s) (snd s) fd ch sec usec) (accept_conn es))
      else Inl Abort)"
| "accept_conn (Closes c # es) s = rbind (closeconn (fst s) c) (\<lambda>(_, h). accept_conn es (h, snd s))"
| "accept_conn (Holds c # es) s = rbind (incref (fst s) c) (\<lambda>h. accept_conn es (h, snd s))"
| "accept_conn (Drops c # es) s = rbind (decref (fst s) c) (\<lambda>h. accept_conn es (h, snd s))"

section \<open>What is expected\<close>

text \<open>Of each accepted connection: whether it is dead, and how many references others hold. A connection that
  is dead and held by nobody else is one to collect; the next \<^verbatim>\<open>accept\<close> finds it, erases it from the table while
  it walks through the table, and goes on with the erased element.\<close>

type_synonym accepted = "cid \<rightharpoonup> bool \<times> nat"

fun listens :: "levent list \<Rightarrow> accepted \<Rightarrow> (lstatus \<times> accepted) res" where
  "listens [] m = Inr (Listening, m)"
| "listens (Round SelIntr _ # es) m = listens es m"
| "listens (Round SelFail _ # es) m = Inl Abort"
| "listens (Round (SelReady pipe tcp) a # es) m =
     (if pipe then Inr (Returned, m)
      else if tcp then
        (case a of
           Refused \<Rightarrow> Inr (Exited, m)
         | Arrived fd c sec usec \<Rightarrow>
             if (True, 0) \<in> ran m then Inl UseAfterFree else listens es (m(c \<mapsto> (False, 0))))
      else Inl Abort)"
| "listens (Closes c # es) m = listens es (m(c \<mapsto> (True, snd (the (m c)))))"
| "listens (Holds c # es) m = listens es (m(c \<mapsto> (fst (the (m c)), snd (the (m c)) + 1)))"
| "listens (Drops c # es) m = listens es (m(c \<mapsto> (fst (the (m c)), snd (the (m c)) - 1)))"

text \<open>The descriptors the kernel gives are not in use, nor are the addresses of new connections; other threads
  use connections that were accepted and drop references they took. The last argument counts these.\<close>

fun used_well :: "levent list \<Rightarrow> int set \<Rightarrow> (cid \<rightharpoonup> nat) \<Rightarrow> bool" where
  "used_well [] fds m = True"
| "used_well (Round e (Arrived fd c sec usec) # es) fds m =
     (fd \<notin> fds \<and> c \<notin> dom m \<and> (e = SelReady False True \<longrightarrow> used_well es (insert fd fds) (m(c \<mapsto> 0))) \<and>
      (e = SelIntr \<longrightarrow> used_well es fds m))"
| "used_well (Round e Refused # es) fds m = (e = SelIntr \<longrightarrow> used_well es fds m)"
| "used_well (Closes c # es) fds m = (c \<in> dom m \<and> used_well es fds m)"
| "used_well (Holds c # es) fds m = (case m c of None \<Rightarrow> False | Some n \<Rightarrow> used_well es fds (m(c \<mapsto> Suc n)))"
| "used_well (Drops c # es) fds m = (case m c of Some (Suc n) \<Rightarrow> used_well es fds (m(c \<mapsto> n)) | _ \<Rightarrow> False)"

section \<open>What is accepted stays until the destructor\<close>

definition conns_ok :: "conn_store \<Rightarrow> (int \<times> cid) list \<Rightarrow> bool" where
  "conns_ok h conns \<longleftrightarrow> distinct (map fst conns) \<and> distinct (map snd conns) \<and>
     (\<forall>(fd, c) \<in> set conns. \<exists>k. h c = Some k \<and> c_refno k \<ge> 1 \<and> cb_buf (c_wpdu k) = None)"

lemma conns_put_set: "fd \<notin> fst ` set cs \<Longrightarrow> set (conns_put fd c cs) = insert (fd, c) (set cs)"
  by (induction cs) (auto split: if_splits)

lemma conns_put_mset: "fd \<notin> fst ` set cs \<Longrightarrow>
  distinct (map fst (conns_put fd c cs)) = distinct (map fst cs) \<and>
  distinct (map snd (conns_put fd c cs)) = (c \<notin> snd ` set cs \<and> distinct (map snd cs))"
proof (induction cs)
  case (Cons x cs)
  obtain fd' c' where x: "x = (fd', c')" by fastforce
  have s: "set (conns_put fd c cs) = insert (fd, c) (set cs)" using Cons.prems by (intro conns_put_set) simp
  show ?case using Cons by (auto simp: x s)
qed simp

text \<open>The store and the table hold the accepted connections: the table has one reference to each.\<close>

definition tracks :: "conn_store \<Rightarrow> (int \<times> cid) list \<Rightarrow> accepted \<Rightarrow> bool" where
  "tracks h conns m \<longleftrightarrow> distinct (map fst conns) \<and> distinct (map snd conns) \<and> snd ` set conns = dom m \<and> dom h = dom m \<and>
     (\<forall>c k. h c = Some k \<longrightarrow> cb_buf (c_wpdu k) = None \<and> m c = Some (c_dead k, nat (c_refno k - 1)) \<and> c_refno k \<ge> 1)"

lemma tracksD:
  assumes "tracks h conns m" "m c = Some (d, n)"
  obtains k where "h c = Some k" "cb_buf (c_wpdu k) = None" "c_dead k = d" "c_refno k = int n + 1"
proof -
  from assms have "c \<in> dom h" by (auto simp: tracks_def)
  then obtain k where "h c = Some k" by blast
  moreover from this assms have "cb_buf (c_wpdu k) = None" "m c = Some (c_dead k, nat (c_refno k - 1))" "c_refno k \<ge> 1"
    by (auto simp: tracks_def)
  ultimately show thesis using assms(2) by (intro that [of k]) auto
qed

lemma tracks_update:
  assumes "tracks h conns m" "h c = Some k" "cb_buf (c_wpdu k') = None" "c_refno k' = int n + 1"
  shows "tracks (h(c \<mapsto> k')) conns (m(c \<mapsto> (c_dead k', n)))"
  using assms unfolding tracks_def by auto

definition refs_held :: "accepted \<Rightarrow> (cid \<rightharpoonup> nat)" where
  "refs_held m = (\<lambda>c. map_option snd (m c))"

lemma refs_held_upd: "refs_held (m(c \<mapsto> (d, n))) = (refs_held m)(c \<mapsto> n)"
  by (auto simp: refs_held_def)

lemma refs_held_same: "m c = Some (d, n) \<Longrightarrow> (refs_held m)(c \<mapsto> n) = refs_held m"
  by (auto simp: refs_held_def)

lemma refs_held_None: "refs_held m c = None \<longleftrightarrow> m c = None"
  by (simp add: refs_held_def)

lemma gc_dead_tracks:
  assumes "\<forall>c \<in> snd ` set conns. \<exists>k. h c = Some k \<and> cb_buf (c_wpdu k) = None \<and> m c = Some (c_dead k, nat (c_refno k - 1)) \<and> c_refno k \<ge> 1"
  shows "gc_dead h conns = (if \<exists>c \<in> snd ` set conns. m c = Some (True, 0) then Inl UseAfterFree else Inr h)"
  using assms
proof (induction conns)
  case (Cons x conns)
  obtain fd c where x: "x = (fd, c)" by fastforce
  from Cons.prems obtain k where k: "h c = Some k" "cb_buf (c_wpdu k) = None" "m c = Some (c_dead k, nat (c_refno k - 1))" "c_refno k \<ge> 1"
    by (auto simp: x)
  then have "c_dead k \<and> c_refno k = 1 \<longleftrightarrow> m c = Some (True, 0)" by auto
  with Cons k show ?case
    by (auto simp: x isdead_def conn_ref_def conn_at_def decref_def conn_delete_def verify_def Let_def)
qed simp

lemma process_accept_tracks:
  assumes "tracks h conns m" "fd \<notin> fst ` set conns" "c \<notin> dom m"
  shows "if (True, 0) \<in> ran m then process_accept h conns fd c sec usec = Inl UseAfterFree
    else \<exists>h' conns'. process_accept h conns fd c sec usec = Inr (h', conns') \<and> tracks h' conns' (m(c \<mapsto> (False, 0))) \<and>
      fst ` set conns' = insert fd (fst ` set conns)"
proof -
  let ?h = "h(c \<mapsto> connection_new sec usec)"
  have dom: "snd ` set conns = dom m" using assms(1) by (simp add: tracks_def)
  have "\<exists>k. ?h c' = Some k \<and> cb_buf (c_wpdu k) = None \<and> m c' = Some (c_dead k, nat (c_refno k - 1)) \<and> c_refno k \<ge> 1"
    if c': "c' \<in> snd ` set conns" for c'
  proof -
    from c' dom obtain d n where m: "m c' = Some (d, n)" by auto
    from tracksD [OF assms(1) m] obtain k where "h c' = Some k" "cb_buf (c_wpdu k) = None" "c_dead k = d" "c_refno k = int n + 1" .
    moreover have "c' \<noteq> c" using assms(3) m by auto
    ultimately show ?thesis using m by auto
  qed
  from gc_dead_tracks [of conns ?h m] this
  have g: "gc_dead ?h conns = (if (True, 0) \<in> ran m then Inl UseAfterFree else Inr ?h)" by (auto simp: dom ran_def)
  have s: "set (conns_put fd c conns) = insert (fd, c) (set conns)" by (rule conns_put_set [OF assms(2)])
  have "tracks ?h (conns_put fd c conns) (m(c \<mapsto> (False, 0)))"
    using assms conns_put_mset [OF assms(2), of c] unfolding tracks_def s
    by (auto simp: connection_new_def charbuf_new_def)
  with g s show ?thesis by (simp add: process_accept_def)
qed

text \<open>The thread does what is expected of it.\<close>

lemma accept_conn_listens:
  assumes "used_well es fds (refs_held m)" "tracks h conns m" "fst ` set conns \<subseteq> fds"
  shows "case listens es m of
      Inl f \<Rightarrow> accept_conn es (h, conns) = Inl f
    | Inr (st, m') \<Rightarrow> \<exists>h' conns'. accept_conn es (h, conns) = Inr (st, h', conns') \<and> tracks h' conns' m'"
  using assms
proof (induction es arbitrary: fds m h conns)
  case Nil
  then show ?case by simp
next
  case (Cons e es)
  show ?case
  proof (cases e)
    case (Round sl a)
    show ?thesis
    proof (cases sl)
      case SelIntr
      have "used_well es fds (refs_held m)" using Cons.prems(1) by (cases a) (simp_all add: Round SelIntr)
      then show ?thesis unfolding Round SelIntr accept_conn.simps listens.simps by (rule Cons.IH [OF _ Cons.prems(2,3)])
    next
      case SelFail
      then show ?thesis by (simp add: Round)
    next
      case (SelReady pipe tcp)
      show ?thesis
      proof (cases "\<not> pipe \<and> tcp \<and> a \<noteq> Refused")
        case True
        then obtain fd c sec usec where a: "a = Arrived fd c sec usec" by (cases a) auto
        have n: "fd \<notin> fst ` set conns" "c \<notin> dom m" and es: "used_well es (insert fd fds) (refs_held (m(c \<mapsto> (False, 0))))"
          using Cons.prems(1,3) True by (auto simp: Round SelReady a refs_held_upd refs_held_None domIff)
        note p = process_accept_tracks [OF Cons.prems(2) n, of sec usec]
        show ?thesis
        proof (cases "(True, 0) \<in> ran m")
          case True
          with p \<open>\<not> pipe \<and> tcp \<and> a \<noteq> Refused\<close> show ?thesis by (simp add: Round SelReady a)
        next
          case False
          with p obtain h' conns' where h': "process_accept h conns fd c sec usec = Inr (h', conns')"
            "tracks h' conns' (m(c \<mapsto> (False, 0)))" "fst ` set conns' = insert fd (fst ` set conns)" by auto
          have "accept_conn (e # es) (h, conns) = accept_conn es (h', conns')"
            "listens (e # es) m = listens es (m(c \<mapsto> (False, 0)))"
            using \<open>\<not> pipe \<and> tcp \<and> a \<noteq> Refused\<close> False h'(1) by (simp_all add: Round SelReady a)
          moreover have "fst ` set conns' \<subseteq> insert fd fds" using h'(3) Cons.prems(3) by auto
          ultimately show ?thesis using Cons.IH [OF es h'(2)] by (simp only:)
        qed
      qed (use Cons.prems(2) in \<open>auto simp: Round SelReady split: arrival.splits\<close>)
    qed
  next
    case (Closes c)
    then obtain d n where m: "m c = Some (d, n)" using Cons.prems(1) by (auto simp: refs_held_def)
    from tracksD [OF Cons.prems(2) m] obtain k where k: "h c = Some k" "cb_buf (c_wpdu k) = None" "c_dead k = d" "c_refno k = int n + 1" .
    have op: "closeconn h c = Inr (\<not> d, h(c \<mapsto> k\<lparr>c_dead := True\<rparr>))"
      using k by (cases k) (auto simp: closeconn_def conn_at_def fun_upd_idem)
    have pr: "used_well es fds (refs_held (m(c \<mapsto> (True, n))))"
      using Cons.prems(1) by (simp add: Closes refs_held_upd refs_held_same [of m c d n, OF m])
    have tr: "tracks (h(c \<mapsto> k\<lparr>c_dead := True\<rparr>)) conns (m(c \<mapsto> (True, n)))"
      using tracks_update [OF Cons.prems(2) k(1), of "k\<lparr>c_dead := True\<rparr>" n] k by simp
    have "accept_conn (e # es) (h, conns) = accept_conn es (h(c \<mapsto> k\<lparr>c_dead := True\<rparr>), conns)"
      "listens (e # es) m = listens es (m(c \<mapsto> (True, n)))"
      by (simp_all add: Closes op m)
    with Cons.IH [OF pr tr Cons.prems(3)] show ?thesis by (simp only:)
  next
    case (Holds c)
    then obtain d n where m: "m c = Some (d, n)" using Cons.prems(1) by (auto simp: refs_held_def split: option.splits)
    from tracksD [OF Cons.prems(2) m] obtain k where k: "h c = Some k" "cb_buf (c_wpdu k) = None" "c_dead k = d" "c_refno k = int n + 1" .
    have op: "incref h c = Inr (h(c \<mapsto> k\<lparr>c_refno := c_refno k + 1\<rparr>))" using k by (simp add: incref_def conn_at_def)
    have pr: "used_well es fds (refs_held (m(c \<mapsto> (d, Suc n))))"
      using Cons.prems(1) m by (simp add: Holds refs_held_upd) (simp add: refs_held_def)
    have tr: "tracks (h(c \<mapsto> k\<lparr>c_refno := c_refno k + 1\<rparr>)) conns (m(c \<mapsto> (d, Suc n)))"
      using tracks_update [OF Cons.prems(2) k(1), of "k\<lparr>c_refno := c_refno k + 1\<rparr>" "Suc n"] k by simp
    have "accept_conn (e # es) (h, conns) = accept_conn es (h(c \<mapsto> k\<lparr>c_refno := c_refno k + 1\<rparr>), conns)"
      "listens (e # es) m = listens es (m(c \<mapsto> (d, Suc n)))"
      by (simp_all add: Holds op m)
    with Cons.IH [OF pr tr Cons.prems(3)] show ?thesis by (simp only:)
  next
    case (Drops c)
    then obtain d n where m: "m c = Some (d, Suc n)" using Cons.prems(1) by (auto simp: refs_held_def split: option.splits nat.splits)
    from tracksD [OF Cons.prems(2) m] obtain k where k: "h c = Some k" "cb_buf (c_wpdu k) = None" "c_dead k = d" "c_refno k = int (Suc n) + 1" .
    have op: "decref h c = Inr (h(c \<mapsto> k\<lparr>c_refno := c_refno k - 1\<rparr>))" using k by (simp add: decref_def conn_at_def verify_def Let_def)
    have pr: "used_well es fds (refs_held (m(c \<mapsto> (d, n))))"
      using Cons.prems(1) m by (simp add: Drops refs_held_upd) (simp add: refs_held_def)
    have tr: "tracks (h(c \<mapsto> k\<lparr>c_refno := c_refno k - 1\<rparr>)) conns (m(c \<mapsto> (d, n)))"
      using tracks_update [OF Cons.prems(2) k(1), of "k\<lparr>c_refno := c_refno k - 1\<rparr>" n] k by simp
    have "accept_conn (e # es) (h, conns) = accept_conn es (h(c \<mapsto> k\<lparr>c_refno := c_refno k - 1\<rparr>), conns)"
      "listens (e # es) m = listens es (m(c \<mapsto> (d, n)))"
      by (simp_all add: Drops op m)
    with Cons.IH [OF pr tr Cons.prems(3)] show ?thesis by (simp only:)
  qed
qed

section \<open>The destructor\<close>

lemma dead_again: "c_dead k \<Longrightarrow> k\<lparr>c_dead := True, c_refno := n\<rparr> = k\<lparr>c_refno := n\<rparr>"
  by (cases k) simp

lemma tcpsconn_delete_closes:
  "conns_ok h conns \<Longrightarrow> \<exists>h'. tcpsconn_delete h conns = Inr h' \<and>
     (\<forall>(fd, c) \<in> set conns. \<forall>k. h c = Some k \<longrightarrow>
        h' c = (if c_refno k = 1 then None else Some (k\<lparr>c_dead := True, c_refno := c_refno k - 1\<rparr>))) \<and>
     (\<forall>c. c \<notin> snd ` set conns \<longrightarrow> h' c = h c)"
proof (induction conns arbitrary: h)
  case Nil
  then show ?case by simp
next
  case (Cons x conns)
  obtain fd c where x: "x = (fd, c)" by fastforce
  from Cons.prems obtain k where k: "h c = Some k" "c_refno k \<ge> 1" "cb_buf (c_wpdu k) = None" by (auto simp: conns_ok_def x)
  let ?h = "h(c := (if c_refno k = 1 then None else Some (k\<lparr>c_dead := True, c_refno := c_refno k - 1\<rparr>)))"
  have c: "c \<notin> snd ` set conns" using Cons.prems by (auto simp: conns_ok_def x)
  have del: "tcpsconn_delete h (x # conns) = tcpsconn_delete ?h conns"
    using k by (auto simp: x closeconn_def decref_def conn_at_def conn_delete_def verify_def Let_def dead_again)
  have "conns_ok ?h conns" using Cons.prems c by (force simp: conns_ok_def)
  from Cons.IH [OF this] obtain h' where h': "tcpsconn_delete ?h conns = Inr h'"
    "\<forall>(fd, c) \<in> set conns. \<forall>k. ?h c = Some k \<longrightarrow>
        h' c = (if c_refno k = 1 then None else Some (k\<lparr>c_dead := True, c_refno := c_refno k - 1\<rparr>))"
    "\<forall>c. c \<notin> snd ` set conns \<longrightarrow> h' c = ?h c" by blast
  show ?case
  proof (intro exI conjI)
    show "tcpsconn_delete h (x # conns) = Inr h'" by (simp only: del h'(1))
    have here: "h' c = ?h c" using h'(3) c by blast
    have "?h c' = h c'" if "(fd', c') \<in> set conns" for fd' c' using that c by (force simp: image_iff)
    with h'(2) here k(1) show "\<forall>(fd, c) \<in> set (x # conns). \<forall>k. h c = Some k \<longrightarrow>
        h' c = (if c_refno k = 1 then None else Some (k\<lparr>c_dead := True, c_refno := c_refno k - 1\<rparr>))"
      by (simp add: x split_beta) (metis prod.collapse)
    show "\<forall>c. c \<notin> snd ` set (x # conns) \<longrightarrow> h' c = h c" using h'(3) by (simp add: x)
  qed
qed

lemma tcpsconn_delete_tracks:
  assumes t: "tracks h conns m"
  shows "\<exists>h'. tcpsconn_delete h conns = Inr h' \<and> (\<forall>c. case m c of
    Some (d, Suc n) \<Rightarrow> \<exists>k. h' c = Some k \<and> c_dead k \<and> c_refno k = int (Suc n) | _ \<Rightarrow> h' c = None)"
proof -
  have "\<exists>k. h c = Some k \<and> c_refno k \<ge> 1 \<and> cb_buf (c_wpdu k) = None" if "(fd, c) \<in> set conns" for fd c
  proof -
    from that t have "c \<in> dom m" by (force simp: tracks_def)
    then obtain d n where m: "m c = Some (d, n)" by fastforce
    from tracksD [OF t m] show ?thesis by (metis le_add_same_cancel2 of_nat_0_le_iff)
  qed
  then have "conns_ok h conns" using t by (auto simp: conns_ok_def tracks_def)
  from tcpsconn_delete_closes [OF this] obtain h' where h': "tcpsconn_delete h conns = Inr h'"
    "\<forall>(fd, c) \<in> set conns. \<forall>k. h c = Some k \<longrightarrow>
        h' c = (if c_refno k = 1 then None else Some (k\<lparr>c_dead := True, c_refno := c_refno k - 1\<rparr>))"
    "\<forall>c. c \<notin> snd ` set conns \<longrightarrow> h' c = h c" by blast
  have "case m c of Some (d, Suc n) \<Rightarrow> \<exists>k. h' c = Some k \<and> c_dead k \<and> c_refno k = int (Suc n) | _ \<Rightarrow> h' c = None" for c
  proof (cases "m c")
    case None
    then have "c \<notin> dom h" "c \<notin> snd ` set conns" using t by (auto simp: tracks_def)
    with h'(3) None show ?thesis by auto
  next
    case (Some dn)
    obtain d n where m: "m c = Some (d, n)" using Some by (cases dn) simp
    from tracksD [OF t m] obtain k where k: "h c = Some k" "c_refno k = int n + 1" by blast
    have "c \<in> snd ` set conns" using t m by (auto simp: tracks_def)
    then obtain fd where "(fd, c) \<in> set conns" by auto
    with h'(2) k have "h' c = (if n = 0 then None else Some (k\<lparr>c_dead := True, c_refno := int n\<rparr>))" by fastforce
    with m show ?thesis by (cases n) simp_all
  qed
  with h'(1) show ?thesis by blast
qed

text \<open>(C30) The accepting thread of a server and the destructor of \<^verbatim>\<open>tcpsconn\<close>, whatever \<^verbatim>\<open>select\<close> and \<^verbatim>\<open>accept\<close> report and
  whenever connections die and are held and dropped by other threads in between. If a connection is dead and held
  by nobody but the table when another one is accepted, the clean-up of the table uses the element it has
  erased. Otherwise the thread ends as the calls tell it; its table has exactly the accepted connections; and the
  destructor closes each of them, frees those that nobody else holds, and leaves the others with the
  references of their holders.\<close>

theorem listener_frees_connections:
  assumes "used_well es {} Map.empty"
  shows "case listens es Map.empty of
      Inl f \<Rightarrow> accept_conn es (Map.empty, []) = Inl f
    | Inr (st, m) \<Rightarrow>
        \<exists>h conns h'. accept_conn es (Map.empty, []) = Inr (st, h, conns) \<and> snd ` set conns = dom m \<and> dom h = dom m \<and>
          tcpsconn_delete h conns = Inr h' \<and>
          (\<forall>c. case m c of
             Some (d, Suc n) \<Rightarrow> \<exists>k. h' c = Some k \<and> c_dead k \<and> c_refno k = int (Suc n)
           | _ \<Rightarrow> h' c = None)"
proof -
  have "used_well es {} (refs_held Map.empty)" using assms by (simp add: refs_held_def)
  moreover have "tracks Map.empty [] Map.empty" by (simp add: tracks_def)
  ultimately have run: "case listens es Map.empty of
      Inl f \<Rightarrow> accept_conn es (Map.empty, []) = Inl f
    | Inr (st, m') \<Rightarrow> \<exists>h' conns'. accept_conn es (Map.empty, []) = Inr (st, h', conns') \<and> tracks h' conns' m'"
    by (rule accept_conn_listens) simp
  show ?thesis
  proof (cases "listens es Map.empty")
    case (Inl f)
    with run show ?thesis by simp
  next
    case (Inr sm)
    obtain st m where sm: "sm = (st, m)" by fastforce
    with run Inr obtain h conns where h: "accept_conn es (Map.empty, []) = Inr (st, h, conns)" "tracks h conns m" by auto
    from tcpsconn_delete_tracks [OF h(2)] h show ?thesis by (auto simp: Inr sm tracks_def)
  qed
qed

theorem listener_frees_connections_witness:
  "(\<exists>h h'. accept_conn [Round (SelReady False True) (Arrived 7 1 0 0), Round SelIntr Refused, Holds 1, Closes 1,
       Round (SelReady False True) (Arrived 5 2 0 3), Round (SelReady True True) Refused]
     (Map.empty, []) = Inr (Returned, h, [(5, 2), (7, 1)]) \<and> tcpsconn_delete h [(5, 2), (7, 1)] = Inr h' \<and> h' 2 = None \<and>
     (\<exists>k. h' 1 = Some k \<and> c_dead k \<and> c_refno k = 1)) \<and>
   accept_conn [Round (SelReady False True) (Arrived 7 1 0 0), Closes 1, Round (SelReady False True) (Arrived 5 2 0 3)]
     (Map.empty, []) = Inl UseAfterFree"
proof
  let ?es = "[Round (SelReady False True) (Arrived 7 1 0 0), Round SelIntr Refused, Holds 1, Closes 1,
       Round (SelReady False True) (Arrived 5 2 0 3), Round (SelReady True True) Refused]"
  obtain h where r: "accept_conn ?es (Map.empty, []) = Inr (Returned, h, [(5, 2), (7, 1)])"
    by (simp add: process_accept_def isdead_def conn_ref_def conn_at_def connection_new_def incref_def closeconn_def)
  have "used_well ?es {} Map.empty" by simp
  from listener_frees_connections [OF this] r
  obtain h' where d: "tcpsconn_delete h [(5, 2), (7, 1)] = Inr h'"
    and c: "\<forall>c. case [1 \<mapsto> (True, 1), 2 \<mapsto> (False, 0)] c of
      Some (d, Suc n) \<Rightarrow> \<exists>k. h' c = Some k \<and> c_dead k \<and> c_refno k = int (Suc n) | _ \<Rightarrow> h' c = None"
    by (auto simp: ran_def split: if_splits)
  from c [rule_format, of 1] c [rule_format, of 2] r d
  show "\<exists>h h'. accept_conn ?es (Map.empty, []) = Inr (Returned, h, [(5, 2), (7, 1)]) \<and> tcpsconn_delete h [(5, 2), (7, 1)] = Inr h' \<and>
    h' 2 = None \<and> (\<exists>k. h' 1 = Some k \<and> c_dead k \<and> c_refno k = 1)" by auto
next
  let ?es = "[Round (SelReady False True) (Arrived 7 1 0 0), Closes 1, Round (SelReady False True) (Arrived 5 2 0 3)]"
  have "used_well ?es {} Map.empty" by simp
  moreover have "listens ?es Map.empty = Inl UseAfterFree" by (simp add: ran_def)
  ultimately show "accept_conn ?es (Map.empty, []) = Inl UseAfterFree"
    using listener_frees_connections [of ?es] by (simp del: accept_conn.simps listens.simps used_well.simps)
qed

text \<open>A failing \<^verbatim>\<open>accept\<close> ends the thread: later connections are never accepted, and the server is not told.\<close>

lemma failed_accept_ends_thread:
  "accept_conn (Round (SelReady False True) Refused # es) s = Inr (Exited, s)"
  by simp

end
