(* ===== verification/Spec2Isabelle.thy ===== *)
theory Spec2Isabelle
  imports Coherence Fuse Thr_Pool Call_Timeout Poll_Manager Handle Lock_Tester Rpc_Test Rpc_System Lock_Service Address File_System Fork_Test Listener
begin

text \<open>
  \<^bold>\<open>A verification library for the YFS labs\<close>

  The program is a distributed file system. A client machine runs FUSE handlers (\<^verbatim>\<open>fuse.cc\<close>) on top of the
  file server logic (\<^verbatim>\<open>yfs_client.cc\<close>), which keeps files and directories as strings in extents. Extents
  live on an extent server (\<^verbatim>\<open>extent_server.cc\<close>) behind a write-back cache (\<^verbatim>\<open>extent_client.cc\<close>); every
  operation holds the lock of the extents it uses, and locks are cached too (\<^verbatim>\<open>lock_client_cache.cc\<close>,
  \<^verbatim>\<open>lock_server_cache.cc\<close>; \<^verbatim>\<open>lock_server.cc\<close> is the server without caching). When a lock is given back,
  the extent of the same number is flushed. All remote calls go through the RPC library of \<^verbatim>\<open>src/rpc\<close>:
  typed marshalling, connections that frame messages, a poll thread, a thread pool, and endpoints that
  retransmit requests and execute them at most once.

  \<^bold>\<open>Conventions.\<close> Operations are functions on records of the state, one for each function of the source or
  for each of its critical sections. \<open>'a res\<close> is \<open>fault + 'a\<close>: a failed \<^verbatim>\<open>VERIFY\<close> or \<^verbatim>\<open>assert\<close>, a null or
  dangling pointer, an index outside a buffer, an exception and the overflow of a signed integer are
  faults of the model, so that a theorem about \<open>Inr\<close> says that none of them happens. Integers that can
  wrap around are words. Code with several threads is a step relation whose steps are the critical
  sections, and its theorems are about every reachable state. What is not under \<^verbatim>\<open>src\<close> is an argument:
  system calls, the clock, random numbers, what the network does to a message.

  \<^bold>\<open>The theories.\<close>

  \<^item> \<open>Prelude\<close>: faults and the \<open>res\<close> monad, machine integers, lemmas on lists and maps.

  \<^item> \<open>Marshall\<close> (\<^verbatim>\<open>rpc/marshall.h\<close>, the extractors and inserters in \<^verbatim>\<open>rpc/rpc.cc\<close>): buffers of cells that may
    be uninitialised, growth by doubling, both headers, scalars, strings, vectors and maps. The locales
    \<open>codec\<close> and \<open>safe_codec\<close> are the contract of a pair of inserter and extractor, interpreted for every
    scalar type and for strings; all lemmas on calls are proved from them.

  \<^item> \<open>Connection\<close> (\<^verbatim>\<open>rpc/connection.cc\<close>): framing in both directions against arbitrary partial reads and
    writes, reference counts, and the table of accepted connections. \<open>Listener\<close>: the thread that accepts
    connections, while other threads close, hold and drop them, and the destructor that ends it.

  \<^item> \<open>Thr_Pool\<close> (\<^verbatim>\<open>rpc/fifo.h\<close>, \<^verbatim>\<open>rpc/thr_pool.cc\<close>): the bounded queue, the workers and the destructor, with
    the locale \<open>fifo_queue\<close> between queue and pool: jobs are run once and in order, the destructor returns.

  \<^item> \<open>Poll_Manager\<close> (\<^verbatim>\<open>rpc/pollmgr.cc\<close>): \<^verbatim>\<open>SelectAIO\<close> and \<^verbatim>\<open>EPollAIO\<close> as two implementations of the locale
    \<open>aio_mgr\<close>, and the poll thread interleaved with threads that add and remove callbacks and may wake up without
    having been signalled. The two reads of \<^verbatim>\<open>callbacks_[fd]\<close> in the loop are one step.

  \<^item> \<open>Rpc_Server\<close>, \<open>Rpc_Dispatch\<close>, \<open>Rpc_Client\<close>, \<open>Rpc_Calls\<close>, \<open>Call_Timeout\<close> (\<^verbatim>\<open>rpc/rpc.h\<close>, \<^verbatim>\<open>rpc/rpc.cc\<close>): the reply
    window, the dispatcher, the numbering of requests and their acknowledgement, the typed templates, and
    the loop of \<^verbatim>\<open>call1\<close> with its clock arithmetic. \<open>Rpc_System\<close> puts clients and a server together over a
    network that loses, duplicates, delays and reorders messages. \<open>Rpc_Session\<close> composes the steps of a call from
    the arguments to the result, over a connection that delivers messages: a bound client and a server are
    the server's object itself, for any sequence of calls.

  \<^item> \<open>Handle\<close> (\<^verbatim>\<open>handle.cc\<close>): the cache of bound clients and its reference counts.

  \<^item> \<open>Services\<close> (\<^verbatim>\<open>extent_smain.cc\<close>, the remote calls of \<^verbatim>\<open>extent_client.cc\<close>): the extent service over RPC.
    \<open>Rpc_Test\<close> (\<^verbatim>\<open>rpc/rpctest.cc\<close>): the server and the tests of the test program of the library.
    \<open>Lock_Service\<close> (\<^verbatim>\<open>lock_smain.cc\<close>, \<^verbatim>\<open>lock_client.cc\<close>): the lock service over RPC, and the stubs of the plain
    client. \<open>Address\<close> (\<^verbatim>\<open>make_sockaddr\<close> of \<^verbatim>\<open>rpc/rpc.cc\<close>, the constructor of \<^verbatim>\<open>lock_client_cache\<close>): the text of
    addresses.

  \<^item> \<open>Lock_Server\<close>, \<open>Lock_Server_Cache\<close>, \<open>Lock_Client_Cache\<close>, \<open>Lock_System\<close> (\<^verbatim>\<open>lock_server.cc\<close>,
    \<^verbatim>\<open>lock_server_cache.cc\<close>, \<^verbatim>\<open>lock_client_cache.cc\<close>): both servers against the locale \<open>exclusive_lock\<close>, the
    client's five states, and the system of server, clients and messages in flight. A thread that holds
    several locks at once appears in \<open>Lock_System\<close> as several threads, one for each lock, since the
    state of a lock does not depend on other locks. \<open>Lock_Tester\<close> (\<^verbatim>\<open>lock_tester.cc\<close>) runs the five
    tests of the tester on it.

  \<^item> \<open>Extent_Server\<close>, \<open>Extent_Client\<close> (\<^verbatim>\<open>extent_server.cc\<close>, \<^verbatim>\<open>extent_client.cc\<close>): two implementations of the
    locale \<open>extent_store\<close>. \<open>Coherence\<close> (\<^verbatim>\<open>dorelease\<close> of \<^verbatim>\<open>yfs_client.h\<close>) composes the lock system, the extent
    server and all caches, with flushes and fetches that may fail.

  \<^item> \<open>Dir_Format\<close>, \<open>Yfs_Client\<close>, \<open>Fuse\<close> (\<^verbatim>\<open>yfs_client.cc\<close>, \<^verbatim>\<open>fuse.cc\<close>): directories as strings, the file
    operations with their locking, and the request handlers with the replies they make. \<open>File_System\<close>
    is the abstract tree of files and directories that sessions of these operations follow.

  \<^item> \<open>File_Test\<close>, \<open>Fork_Test\<close> (\<^verbatim>\<open>test-lab-3-b.c\<close>): the tests of a mounted file system, over any system calls,
    and the predicate \<open>posix\<close> for systems on which these calls succeed and do what they are documented to do; the second theory has the sections in which
    parent and child run at once, cut at their system calls.

  \<^bold>\<open>What is shown.\<close> From the bottom up: values, messages and whole calls cross the wire unchanged; partial
  reads and writes do not matter, except that a read may not cut the four bytes of a size; requests are numbered above their acknowledgement, executed at most
  once, and a completed call has the reply of its one execution; a call ends when its timeout has passed;
  locks exclude each other, and release always completes; reads through any cache under the lock see the last
  write that was not lost in a failed flush; directories behave as maps from names to numbers, and writes can be read back; whole
  sessions do what they do to a tree of files; every extent is used under its lock; each request handler
  replies once; and the test programs accept, under every schedule, a system whose calls succeed. The error theorems show where
  the code leaves these contracts: hostile lengths and sizes, wrong argument types, a deadline with a full
  second of nanoseconds, a failed flush, a removal of a descriptor that wakes up too early, dead connections
  in the table of the listener, the plain lock client against the caching server, and names that
  are numbers.

  \<^bold>\<open>Bounds and fuel.\<close> Marshalled values are below half a gigabyte, where the doubling of a buffer does not
  overflow \<^verbatim>\<open>int\<close>. Request numbers do not wrap around in \<open>Rpc_Client\<close> and \<open>Rpc_System\<close>. The loop of
  \<^verbatim>\<open>call1\<close> takes fuel: for a timeout below \<open>1000 * 2 ^ k\<close> milliseconds \<open>k + 2\<close> rounds are enough because
  every round doubles its deadline, and the theorem is that the loop returns. Other loops are structural
  or have a termination proof.

  \<^bold>\<open>Not modelled.\<close> The socket calls that connect and listen, and the processes around the library
  (argument parsing in the programs named \<^verbatim>\<open>main\<close>, mounting through libfuse) are pure input and output.
  Of \<^verbatim>\<open>test-lab-3-b.c\<close> the sections with concurrent deletes and concurrent writes are left out, and
  \<^verbatim>\<open>test-lab-3-c.c\<close> repeats its functions in two directories. \<^verbatim>\<open>concurrent_test\<close> and \<^verbatim>\<open>lossy_test\<close> of
  \<^verbatim>\<open>rpctest.cc\<close> overlap calls and lose messages, which \<open>Rpc_System\<close> covers; there the server's test of the
  instance a request is addressed to, which is part of \<open>Rpc_Dispatch\<close>, is left out, and in \<open>Rpc_Session\<close> the old requests
  that a client in lossy mode sends once more. In \<open>Lock_Service\<close> the calls back to clients are recorded, not waited for. \<^verbatim>\<open>rpc/method_thread.h\<close> and \<^verbatim>\<open>rpc/slock.h\<close> wrap pthread
  calls, which the interleavings stand for; \<^verbatim>\<open>gettime.cc\<close> replaces a system call on MacOS; logging and
  tracing print. The memory model is sequentially consistent, and reads outside a critical section,
  such as the lookup in \<^verbatim>\<open>retry_handler\<close>, are taken to be atomic.
\<close>

end
